(* ===== verification/Prelude.thy ===== *)
theory Prelude
  imports Main "HOL-Library.Sublist" "HOL-Library.AList" "HOL-Library.Word"
begin

text \<open>
  The shared ground of the development: the result type of fallible operations, the
  representation of JavaScript strings and of insertion-ordered maps, and the generic list
  lemmas the component theories use.

  A JavaScript string is represented by its UTF-8 encoding, a \<^typ>\<open>string\<close> of bytes. Searching
  for, splitting at and testing for ASCII text is the same on the encoding as on the UTF-16
  code units JavaScript works with, because no byte of a multi-byte sequence is an ASCII byte.
  Where the code counts or reads code units (\<open>length\<close>, \<open>charCodeAt\<close>), \<open>char_codes\<close> decodes the
  UTF-8 bytes to UTF-16 code units first.

  A JavaScript \<open>Map\<close> is an association list in insertion order: \<^const>\<open>AList.update\<close> overwrites
  in place or appends, which is what \<open>Map.set\<close> does, and \<^const>\<open>AList.delete\<close> removes the entry.
\<close>

named_theorems inv_intros \<open>introduction rules of the component invariants\<close>
named_theorems js_simps \<open>rewrite rules of the JavaScript library functions\<close>

section \<open>Results\<close>

text \<open>\<open>Result<T>\<close> of core/result.ts: \<open>err(e)\<close> is \<^term>\<open>Inl e\<close>, \<open>ok(v)\<close> is \<^term>\<open>Inr v\<close>. A thrown
  exception is represented the same way.\<close>

type_synonym 'a result = "string + 'a"

abbreviation is_ok :: "'e + 'a \<Rightarrow> bool" where
  "is_ok r \<equiv> (case r of Inl _ \<Rightarrow> False | Inr _ \<Rightarrow> True)"

section \<open>Strings\<close>

abbreviation byte :: "char \<Rightarrow> nat" where
  "byte c \<equiv> of_char c"

fun cont :: "string \<Rightarrow> nat" where
  "cont [] = 0"
| "cont (c # _) = byte c mod 64"

text \<open>The UTF-16 code units of a string given by its UTF-8 bytes. A code point above
  \<open>0xFFFF\<close> gives a surrogate pair.\<close>

function char_codes :: "string \<Rightarrow> nat list" where
  "char_codes s = (case s of [] \<Rightarrow> []
     | c # r \<Rightarrow>
        (if byte c < 128 then byte c # char_codes r
         else if byte c < 224 then ((byte c mod 32) * 64 + cont r) # char_codes (drop 1 r)
         else if byte c < 240 then
           ((byte c mod 16) * 4096 + cont r * 64 + cont (drop 1 r)) # char_codes (drop 2 r)
         else (let cp = (byte c mod 8) * 262144 + cont r * 4096 + cont (drop 1 r) * 64
                        + cont (drop 2 r) - 65536
               in (55296 + cp div 1024) # (56320 + cp mod 1024) # char_codes (drop 3 r))))"
  by pat_completeness auto
termination
  by (relation "measure length") auto

declare char_codes.simps [simp del]

definition js_length :: "string \<Rightarrow> nat" where
  "js_length s = length (char_codes s)"

abbreviation js_includes :: "string \<Rightarrow> string \<Rightarrow> bool" where
  "js_includes s t \<equiv> sublist t s"

abbreviation starts_with :: "string \<Rightarrow> string \<Rightarrow> bool" where
  "starts_with s t \<equiv> prefix t s"

abbreviation ends_with :: "string \<Rightarrow> string \<Rightarrow> bool" where
  "ends_with s t \<equiv> suffix t s"

text \<open>\<open>s.split(c)\<close> for a one-character separator: always at least one part.\<close>

fun split_char :: "char \<Rightarrow> string \<Rightarrow> string list" where
  "split_char c [] = [[]]"
| "split_char c (x # xs) =
     (if x = c then [] # split_char c xs
      else (case split_char c xs of [] \<Rightarrow> [[x]] | p # ps \<Rightarrow> (x # p) # ps))"

text \<open>\<open>parts.join(sep)\<close>.\<close>

fun join_with :: "string \<Rightarrow> string list \<Rightarrow> string" where
  "join_with sep [] = []"
| "join_with sep [x] = x"
| "join_with sep (x # y # xs) = x @ sep @ join_with sep (y # xs)"

lemma split_char_nonempty [simp]: "split_char c s \<noteq> []"
  by (induction s) (auto split: list.splits)

lemma join_split_char: "join_with [c] (split_char c s) = s"
proof (induction s)
  case (Cons x xs)
  obtain p ps where sp: "split_char c xs = p # ps"
    using split_char_nonempty [of c xs] by (cases "split_char c xs") auto
  show ?case
    using Cons.IH sp by (cases ps) auto
qed simp

lemma split_char_no_sep: "p \<in> set (split_char c s) \<Longrightarrow> c \<notin> set p"
  by (induction s arbitrary: p) (fastforce split: list.splits if_splits)+

lemma split_char_id: "c \<notin> set s \<Longrightarrow> split_char c s = [s]"
  by (induction s) auto

lemma split_char_append:
  "c \<notin> set p \<Longrightarrow> split_char c (p @ c # s) = p # split_char c s"
  by (induction p) auto

text \<open>\<open>toString\<close> of an integer.\<close>

fun nat_decimal :: "nat \<Rightarrow> string" where
  "nat_decimal n = (if n < 10 then [char_of (48 + n)] else nat_decimal (n div 10) @ [char_of (48 + n mod 10)])"

declare nat_decimal.simps [simp del]

definition int_decimal :: "int \<Rightarrow> string" where
  "int_decimal n = (if n < 0 then CHR ''-'' # nat_decimal (nat (- n)) else nat_decimal (nat n))"

text \<open>White space of \<open>trim\<close>, in UTF-8, removed from the beginning of a text.\<close>

definition WHITE_SPACE :: "string list" where
  "WHITE_SPACE = map (\<lambda>c. [c]) [CHR 0x09, CHR 0x0A, CHR 0x0B, CHR 0x0C, CHR 0x0D, CHR '' ''] @
     [[CHR 0xC2, CHR 0xA0], [CHR 0xE1, CHR 0x9A, CHR 0x80], [CHR 0xE2, CHR 0x80, CHR 0xA8], [CHR 0xE2, CHR 0x80, CHR 0xA9],
      [CHR 0xE2, CHR 0x80, CHR 0xAF], [CHR 0xE2, CHR 0x81, CHR 0x9F], [CHR 0xE3, CHR 0x80, CHR 0x80], [CHR 0xEF, CHR 0xBB, CHR 0xBF]] @
     map (\<lambda>n. [CHR 0xE2, CHR 0x80, char_of (128 + n)]) [0::nat..<11]"

function trimStart :: "string \<Rightarrow> string" where
  "trimStart s = (case find (\<lambda>w. w \<noteq> [] \<and> starts_with s w) WHITE_SPACE of None \<Rightarrow> s | Some w \<Rightarrow> trimStart (drop (length w) s))"
  by pat_completeness auto
termination
  by (relation "measure length") (auto simp: find_Some_iff prefix_def)

declare trimStart.simps [simp del]

function trimEnd :: "string \<Rightarrow> string" where
  "trimEnd s = (case find (\<lambda>w. w \<noteq> [] \<and> ends_with s w) WHITE_SPACE of None \<Rightarrow> s | Some w \<Rightarrow> trimEnd (take (length s - length w) s))"
  by pat_completeness auto
termination
  by (relation "measure length") (auto simp: find_Some_iff suffix_def)

declare trimEnd.simps [simp del]

definition trim :: "string \<Rightarrow> string" where
  "trim s = trimEnd (trimStart s)"

text \<open>\<open>parseInt(s)\<close>, exact on integers; \<^const>\<open>None\<close> is \<open>NaN\<close>. What follows the digits is ignored.\<close>

definition digitIn :: "nat \<Rightarrow> char \<Rightarrow> nat option" where
  "digitIn radix c = (let n = of_char c :: nat;
     d = (if 48 \<le> n \<and> n \<le> 57 then n - 48 else if 97 \<le> n \<and> n \<le> 122 then n - 87 else if 65 \<le> n \<and> n \<le> 90 then n - 55 else 36)
   in if d < radix then Some d else None)"

definition parseInt :: "string \<Rightarrow> int option" where
  "parseInt s =
    (let t = trimStart s;
         neg = (case t of [] \<Rightarrow> False | c # u \<Rightarrow> c = CHR ''-'');
         u = (case t of c # u \<Rightarrow> if c = CHR ''-'' \<or> c = CHR ''+'' then u else t | [] \<Rightarrow> []);
         (radix, v) = (if starts_with u ''0x'' \<or> starts_with u ''0X'' then (16, drop 2 u) else (10, u));
         ds = map (\<lambda>c. the (digitIn radix c)) (takeWhile (\<lambda>c. digitIn radix c \<noteq> None) v);
         n = int (foldl (\<lambda>n d. n * radix + d) 0 ds)
     in if ds = [] then None else Some (if neg then - n else n))"

section \<open>Lists\<close>

lemma butlast_conv_filter:
  "distinct (xs @ [x]) \<Longrightarrow> filter (\<lambda>y. y \<noteq> x) (xs @ [x]) = xs"
  by (auto simp: filter_id_conv)

lemma filter_id: "x \<notin> set xs \<Longrightarrow> filter (\<lambda>y. y \<noteq> x) xs = xs"
  by (induction xs) auto

lemma foldl_invariant:
  assumes "P a" and "\<And>a x. P a \<Longrightarrow> x \<in> set xs \<Longrightarrow> P (f a x)"
  shows "P (foldl f a xs)"
  using assms by (induction xs arbitrary: a) auto

lemma fold_invariant:
  assumes "P a" and "\<And>a x. P a \<Longrightarrow> x \<in> set xs \<Longrightarrow> P (f x a)"
  shows "P (fold f xs a)"
  using assms by (induction xs arbitrary: a) auto

lemma list_all2_elem: "list_all2 P xs ys \<Longrightarrow> y \<in> set ys \<Longrightarrow> \<exists>x \<in> set xs. P x y"
  by (induction rule: list_all2_induct) auto

section \<open>Insertion-ordered maps\<close>

lemma map_of_update [simp]: "map_of (AList.update k v m) = (map_of m)(k \<mapsto> v)"
  by (rule update_conv')

lemma map_of_delete [simp]: "map_of (AList.delete k m) = (map_of m)(k := None)"
  by (rule delete_conv')

lemma length_update:
  "length (AList.update k v m) = (if k \<in> fst ` set m then length m else Suc (length m))"
  by (induction m) auto

lemma length_delete:
  "distinct (map fst m) \<Longrightarrow> length (AList.delete k m) = length m - (if k \<in> fst ` set m then 1 else 0)"
proof (induction m)
  case (Cons p m)
  show ?case
  proof (cases "fst p = k")
    case True
    with Cons.prems have "k \<notin> fst ` set m" by auto
    then have "AList.delete k m = m" by (force simp: AList.delete_eq filter_id_conv)
    with True show ?thesis by simp
  next
    case False
    with Cons show ?thesis by (cases m) auto
  qed
qed simp

lemma update_fresh: "k \<notin> fst ` set m \<Longrightarrow> AList.update k v m = m @ [(k, v)]"
  by (induction m) auto

lemma delete_absent: "k \<notin> fst ` set m \<Longrightarrow> AList.delete k m = m"
  by (force simp: AList.delete_eq filter_id_conv)

lemma set_delete: "set (AList.delete k m) = {p \<in> set m. fst p \<noteq> k}"
  by (auto simp: AList.delete_eq)


section \<open>Loops that may fail\<close>

text \<open>A loop that collects one result per element and stops at the first error.\<close>

primrec traverse :: "('a \<Rightarrow> 'b result) \<Rightarrow> 'a list \<Rightarrow> 'b list result" where
  "traverse f [] = Inr []"
| "traverse f (x # xs) = (case f x of Inl e \<Rightarrow> Inl e
     | Inr y \<Rightarrow> (case traverse f xs of Inl e \<Rightarrow> Inl e | Inr ys \<Rightarrow> Inr (y # ys)))"

lemma traverse_cong [fundef_cong]:
  "xs = ys \<Longrightarrow> (\<And>x. x \<in> set ys \<Longrightarrow> f x = g x) \<Longrightarrow> traverse f xs = traverse g ys"
  by (induction ys arbitrary: xs) (auto split: sum.splits)

lemma traverse_map: "traverse f (map g xs) = traverse (\<lambda>x. f (g x)) xs"
  by (induction xs) (auto split: sum.splits)

lemma traverse_total: "(\<And>x. x \<in> set xs \<Longrightarrow> f x = Inr (g x)) \<Longrightarrow> traverse f xs = Inr (map g xs)"
  by (induction xs) auto

lemma traverse_Inr: "traverse f xs = Inr ys \<Longrightarrow> length ys = length xs \<and> (\<forall>i < length xs. f (xs ! i) = Inr (ys ! i))"
  by (induction xs arbitrary: ys) (auto simp: nth_Cons split: sum.splits nat.splits)


section \<open>Loops over a list that thread a state\<close>

primrec mapAccum :: "('a \<Rightarrow> 's \<Rightarrow> 'b \<times> 's) \<Rightarrow> 'a list \<Rightarrow> 's \<Rightarrow> 'b list \<times> 's" where
  "mapAccum f [] s = ([], s)"
| "mapAccum f (x # xs) s = (let (y, s') = f x s; (ys, s'') = mapAccum f xs s' in (y # ys, s''))"

lemma mapAccum_cong [fundef_cong]:
  "xs = ys \<Longrightarrow> s = t \<Longrightarrow> (\<And>x s. x \<in> set ys \<Longrightarrow> f x s = g x s) \<Longrightarrow> mapAccum f xs s = mapAccum g ys t"
  by (induction ys arbitrary: xs s t) auto

lemma mapAccum_length [simp]: "length (fst (mapAccum f xs s)) = length xs"
  by (induction xs arbitrary: s) (auto simp: case_prod_beta Let_def)

lemma mapAccum_elem: "y \<in> set (fst (mapAccum f xs s)) \<Longrightarrow> \<exists>x \<in> set xs. \<exists>s'. y = fst (f x s')"
  by (induction xs arbitrary: s) (auto simp: case_prod_beta Let_def)

section \<open>Reachable states\<close>

text \<open>The states a step relation reaches from an initial state; components whose calls interleave are
  step relations.\<close>

inductive reach :: "'s \<Rightarrow> ('s \<Rightarrow> 's \<Rightarrow> bool) \<Rightarrow> 's \<Rightarrow> bool" for init step where
  reach_init: "reach init step init"
| reach_step: "reach init step s \<Longrightarrow> step s s' \<Longrightarrow> reach init step s'"

lemma reach_invariant:
  assumes "reach init step s" and "P init" and "\<And>s s'. P s \<Longrightarrow> step s s' \<Longrightarrow> P s'"
  shows "P s"
  using assms by (induction) auto

end
