(* ===== verification/Bloom_Filter.thy ===== *)
theory Bloom_Filter
  imports Prelude
begin

text \<open>
  The Bloom filter of core/cache.ts: a bit array of \<open>\<lceil>size/8\<rceil>\<close> bytes, two 32-bit rolling hashes
  and \<open>hashCount\<close> probe positions. The lemmas show that the filter has no false negative: a value
  that was added is found until \<open>clear\<close>.
\<close>

unbundle bit_operations_syntax

section \<open>State and operations\<close>

record bloom =
  bits :: "8 word list"
  bsize :: nat
  hashCount :: nat

definition new_bloom :: "nat \<Rightarrow> nat \<Rightarrow> bloom" where
  "new_bloom sz k = \<lparr>bits = replicate ((sz + 7) div 8) 0, bsize = sz, hashCount = k\<rparr>"

text \<open>The two rolling hashes: \<open>h1 = (h1 * 31 + c) >>> 0\<close>, \<open>h2 = (h2 * 37 + c) >>> 0\<close>.\<close>

fun roll :: "32 word \<Rightarrow> nat list \<Rightarrow> 32 word \<Rightarrow> 32 word" where
  "roll m [] h = h"
| "roll m (c # cs) h = roll m cs (h * m + of_nat c)"

text \<open>The probes \<open>(h1 + i * h2) % size\<close> are computed on doubles, which are exact below \<open>2^53\<close>:
  no wrap-around here.\<close>

definition getHashes :: "bloom \<Rightarrow> string \<Rightarrow> nat list" where
  "getHashes b val = (let h1 = roll 31 (char_codes val) 0; h2 = roll 37 (char_codes val) 0
     in map (\<lambda>i. (unat h1 + i * unat h2) mod bsize b) [0..<hashCount b])"

text \<open>\<open>this.bits[byteIdx] |= (1 << bitIdx)\<close>; a store outside a typed array has no effect.\<close>

definition set_bit8 :: "8 word list \<Rightarrow> nat \<Rightarrow> 8 word list" where
  "set_bit8 bs h = bs[h div 8 := (bs ! (h div 8)) OR push_bit (h mod 8) 1]"

definition test_bit8 :: "8 word list \<Rightarrow> nat \<Rightarrow> bool" where
  "test_bit8 bs h = (h div 8 < length bs \<and> (bs ! (h div 8)) AND push_bit (h mod 8) 1 \<noteq> 0)"

definition add :: "bloom \<Rightarrow> string \<Rightarrow> bloom" where
  "add b val = b\<lparr>bits := foldl set_bit8 (bits b) (getHashes b val)\<rparr>"

definition has :: "bloom \<Rightarrow> string \<Rightarrow> bool" where
  "has b val = list_all (test_bit8 (bits b)) (getHashes b val)"

definition clear :: "bloom \<Rightarrow> bloom" where
  "clear b = b\<lparr>bits := replicate (length (bits b)) 0\<rparr>"

definition bloom_wf :: "bloom \<Rightarrow> bool" where
  "bloom_wf b \<longleftrightarrow> 0 < bsize b \<and> length (bits b) = (bsize b + 7) div 8"


section \<open>No false negatives\<close>

lemma new_bloom_wf: "0 < sz \<Longrightarrow> bloom_wf (new_bloom sz k)"
  by (simp add: bloom_wf_def new_bloom_def)

lemma set_bit8_length [simp]: "length (set_bit8 bs h) = length bs"
  by (simp add: set_bit8_def)

lemma foldl_set_bit8_length [simp]: "length (foldl set_bit8 bs hs) = length bs"
  by (induction hs arbitrary: bs) auto

lemma test_bit8_iff: "test_bit8 bs h \<longleftrightarrow> h div 8 < length bs \<and> bit (bs ! (h div 8)) (h mod 8)"
proof -
  have "((w :: 8 word) AND push_bit n 1 \<noteq> 0) = bit w n" if "n < 8" for w n
  proof -
    have "w AND push_bit n 1 = of_bool (bit w n) * push_bit n 1"
      using that by (auto intro!: bit_word_eqI simp: bit_simps)
    moreover have "push_bit n (1 :: 8 word) \<noteq> 0"
      using that by (auto simp: bit_eq_iff bit_simps intro!: exI [of _ n])
    ultimately show ?thesis by simp
  qed
  then show ?thesis by (simp add: test_bit8_def)
qed

lemma set_bit8_mono: "test_bit8 bs g \<Longrightarrow> test_bit8 (set_bit8 bs h) g"
  by (cases "h div 8 = g div 8") (auto simp: test_bit8_iff set_bit8_def bit_simps)

lemma set_bit8_sets: "h div 8 < length bs \<Longrightarrow> test_bit8 (set_bit8 bs h) h"
  by (auto simp: test_bit8_iff set_bit8_def bit_simps)

lemma foldl_set_bit8_mono: "test_bit8 bs g \<Longrightarrow> test_bit8 (foldl set_bit8 bs hs) g"
  by (induction hs arbitrary: bs) (auto intro: set_bit8_mono)

lemma foldl_set_bit8_sets:
  "h \<in> set hs \<Longrightarrow> h div 8 < length bs \<Longrightarrow> test_bit8 (foldl set_bit8 bs hs) h"
  by (induction hs arbitrary: bs) (auto intro: foldl_set_bit8_mono set_bit8_sets)

lemma getHashes_in_range:
  assumes "bloom_wf b" and "h \<in> set (getHashes b v)"
  shows "h div 8 < length (bits b)"
proof -
  from assms have "h < bsize b"
    by (auto simp: getHashes_def bloom_wf_def Let_def)
  with assms(1) show ?thesis by (auto simp: bloom_wf_def)
qed

lemma add_fields [simp]:
  "bsize (add b v) = bsize b" "hashCount (add b v) = hashCount b"
  "length (bits (add b v)) = length (bits b)"
  by (simp_all add: add_def)

lemma add_wf [inv_intros]: "bloom_wf b \<Longrightarrow> bloom_wf (add b v)"
  by (simp add: bloom_wf_def)

lemma clear_wf [inv_intros]: "bloom_wf b \<Longrightarrow> bloom_wf (clear b)"
  by (simp add: bloom_wf_def clear_def)

lemma getHashes_add [simp]: "getHashes (add b w) v = getHashes b v"
  by (simp add: getHashes_def)

lemma has_add_same: "bloom_wf b \<Longrightarrow> has (add b v) v"
  by (auto simp: has_def add_def list_all_iff getHashes_def Let_def
      intro!: foldl_set_bit8_sets getHashes_in_range [of b _ v, unfolded getHashes_def Let_def])

lemma has_add_mono: "has b v \<Longrightarrow> has (add b w) v"
  by (auto simp: has_def add_def list_all_iff getHashes_def Let_def intro!: foldl_set_bit8_mono)

lemma has_clear: "0 < hashCount b \<Longrightarrow> \<not> has (clear b) v"
  by (auto simp: has_def clear_def list_all_iff getHashes_def Let_def test_bit8_iff
      intro!: bexI [of _ 0])

section \<open>The set-membership contract\<close>

text \<open>What a client of an approximate set may rely on: no false negatives, also after further
  insertions.\<close>

locale approx_set =
  fixes inv :: "'s \<Rightarrow> bool" and ins :: "'s \<Rightarrow> 'a \<Rightarrow> 's" and mem :: "'s \<Rightarrow> 'a \<Rightarrow> bool"
  assumes inv_ins: "inv s \<Longrightarrow> inv (ins s x)"
    and mem_ins_same: "inv s \<Longrightarrow> mem (ins s x) x"
    and mem_ins_mono: "mem s x \<Longrightarrow> mem (ins s y) x"
begin

lemma inv_ins_all: "inv s \<Longrightarrow> inv (foldl ins s xs)"
  by (induction xs arbitrary: s) (auto intro: inv_ins)

lemma mem_ins_all_mono: "mem s x \<Longrightarrow> mem (foldl ins s xs) x"
  by (induction xs arbitrary: s) (auto intro: mem_ins_mono)

lemma mem_ins_all: "inv s \<Longrightarrow> x \<in> set xs \<Longrightarrow> mem (foldl ins s xs) x"
  by (induction xs arbitrary: s) (auto intro: inv_ins mem_ins_same mem_ins_all_mono)

end

interpretation bloom_set: approx_set bloom_wf add has
  by unfold_locales (auto intro: add_wf has_add_same has_add_mono)

text \<open>
  A Bloom filter has no false negatives. Whatever is added to a filter of positive size, in
  any order and with any number of hash functions, \<open>has\<close> answers true for each added value.
\<close>

lemma bloom_no_false_negatives:
  assumes "0 < sz" and "v \<in> set vs"
  shows "has (foldl add (new_bloom sz k) vs) v"
  by (rule bloom_set.mem_ins_all [OF new_bloom_wf [OF assms(1)] assms(2)])

end
