(* ===== verification/Bounded_Map.thy ===== *)
theory Bounded_Map
  imports Prelude "HOL-Library.Monad_Syntax"
begin

text \<open>
  \<open>BoundedMap\<close> of core/utils/collections.ts: a map with a maximum capacity that evicts the least
  recently used entry. The nodes of its doubly linked list live in an explicit store, because
  every operation mutates the links of shared nodes; a read or write through an address that
  holds no node is \<^term>\<open>None\<close> (the \<open>TypeError\<close> of the source). The abstract specification is the
  list of entries, most recently used first. The operations refine it, never raise, and keep
  the links, the index and the capacity consistent.
\<close>

section \<open>State and operations\<close>

record ('k, 'v) node =
  nkey :: 'k
  nval :: 'v
  nprev :: "nat option"
  nnext :: "nat option"

record ('k, 'v) bmap =
  cache :: "('k \<times> nat) list"
  heap :: "nat \<rightharpoonup> ('k, 'v) node"
  head :: "nat option"
  tail :: "nat option"
  maxCapacity :: nat
  fresh :: nat

definition new_bmap :: "nat \<Rightarrow> ('k, 'v) bmap" where
  "new_bmap cap = \<lparr>cache = [], heap = Map.empty, head = None, tail = None,
     maxCapacity = cap, fresh = 0\<rparr>"

definition modify_node ::
    "nat \<Rightarrow> (('k, 'v) node \<Rightarrow> ('k, 'v) node) \<Rightarrow> ('k, 'v) bmap \<Rightarrow> ('k, 'v) bmap option" where
  "modify_node a f m = (case heap m a of None \<Rightarrow> None
     | Some n \<Rightarrow> Some (m\<lparr>heap := (heap m)(a \<mapsto> f n)\<rparr>))"

definition addToHead :: "nat \<Rightarrow> ('k, 'v) bmap \<Rightarrow> ('k, 'v) bmap option" where
  "addToHead a m = do {
     m1 \<leftarrow> modify_node a (\<lambda>n. n\<lparr>nnext := head m, nprev := None\<rparr>) m;
     m2 \<leftarrow> (case head m1 of None \<Rightarrow> Some m1
             | Some b \<Rightarrow> modify_node b (\<lambda>n. n\<lparr>nprev := Some a\<rparr>) m1);
     Some (m2\<lparr>head := Some a, tail := (case tail m2 of None \<Rightarrow> Some a | Some t \<Rightarrow> Some t)\<rparr>) }"

definition removeNode :: "nat \<Rightarrow> ('k, 'v) bmap \<Rightarrow> ('k, 'v) bmap option" where
  "removeNode a m = do {
     n \<leftarrow> heap m a;
     m1 \<leftarrow> (case nprev n of Some p \<Rightarrow> modify_node p (\<lambda>x. x\<lparr>nnext := nnext n\<rparr>) m
             | None \<Rightarrow> Some (m\<lparr>head := nnext n\<rparr>));
     n1 \<leftarrow> heap m1 a;
     (case nnext n1 of Some q \<Rightarrow> modify_node q (\<lambda>x. x\<lparr>nprev := nprev n1\<rparr>) m1
        | None \<Rightarrow> Some (m1\<lparr>tail := nprev n1\<rparr>)) }"

definition moveToHead :: "nat \<Rightarrow> ('k, 'v) bmap \<Rightarrow> ('k, 'v) bmap option" where
  "moveToHead a m = removeNode a m \<bind> addToHead a"

definition evict :: "('k, 'v) bmap \<Rightarrow> ('k, 'v) bmap option" where
  "evict m = (case tail m of None \<Rightarrow> Some m
     | Some t \<Rightarrow> do { n \<leftarrow> heap m t; removeNode t (m\<lparr>cache := AList.delete (nkey n) (cache m)\<rparr>) })"

definition bm_set :: "('k, 'v) bmap \<Rightarrow> 'k \<Rightarrow> 'v \<Rightarrow> ('k, 'v) bmap option" where
  "bm_set m k v = (case map_of (cache m) k of
      Some a \<Rightarrow> modify_node a (\<lambda>n. n\<lparr>nval := v\<rparr>) m \<bind> moveToHead a
    | None \<Rightarrow> do {
        m1 \<leftarrow> (if maxCapacity m \<le> length (cache m) then evict m else Some m);
        let a = fresh m1;
        addToHead a (m1\<lparr>heap := (heap m1)(a \<mapsto> \<lparr>nkey = k, nval = v, nprev = None, nnext = None\<rparr>),
                        fresh := Suc a, cache := AList.update k a (cache m1)\<rparr>) })"

definition bm_get :: "('k, 'v) bmap \<Rightarrow> 'k \<Rightarrow> ('v option \<times> ('k, 'v) bmap) option" where
  "bm_get m k = (case map_of (cache m) k of
      None \<Rightarrow> Some (None, m)
    | Some a \<Rightarrow> do { m1 \<leftarrow> moveToHead a m; n \<leftarrow> heap m1 a; Some (Some (nval n), m1) })"

definition bm_has :: "('k, 'v) bmap \<Rightarrow> 'k \<Rightarrow> bool" where
  "bm_has m k = (map_of (cache m) k \<noteq> None)"

definition bm_delete :: "('k, 'v) bmap \<Rightarrow> 'k \<Rightarrow> (bool \<times> ('k, 'v) bmap) option" where
  "bm_delete m k = (case map_of (cache m) k of
      None \<Rightarrow> Some (False, m)
    | Some a \<Rightarrow> do { m1 \<leftarrow> removeNode a m;
        Some (map_of (cache m1) k \<noteq> None, m1\<lparr>cache := AList.delete k (cache m1)\<rparr>) })"

definition bm_size :: "('k, 'v) bmap \<Rightarrow> nat" where
  "bm_size m = length (cache m)"

definition bm_clear :: "('k, 'v) bmap \<Rightarrow> ('k, 'v) bmap" where
  "bm_clear m = m\<lparr>cache := [], head := None, tail := None\<rparr>"

text \<open>The iterators snapshot the keys in insertion order.\<close>

definition bm_entries :: "('k, 'v) bmap \<Rightarrow> ('k \<times> 'v) list option" where
  "bm_entries m = those (map (\<lambda>(k, a). map_option (\<lambda>n. (k, nval n)) (heap m a)) (cache m))"

definition bm_values :: "('k, 'v) bmap \<Rightarrow> 'v list option" where
  "bm_values m = map_option (map snd) (bm_entries m)"

definition bm_keys :: "('k, 'v) bmap \<Rightarrow> 'k list" where
  "bm_keys m = map fst (cache m)"

section \<open>Specification: the entries, most recently used first\<close>

definition lru_set :: "nat \<Rightarrow> 'k \<Rightarrow> 'v \<Rightarrow> ('k \<times> 'v) list \<Rightarrow> ('k \<times> 'v) list" where
  "lru_set cap k v xs =
     (if k \<in> fst ` set xs then (k, v) # AList.delete k xs
      else (k, v) # (if cap \<le> length xs then butlast xs else xs))"

definition lru_touch :: "'k \<Rightarrow> ('k \<times> 'v) list \<Rightarrow> ('k \<times> 'v) list" where
  "lru_touch k xs = (case map_of xs k of None \<Rightarrow> xs | Some v \<Rightarrow> (k, v) # AList.delete k xs)"

section \<open>The doubly linked list\<close>

type_synonym ('k, 'v) cells = "(nat \<times> 'k \<times> 'v) list"

definition first_addr :: "('k, 'v) cells \<Rightarrow> nat option \<Rightarrow> nat option" where
  "first_addr ns d = (case ns of [] \<Rightarrow> d | (a, _) # _ \<Rightarrow> Some a)"

definition last_addr :: "('k, 'v) cells \<Rightarrow> nat option \<Rightarrow> nat option" where
  "last_addr ns d = (if ns = [] then d else Some (fst (last ns)))"

fun dll :: "(nat \<rightharpoonup> ('k, 'v) node) \<Rightarrow> nat option \<Rightarrow> ('k, 'v) cells \<Rightarrow> nat option \<Rightarrow> bool" where
  "dll h p [] q \<longleftrightarrow> True"
| "dll h p ((a, k, v) # ns) q \<longleftrightarrow>
     h a = Some \<lparr>nkey = k, nval = v, nprev = p, nnext = first_addr ns q\<rparr> \<and> dll h (Some a) ns q"

lemma first_addr_simps [simp]:
  "first_addr [] d = d" "first_addr ((a, kv) # ns) d = Some a"
  "first_addr (xs @ ys) d = first_addr xs (first_addr ys d)"
  by (simp_all add: first_addr_def split: list.splits prod.splits)

lemma last_addr_simps [simp]:
  "last_addr [] d = d" "last_addr (xs @ [(a, kv)]) d = Some a"
  "last_addr ((a, kv) # ns) d = last_addr ns (Some a)"
  "last_addr (xs @ ys) d = last_addr ys (last_addr xs d)"
  by (simp_all add: last_addr_def)

lemma dll_append: "dll h p (xs @ ys) q \<longleftrightarrow> dll h p xs (first_addr ys q) \<and> dll h (last_addr xs p) ys q"
  by (induction xs arbitrary: p) auto

lemma dll_frame: "a \<notin> fst ` set ns \<Longrightarrow> dll (h(a \<mapsto> n)) p ns q = dll h p ns q"
  by (induction ns arbitrary: p) auto

lemma dll_heap: "dll h p ns q \<Longrightarrow> (a, k, v) \<in> set ns \<Longrightarrow> \<exists>n. h a = Some n \<and> nkey n = k \<and> nval n = v"
  by (induction ns arbitrary: p) auto

lemma dll_relink_next:
  assumes "dll h p (xs @ [(b, k, v)]) q" and "b \<notin> fst ` set xs" and "h b = Some n"
  shows "dll (h(b \<mapsto> n\<lparr>nnext := q'\<rparr>)) p (xs @ [(b, k, v)]) q'"
  using assms by (auto simp: dll_append dll_frame)

lemma dll_relink_prev:
  assumes "dll h p ((b, k, v) # ys) q" and "b \<notin> fst ` set ys" and "h b = Some n"
  shows "dll (h(b \<mapsto> n\<lparr>nprev := p'\<rparr>)) p' ((b, k, v) # ys) q"
  using assms by (auto simp: dll_frame)

definition dlist :: "('k, 'v) bmap \<Rightarrow> ('k, 'v) cells \<Rightarrow> bool" where
  "dlist m ns \<longleftrightarrow> dll (heap m) None ns None \<and> distinct (map fst ns)
     \<and> head m = first_addr ns None \<and> tail m = last_addr ns None"


text \<open>Unlinking a node and pushing a node at the front, on the four shapes of its surroundings.\<close>

lemma removeNode_dlist:
  assumes "dlist m (xs @ (a, k, v) # ys)"
  shows "\<exists>m'. removeNode a m = Some m' \<and> dlist m' (xs @ ys)
    \<and> cache m' = cache m \<and> maxCapacity m' = maxCapacity m \<and> fresh m' = fresh m
    \<and> (\<exists>n. heap m' a = Some n \<and> nkey n = k \<and> nval n = v)"
proof -
  have D: "dll (heap m) None (xs @ (a, k, v) # ys) None" "distinct (map fst (xs @ (a, k, v) # ys))"
    "head m = first_addr (xs @ (a, k, v) # ys) None" "tail m = last_addr (xs @ (a, k, v) # ys) None"
    using assms by (auto simp: dlist_def)
  then have ha: "heap m a = Some \<lparr>nkey = k, nval = v, nprev = last_addr xs None, nnext = first_addr ys None\<rparr>"
    by (simp add: dll_append)
  show ?thesis
  proof (cases xs rule: rev_cases)
    case Nil
    then show ?thesis using D ha
      by (cases ys) (auto simp: removeNode_def modify_node_def dlist_def dll_frame split: option.splits)
  next
    case (snoc xs' b)
    obtain b kb vb where b: "xs = xs' @ [(b, kb, vb)]" using snoc by (cases b) auto
    show ?thesis
    proof (cases ys)
      case Nil
      then show ?thesis using D ha b
        by (auto simp: removeNode_def modify_node_def dlist_def dll_append dll_frame split: option.splits)
    next
      case (Cons c ys')
      obtain c kc vc where c: "ys = (c, kc, vc) # ys'" using Cons by (cases c) auto
      show ?thesis using D ha b c
        by (auto simp: removeNode_def modify_node_def dlist_def dll_append dll_frame split: option.splits)
    qed
  qed
qed

lemma addToHead_dlist:
  assumes "dlist m ns" and "a \<notin> fst ` set ns" and "heap m a = Some n"
  shows "\<exists>m'. addToHead a m = Some m' \<and> dlist m' ((a, nkey n, nval n) # ns)
    \<and> cache m' = cache m \<and> maxCapacity m' = maxCapacity m \<and> fresh m' = fresh m"
proof (cases ns)
  case Nil
  with assms show ?thesis
    by (auto simp: addToHead_def modify_node_def dlist_def)
next
  case (Cons c ys)
  obtain c kc vc where "ns = (c, kc, vc) # ys" using Cons by (cases c) auto
  with assms show ?thesis
    by (auto simp: addToHead_def modify_node_def dlist_def dll_frame last_addr_def split: option.splits)
qed

section \<open>Representation and refinement\<close>

text \<open>The index holds exactly the keys of the list, each pointing at its node.\<close>

definition lru_rep :: "('k, 'v) bmap \<Rightarrow> ('k, 'v) cells \<Rightarrow> bool" where
  "lru_rep m ns \<longleftrightarrow> dlist m ns \<and> distinct (map (fst \<circ> snd) ns) \<and> distinct (map fst (cache m))
     \<and> set (cache m) = (\<lambda>(a, k, v). (k, a)) ` set ns \<and> (\<forall>a \<in> fst ` set ns. a < fresh m)"

definition represents :: "('k, 'v) bmap \<Rightarrow> ('k \<times> 'v) list \<Rightarrow> bool" where
  "represents m xs \<longleftrightarrow> (\<exists>ns. lru_rep m ns \<and> xs = map snd ns)"

lemma represents_new: "represents (new_bmap cap) []"
  by (simp add: represents_def lru_rep_def dlist_def new_bmap_def)

lemma lru_rep_lookup:
  assumes "lru_rep m ns"
  shows "map_of (cache m) k = Some a \<longleftrightarrow> (\<exists>v. (a, k, v) \<in> set ns)"
  using assms by (force simp: lru_rep_def map_of_eq_Some_iff image_iff)

lemma lru_rep_lookup_None:
  assumes "lru_rep m ns"
  shows "map_of (cache m) k = None \<longleftrightarrow> k \<notin> fst ` snd ` set ns"
proof -
  have "map_of (cache m) k = None \<longleftrightarrow> (\<forall>a. map_of (cache m) k \<noteq> Some a)" by simp
  also have "\<dots> \<longleftrightarrow> (\<forall>a v. (a, k, v) \<notin> set ns)" by (simp add: lru_rep_lookup [OF assms])
  finally show ?thesis by (auto simp: image_iff)
qed

lemma lru_rep_length:
  assumes "lru_rep m ns"
  shows "length (cache m) = length ns"
proof -
  have "set (map fst (cache m)) = set (map (fst \<circ> snd) ns)"
    using assms by (simp add: lru_rep_def image_image case_prod_beta)
  moreover have "distinct (map fst (cache m))" and "distinct (map (fst \<circ> snd) ns)"
    using assms by (auto simp: lru_rep_def)
  ultimately show ?thesis by (metis distinct_card length_map)
qed

lemma delete_split:
  assumes "distinct (map (fst \<circ> snd) (xs @ (a, k, v) # ys))"
  shows "AList.delete k (map snd (xs @ (a, k, v') # ys)) = map snd (xs @ ys)"
proof -
  have "k \<notin> fst ` set (map snd xs)" and "k \<notin> fst ` set (map snd ys)" using assms by force+
  then have "AList.delete k (map snd xs) = map snd xs" and "AList.delete k (map snd ys) = map snd ys"
    by (simp_all only: delete_absent not_False_eq_True)
  then show ?thesis by (simp add: AList.delete_eq)
qed

lemma index_delete:
  assumes "set c = (\<lambda>(a, k, v). (k, a)) ` set (xs @ (a, k, v) # ys)"
    and "distinct (map (fst \<circ> snd) (xs @ (a, k, v) # ys))"
  shows "set (AList.delete k c) = (\<lambda>(a, k, v). (k, a)) ` set (xs @ ys)"
proof -
  have "\<forall>a' k' v'. (a', k', v') \<in> set xs \<union> set ys \<longrightarrow> k' \<noteq> k"
    using assms(2) by force
  then show ?thesis
    using assms(1) by (auto simp: set_delete intro: rev_image_eqI) blast+
qed

lemma moveToHead_rep:
  assumes "lru_rep m (xs @ (a, k, v) # ys)"
  shows "\<exists>m'. moveToHead a m = Some m' \<and> lru_rep m' ((a, k, v) # xs @ ys)
    \<and> (\<exists>n. heap m' a = Some n \<and> nval n = v) \<and> maxCapacity m' = maxCapacity m"
proof -
  have dl: "dlist m (xs @ (a, k, v) # ys)" using assms by (simp add: lru_rep_def)
  obtain m1 n where m1: "removeNode a m = Some m1" "dlist m1 (xs @ ys)" "cache m1 = cache m"
      "maxCapacity m1 = maxCapacity m" "fresh m1 = fresh m"
      and n: "heap m1 a = Some n" "nkey n = k" "nval n = v"
    using removeNode_dlist [OF dl] by blast
  have "a \<notin> fst ` set (xs @ ys)" using dl by (auto simp: dlist_def)
  then obtain m2 where m2: "addToHead a m1 = Some m2" "dlist m2 ((a, k, v) # xs @ ys)"
      "cache m2 = cache m" "maxCapacity m2 = maxCapacity m" "fresh m2 = fresh m"
    using addToHead_dlist [OF m1(2) _ n(1)] n m1 by auto
  have "heap m2 a = Some \<lparr>nkey = k, nval = v, nprev = None, nnext = first_addr (xs @ ys) None\<rparr>"
    using m2(2) by (simp add: dlist_def)
  moreover have "lru_rep m2 ((a, k, v) # xs @ ys)"
    using assms m2 by (auto simp: lru_rep_def)
  ultimately show ?thesis using m1 m2 by (auto simp: moveToHead_def)
qed

lemma update_value_rep:
  assumes "lru_rep m (xs @ (a, k, v0) # ys)"
  shows "\<exists>m'. modify_node a (\<lambda>n. n\<lparr>nval := v\<rparr>) m = Some m' \<and> lru_rep m' (xs @ (a, k, v) # ys)
    \<and> maxCapacity m' = maxCapacity m"
proof -
  have h: "heap m a = Some \<lparr>nkey = k, nval = v0, nprev = last_addr xs None, nnext = first_addr ys None\<rparr>"
    using assms by (simp add: lru_rep_def dlist_def dll_append)
  then show ?thesis
    using assms by (auto simp: modify_node_def lru_rep_def dlist_def dll_append dll_frame)
qed

lemma evict_rep:
  assumes "lru_rep m ns"
  shows "\<exists>m'. evict m = Some m' \<and> lru_rep m' (butlast ns) \<and> maxCapacity m' = maxCapacity m
    \<and> fresh m' = fresh m"
proof (cases ns rule: rev_cases)
  case Nil
  then show ?thesis using assms by (auto simp: evict_def lru_rep_def dlist_def)
next
  case (snoc ms b)
  obtain a k v where ns: "ns = ms @ [(a, k, v)]" using snoc by (cases b) auto
  let ?m = "m\<lparr>cache := AList.delete k (cache m)\<rparr>"
  have h: "heap m a = Some \<lparr>nkey = k, nval = v, nprev = last_addr ms None, nnext = None\<rparr>"
    and tl: "tail m = Some a" and dl: "dlist ?m (ms @ (a, k, v) # [])"
    using assms ns by (auto simp: lru_rep_def dlist_def dll_append)
  obtain m' where m': "removeNode a ?m = Some m'" "dlist m' ms" "cache m' = cache ?m"
      "maxCapacity m' = maxCapacity m" "fresh m' = fresh m"
    using removeNode_dlist [OF dl] by auto
  have "set (AList.delete k (cache m)) = (\<lambda>(a, k, v). (k, a)) ` set ms"
    using index_delete [of "cache m" ms a k v "[]"] assms ns by (simp add: lru_rep_def)
  then have "lru_rep m' ms"
    using assms ns m' by (auto simp: lru_rep_def distinct_delete)
  then show ?thesis using m' h tl ns by (auto simp: evict_def)
qed

lemma insert_rep:
  assumes "lru_rep m ns" and "k \<notin> fst ` snd ` set ns"
  shows "\<exists>m'. addToHead (fresh m) (m\<lparr>heap := (heap m)(fresh m \<mapsto>
        \<lparr>nkey = k, nval = v, nprev = None, nnext = None\<rparr>), fresh := Suc (fresh m),
        cache := AList.update k (fresh m) (cache m)\<rparr>) = Some m'
    \<and> lru_rep m' ((fresh m, k, v) # ns) \<and> maxCapacity m' = maxCapacity m"
proof -
  let ?m = "m\<lparr>heap := (heap m)(fresh m \<mapsto> \<lparr>nkey = k, nval = v, nprev = None, nnext = None\<rparr>),
     fresh := Suc (fresh m), cache := AList.update k (fresh m) (cache m)\<rparr>"
  have fr: "fresh m \<notin> fst ` set ns" using assms(1) by (auto simp: lru_rep_def)
  then have dl: "dlist ?m ns" using assms(1) by (simp add: lru_rep_def dlist_def dll_frame)
  have h: "heap ?m (fresh m) = Some \<lparr>nkey = k, nval = v, nprev = None, nnext = None\<rparr>" by simp
  from addToHead_dlist [OF dl fr h]
  obtain m' where m': "addToHead (fresh m) ?m = Some m'" "dlist m' ((fresh m, k, v) # ns)"
      "cache m' = AList.update k (fresh m) (cache m)" "maxCapacity m' = maxCapacity m"
      "fresh m' = Suc (fresh m)"
    by auto
  have kc: "k \<notin> fst ` set (cache m)"
    using lru_rep_lookup_None [OF assms(1), of k] assms(2) by (simp add: map_of_eq_None_iff)
  then have "set (cache m') = insert (k, fresh m) (set (cache m))"
    using m'(3) by (simp add: update_fresh)
  then have "lru_rep m' ((fresh m, k, v) # ns)"
    using assms m' by (auto simp: lru_rep_def distinct_update less_Suc_eq image_iff)
  then show ?thesis using m' by simp
qed


text \<open>Each operation simulates its specification. None of them raises.\<close>

theorem bm_set_refines:
  assumes "represents m xs"
  shows "\<exists>m'. bm_set m k v = Some m' \<and> represents m' (lru_set (maxCapacity m) k v xs)
    \<and> maxCapacity m' = maxCapacity m"
proof -
  obtain ns where rep: "lru_rep m ns" and xs: "xs = map snd ns"
    using assms by (auto simp: represents_def)
  show ?thesis
  proof (cases "map_of (cache m) k")
    case None
    then have k: "k \<notin> fst ` snd ` set ns" using lru_rep_lookup_None [OF rep] by simp
    then have kb: "k \<notin> fst ` snd ` set (butlast ns)" by (auto dest: in_set_butlastD)
    have len: "length (cache m) = length xs" using lru_rep_length [OF rep] xs by simp
    show ?thesis
    proof (cases "maxCapacity m \<le> length (cache m)")
      case True
      obtain m1 where m1: "evict m = Some m1" "lru_rep m1 (butlast ns)" "maxCapacity m1 = maxCapacity m"
        using evict_rep [OF rep] by blast
      obtain m2 where "addToHead (fresh m1) (m1\<lparr>heap := (heap m1)(fresh m1 \<mapsto>
            \<lparr>nkey = k, nval = v, nprev = None, nnext = None\<rparr>), fresh := Suc (fresh m1),
            cache := AList.update k (fresh m1) (cache m1)\<rparr>) = Some m2"
          "lru_rep m2 ((fresh m1, k, v) # butlast ns)" "maxCapacity m2 = maxCapacity m"
        using insert_rep [OF m1(2) kb, of v] m1(3) by auto
      moreover have "lru_set (maxCapacity m) k v xs = map snd ((fresh m1, k, v) # butlast ns)"
        using True len k xs by (simp add: lru_set_def map_butlast image_image)
      ultimately show ?thesis
        using True None m1(1) unfolding represents_def by (auto simp: bm_set_def Let_def)
    next
      case False
      obtain m2 where "addToHead (fresh m) (m\<lparr>heap := (heap m)(fresh m \<mapsto>
            \<lparr>nkey = k, nval = v, nprev = None, nnext = None\<rparr>), fresh := Suc (fresh m),
            cache := AList.update k (fresh m) (cache m)\<rparr>) = Some m2"
          "lru_rep m2 ((fresh m, k, v) # ns)" "maxCapacity m2 = maxCapacity m"
        using insert_rep [OF rep k, of v] by auto
      moreover have "lru_set (maxCapacity m) k v xs = map snd ((fresh m, k, v) # ns)"
        using False len k xs by (simp add: lru_set_def image_image)
      ultimately show ?thesis
        using False None unfolding represents_def by (auto simp: bm_set_def Let_def)
    qed
  next
    case (Some a)
    then obtain v0 where "(a, k, v0) \<in> set ns" using lru_rep_lookup [OF rep] by blast
    then obtain ys zs where ns: "ns = ys @ (a, k, v0) # zs" by (meson split_list)
    obtain m1 where m1: "modify_node a (\<lambda>n. n\<lparr>nval := v\<rparr>) m = Some m1"
        "lru_rep m1 (ys @ (a, k, v) # zs)" "maxCapacity m1 = maxCapacity m"
      using update_value_rep [of m ys a k v0 zs v] rep ns by auto
    obtain m2 where m2: "moveToHead a m1 = Some m2" "lru_rep m2 ((a, k, v) # ys @ zs)"
        "maxCapacity m2 = maxCapacity m"
      using moveToHead_rep [OF m1(2)] m1(3) by auto
    have "lru_set (maxCapacity m) k v xs = map snd ((a, k, v) # ys @ zs)"
      using delete_split [of ys a k v0 zs v0] rep ns xs by (simp add: lru_set_def lru_rep_def)
    then show ?thesis using Some m1 m2 by (auto simp: bm_set_def represents_def)
  qed
qed

theorem bm_get_refines:
  assumes "represents m xs"
  shows "\<exists>m'. bm_get m k = Some (map_of xs k, m') \<and> represents m' (lru_touch k xs)
    \<and> maxCapacity m' = maxCapacity m"
proof -
  obtain ns where rep: "lru_rep m ns" and xs: "xs = map snd ns"
    using assms by (auto simp: represents_def)
  show ?thesis
  proof (cases "map_of (cache m) k")
    case None
    then have "map_of xs k = None"
      using lru_rep_lookup_None [OF rep] xs by (simp add: map_of_eq_None_iff image_image)
    then show ?thesis using None assms by (simp add: bm_get_def lru_touch_def)
  next
    case (Some a)
    then obtain v where v: "(a, k, v) \<in> set ns" using lru_rep_lookup [OF rep] by blast
    then obtain ys zs where ns: "ns = ys @ (a, k, v) # zs" by (meson split_list)
    obtain m1 n where m1: "moveToHead a m = Some m1" "lru_rep m1 ((a, k, v) # ys @ zs)"
        "maxCapacity m1 = maxCapacity m" and n: "heap m1 a = Some n" "nval n = v"
      using moveToHead_rep [of m ys a k v zs] rep ns by auto
    have mo: "map_of xs k = Some v"
    proof -
      have "distinct (map fst xs)" using rep xs by (simp add: lru_rep_def)
      moreover have "(k, v) \<in> set xs" using v xs by force
      ultimately show ?thesis by simp
    qed
    moreover have "lru_touch k xs = map snd ((a, k, v) # ys @ zs)"
      using mo delete_split [of ys a k v zs v] rep ns xs by (simp add: lru_touch_def lru_rep_def)
    ultimately show ?thesis using Some m1 n by (auto simp: bm_get_def represents_def)
  qed
qed

theorem bm_delete_refines:
  assumes "represents m xs"
  shows "\<exists>m'. bm_delete m k = Some (k \<in> fst ` set xs, m') \<and> represents m' (AList.delete k xs)
    \<and> maxCapacity m' = maxCapacity m"
proof -
  obtain ns where rep: "lru_rep m ns" and xs: "xs = map snd ns"
    using assms by (auto simp: represents_def)
  show ?thesis
  proof (cases "map_of (cache m) k")
    case None
    then have "k \<notin> fst ` set xs"
      using lru_rep_lookup_None [OF rep] xs by (simp add: image_image)
    then show ?thesis using None assms by (simp add: bm_delete_def delete_absent)
  next
    case (Some a)
    then obtain v where v: "(a, k, v) \<in> set ns" using lru_rep_lookup [OF rep] by blast
    then obtain ys zs where ns: "ns = ys @ (a, k, v) # zs" by (meson split_list)
    have dl: "dlist m (ys @ (a, k, v) # zs)" using rep ns by (simp add: lru_rep_def)
    obtain m1 where m1: "removeNode a m = Some m1" "dlist m1 (ys @ zs)" "cache m1 = cache m"
        "maxCapacity m1 = maxCapacity m" "fresh m1 = fresh m"
      using removeNode_dlist [OF dl] by blast
    let ?m = "m1\<lparr>cache := AList.delete k (cache m1)\<rparr>"
    have "set (AList.delete k (cache m)) = (\<lambda>(a, k, v). (k, a)) ` set (ys @ zs)"
      using index_delete [of "cache m" ys a k v zs] rep ns by (simp add: lru_rep_def)
    then have "lru_rep ?m (ys @ zs)"
      using rep ns m1 by (simp add: lru_rep_def distinct_delete dlist_def)
    moreover have "AList.delete k xs = map snd (ys @ zs)"
      using delete_split [of ys a k v zs v] rep ns xs by (simp add: lru_rep_def)
    moreover have "k \<in> fst ` set xs" using v xs by force
    ultimately show ?thesis using Some m1 by (auto simp: bm_delete_def represents_def)
  qed
qed

lemma bm_clear_refines: "represents (bm_clear m) []"
  by (simp add: represents_def lru_rep_def dlist_def bm_clear_def)

lemma bm_size_refines: "represents m xs \<Longrightarrow> bm_size m = length xs"
  by (auto simp: represents_def bm_size_def lru_rep_length)

lemma bm_has_refines: "represents m xs \<Longrightarrow> bm_has m k \<longleftrightarrow> k \<in> fst ` set xs"
  unfolding represents_def bm_has_def by (metis lru_rep_lookup_None image_image list.set_map)


section \<open>Sequences of operations\<close>

datatype ('k, 'v) bop = OpSet 'k 'v | OpGet 'k | OpDelete 'k | OpClear

definition bm_step :: "('k, 'v) bmap \<Rightarrow> ('k, 'v) bop \<Rightarrow> ('k, 'v) bmap option" where
  "bm_step m op = (case op of
      OpSet k v \<Rightarrow> bm_set m k v
    | OpGet k \<Rightarrow> map_option snd (bm_get m k)
    | OpDelete k \<Rightarrow> map_option snd (bm_delete m k)
    | OpClear \<Rightarrow> Some (bm_clear m))"

fun bm_run :: "('k, 'v) bmap \<Rightarrow> ('k, 'v) bop list \<Rightarrow> ('k, 'v) bmap option" where
  "bm_run m [] = Some m"
| "bm_run m (op # ops) = (case bm_step m op of None \<Rightarrow> None | Some m' \<Rightarrow> bm_run m' ops)"

definition lru_step :: "nat \<Rightarrow> ('k, 'v) bop \<Rightarrow> ('k \<times> 'v) list \<Rightarrow> ('k \<times> 'v) list" where
  "lru_step cap op xs = (case op of
      OpSet k v \<Rightarrow> lru_set cap k v xs
    | OpGet k \<Rightarrow> lru_touch k xs
    | OpDelete k \<Rightarrow> AList.delete k xs
    | OpClear \<Rightarrow> [])"

text \<open>The contract of a store that implements the specification step by step.\<close>

locale lru_store =
  fixes rep :: "'m \<Rightarrow> ('k \<times> 'v) list \<Rightarrow> bool"
    and cap :: "'m \<Rightarrow> nat"
    and step :: "'m \<Rightarrow> ('k, 'v) bop \<Rightarrow> 'm option"
    and run :: "'m \<Rightarrow> ('k, 'v) bop list \<Rightarrow> 'm option"
  assumes step_refines: "rep m xs \<Longrightarrow>
      \<exists>m'. step m op = Some m' \<and> rep m' (lru_step (cap m) op xs) \<and> cap m' = cap m"
    and run_Nil: "run m [] = Some m"
    and run_Cons: "run m (op # ops) = (case step m op of None \<Rightarrow> None | Some m' \<Rightarrow> run m' ops)"
begin

lemma run_refines:
  "rep m xs \<Longrightarrow> \<exists>m'. run m ops = Some m' \<and> rep m' (fold (lru_step (cap m)) ops xs) \<and> cap m' = cap m"
proof (induction ops arbitrary: m xs)
  case Nil
  then show ?case by (auto simp: run_Nil)
next
  case (Cons op ops)
  obtain m1 where m1: "step m op = Some m1" "rep m1 (lru_step (cap m) op xs)" "cap m1 = cap m"
    using step_refines [OF Cons.prems] by blast
  from Cons.IH [OF m1(2)] m1 show ?case by (simp add: run_Cons)
qed

end

lemma bm_step_refines:
  "represents m xs \<Longrightarrow> \<exists>m'. bm_step m op = Some m' \<and> represents m' (lru_step (maxCapacity m) op xs)
     \<and> maxCapacity m' = maxCapacity m"
  using bm_set_refines [of m xs] bm_get_refines [of m xs] bm_delete_refines [of m xs] bm_clear_refines [of m]
  by (cases op) (fastforce simp: bm_step_def lru_step_def bm_clear_def)+

interpretation bm: lru_store represents maxCapacity bm_step bm_run
  by unfold_locales (auto simp: bm_step_refines)

subsection \<open>Capacity\<close>

lemma length_lru_step:
  assumes "length xs \<le> max 1 cap" shows "length (lru_step cap op xs) \<le> max 1 cap"
proof (cases op)
  case (OpSet k v)
  have "length (AList.delete k xs) < length xs" if "k \<in> fst ` set xs"
    using that by (auto simp: AList.delete_eq intro!: length_filter_less)
  with assms OpSet show ?thesis
    by (cases "k \<in> fst ` set xs") (auto simp: lru_step_def lru_set_def simp del: One_nat_def)
next
  case (OpGet k)
  have "length (AList.delete k xs) < length xs" if "map_of xs k = Some v" for v
    using map_of_SomeD [OF that] by (auto simp: AList.delete_eq intro!: length_filter_less)
  with assms OpGet show ?thesis by (fastforce simp: lru_step_def lru_touch_def split: option.splits)
next
  case (OpDelete k)
  with assms show ?thesis
    by (simp add: lru_step_def AList.delete_eq) (meson le_trans length_filter_le)
qed (simp add: lru_step_def)

lemma length_lru_run: "length xs \<le> max 1 cap \<Longrightarrow> length (fold (lru_step cap) ops xs) \<le> max 1 cap"
  by (induction ops arbitrary: xs) (simp_all add: length_lru_step del: One_nat_def max.bounded_iff)

subsection \<open>Retention\<close>

fun touched :: "('k, 'v) bop \<Rightarrow> 'k set" where
  "touched (OpSet k v) = {k}" | "touched (OpGet k) = {k}" | "touched (OpDelete k) = {k}"
| "touched OpClear = {}"

definition recent :: "'k \<Rightarrow> 'k set \<Rightarrow> ('k \<times> 'v) list \<Rightarrow> bool" where
  "recent k T xs \<longleftrightarrow> (\<exists>ys v zs. xs = ys @ (k, v) # zs \<and> fst ` set ys \<subseteq> T \<and> k \<notin> T
     \<and> distinct (map fst xs))"


lemma recentI:
  "xs = ys @ (k, v) # zs \<Longrightarrow> fst ` set ys \<subseteq> T \<Longrightarrow> k \<notin> T \<Longrightarrow> distinct (map fst xs) \<Longrightarrow> recent k T xs"
  unfolding recent_def by blast

lemma delete_append: "AList.delete k (xs @ ys) = AList.delete k xs @ AList.delete k ys"
  by (simp add: AList.delete_eq)

lemma keys_delete: "fst ` set (AList.delete k xs) \<subseteq> fst ` set xs - {k}"
  by (auto simp: set_delete)

lemma recent_to_front:
  assumes "recent k T xs" and "k' \<noteq> k"
  shows "recent k (insert k' T) ((k', v') # AList.delete k' xs)"
proof -
  obtain ys v zs where x: "xs = ys @ (k, v) # zs" "fst ` set ys \<subseteq> T" "k \<notin> T" "distinct (map fst xs)"
    using assms(1) by (auto simp: recent_def)
  have "(k', v') # AList.delete k' xs
      = ((k', v') # AList.delete k' ys) @ (k, v) # AList.delete k' zs"
    using x(1) assms(2) by (simp add: delete_append)
  moreover have "fst ` set ((k', v') # AList.delete k' ys) \<subseteq> insert k' T"
    using x(2) keys_delete [of k' ys] by simp blast
  moreover have "distinct (map fst ((k', v') # AList.delete k' xs))"
    using distinct_delete [OF x(4)] keys_delete [of k' xs] by simp blast
  moreover have "k \<notin> insert k' T" using x(3) assms(2) by simp
  ultimately show ?thesis by (metis recentI)
qed

lemma recent_refresh:
  assumes "recent k T xs"
  shows "recent k T ((k, v') # AList.delete k xs)"
proof -
  have "distinct (map fst xs)" and "k \<notin> T" using assms by (auto simp: recent_def)
  then have "distinct (map fst ((k, v') # AList.delete k xs))"
    using distinct_delete [of xs k] keys_delete [of k xs] by simp blast
  with \<open>k \<notin> T\<close> show ?thesis
    unfolding recent_def by (intro exI [of _ "[]"]) simp
qed

lemma recent_insert:
  assumes "recent k T xs" and "k' \<noteq> k" and "k' \<notin> fst ` set xs" and "finite T"
    and "card (insert k' T) < cap"
  shows "recent k (insert k' T) ((k', v') # (if cap \<le> length xs then butlast xs else xs))"
proof -
  obtain ys v zs where x: "xs = ys @ (k, v) # zs" "fst ` set ys \<subseteq> T" "k \<notin> T" "distinct (map fst xs)"
    using assms(1) by (auto simp: recent_def)
  have "length (k' # map fst ys) = card (set (k' # map fst ys))"
    using x(1,4) assms(3) by (metis distinct.simps(2) distinct_append distinct_card list.set_map
        map_append image_Un set_append UnI1)
  also have "\<dots> \<le> card (insert k' T)"
    using x(2) assms(4) by (intro card_mono) auto
  finally have len: "Suc (length ys) < cap" using assms(5) by simp
  let ?r = "if cap \<le> length xs then butlast zs else zs"
  have r: "(if cap \<le> length xs then butlast xs else xs) = ys @ (k, v) # ?r"
    using x(1) len by (cases zs rule: rev_cases) (auto simp: butlast_append)
  have "distinct (map fst (ys @ (k, v) # ?r))"
    using x(4) unfolding r [symmetric] by (simp add: map_butlast distinct_butlast)
  moreover have "k' \<notin> fst ` set (ys @ (k, v) # ?r)"
    using assms(3) unfolding r [symmetric] by (auto dest!: in_set_butlastD split: if_splits)
  moreover have "fst ` set ((k', v') # ys) \<subseteq> insert k' T" using x(2) by simp blast
  moreover have "k \<notin> insert k' T" using x(3) assms(2) by simp
  ultimately show ?thesis
    unfolding r by (intro recentI [of _ "(k', v') # ys" k v ?r]) (simp_all add: image_Un)
qed

lemma recent_mono: "recent k T xs \<Longrightarrow> k' \<noteq> k \<Longrightarrow> recent k (insert k' T) xs"
  unfolding recent_def by (metis insert_iff subset_insertI2)

lemma recent_step:
  assumes "recent k T xs" and "finite T" and "op \<noteq> OpDelete k" and "op \<noteq> OpClear"
    and "card (T \<union> (touched op - {k})) < cap"
  shows "recent k (T \<union> (touched op - {k})) (lru_step cap op xs)"
proof (cases op)
  case (OpSet k' v')
  show ?thesis
  proof (cases "k' = k")
    case True
    moreover have "k \<in> fst ` set xs" using assms(1) by (auto simp: recent_def)
    ultimately show ?thesis
      using OpSet assms(1) by (simp add: lru_step_def lru_set_def recent_refresh)
  next
    case False
    then show ?thesis
      using OpSet assms recent_to_front [OF assms(1), of k' v'] recent_insert [OF assms(1), of k' cap v']
      by (simp add: lru_step_def lru_set_def)
  qed
next
  case (OpGet k')
  then show ?thesis
    using assms recent_to_front [OF assms(1), of k'] recent_refresh [OF assms(1)] recent_mono [OF assms(1), of k']
    by (cases "k' = k") (auto simp: lru_step_def lru_touch_def split: option.splits)
next
  case (OpDelete k')
  then have k': "k' \<noteq> k" using assms(3) by auto
  obtain ys v zs where x: "xs = ys @ (k, v) # zs" "fst ` set ys \<subseteq> T" "k \<notin> T" "distinct (map fst xs)"
    using assms(1) by (auto simp: recent_def)
  have "AList.delete k' xs = AList.delete k' ys @ (k, v) # AList.delete k' zs"
    using x(1) k' by (simp add: delete_append)
  moreover have "fst ` set (AList.delete k' ys) \<subseteq> T" using x(2) keys_delete [of k' ys] by blast
  ultimately have "recent k T (AList.delete k' xs)"
    unfolding recent_def using x(3) distinct_delete [OF x(4)] by blast
  then show ?thesis using OpDelete k' by (simp add: lru_step_def recent_mono)
qed (use assms in simp)

lemma recent_run:
  assumes "recent k T xs" and "finite T" and "OpDelete k \<notin> set ops" and "OpClear \<notin> set ops"
    and "card (T \<union> (\<Union> (touched ` set ops) - {k})) < cap"
  shows "\<exists>T'. recent k T' (fold (lru_step cap) ops xs)"
  using assms
proof (induction ops arbitrary: xs T)
  case (Cons op ops)
  let ?T = "T \<union> (touched op - {k})"
  have fin: "finite (touched op)" for op :: "('a, 'b) bop" by (cases op) auto
  have "card ?T \<le> card (T \<union> (\<Union> (touched ` set (op # ops)) - {k}))"
    using Cons.prems(2) fin by (intro card_mono) auto
  with Cons.prems have "recent k ?T (lru_step cap op xs)" by (intro recent_step) auto
  moreover have "?T \<union> (\<Union> (touched ` set ops) - {k}) = T \<union> (\<Union> (touched ` set (op # ops)) - {k})"
    by auto
  ultimately show ?case using Cons.IH [of ?T "lru_step cap op xs"] Cons.prems fin by simp
qed auto


lemma represents_distinct: "represents m xs \<Longrightarrow> distinct (map fst xs)"
  by (auto simp: represents_def lru_rep_def)

lemma recent_after_set:
  assumes "distinct (map fst xs)" shows "recent k {} (lru_step cap (OpSet k v) xs)"
proof -
  have "k \<notin> fst ` set (butlast xs)" if "k \<notin> fst ` set xs" using that by (auto dest: in_set_butlastD)
  then have "distinct (map fst (lru_set cap k v xs))"
    using assms distinct_delete [OF assms, of k] keys_delete [of k xs]
    by (auto simp: lru_set_def map_butlast distinct_butlast)
  moreover obtain r where "lru_set cap k v xs = [] @ (k, v) # r"
    by (cases "k \<in> fst ` set xs") (simp_all add: lru_set_def)
  ultimately show ?thesis by (simp add: lru_step_def recentI [of _ "[]" k v r])
qed

section \<open>Properties\<close>

text \<open>C35: Every sequence of \<open>set\<close>, \<open>get\<close>, \<open>delete\<close> and \<open>clear\<close> calls on a new \<open>BoundedMap\<close> runs
  without a dangling node reference, leaves the linked list and the index in the state of the
  abstract least-recently-used list, and keeps at most \<open>maxCapacity\<close> entries (one entry when the
  capacity is zero, because the eviction happens before the insertion).\<close>
theorem bounded_map_refines_lru:
  "\<exists>m. bm_run (new_bmap cap) ops = Some m \<and> represents m (fold (lru_step cap) ops [])
     \<and> bm_size m \<le> max 1 cap"
proof -
  obtain m where "bm_run (new_bmap cap) ops = Some m" "represents m (fold (lru_step cap) ops [])"
    using bm.run_refines [OF represents_new, of cap ops] by (auto simp: new_bmap_def)
  moreover have "length (fold (lru_step cap) ops []) \<le> max 1 cap"
    by (rule length_lru_run) simp
  ultimately show ?thesis using bm_size_refines by metis
qed

text \<open>An entry written by \<open>set\<close> is still present after any further operations that neither
  delete it nor clear the map, as long as they use fewer than \<open>maxCapacity\<close> other keys.\<close>
lemma bounded_map_retains_recent:
  assumes "OpDelete k \<notin> set after" and "OpClear \<notin> set after"
    and "card (\<Union> (touched ` set after) - {k}) < cap"
  shows "\<exists>m. bm_run (new_bmap cap) (before @ OpSet k v # after) = Some m \<and> bm_has m k"
proof -
  let ?xs = "fold (lru_step cap) before []"
  obtain m where m: "bm_run (new_bmap cap) (before @ OpSet k v # after) = Some m"
      "represents m (fold (lru_step cap) (before @ OpSet k v # after) [])"
    using bm.run_refines [OF represents_new, of cap "before @ OpSet k v # after"]
    by (auto simp: new_bmap_def)
  have "\<exists>m0. represents m0 ?xs"
    using bm.run_refines [OF represents_new, of cap before] by (auto simp: new_bmap_def)
  then have "distinct (map fst ?xs)" using represents_distinct by blast
  from recent_run [OF recent_after_set [OF this, of k cap v], of after cap] assms
  obtain T where "recent k T (fold (lru_step cap) (before @ OpSet k v # after) [])" by auto
  then have "k \<in> fst ` set (fold (lru_step cap) (before @ OpSet k v # after) [])"
    by (auto simp: recent_def)
  with m(1) show ?thesis using bm_has_refines [OF m(2), of k] by simp
qed

end
