(* ===== verification/Merkle_Tree.thy ===== *)
theory Merkle_Tree
  imports Prelude
begin

text \<open>
  \<open>MerkleTree\<close> of core/merkle.ts. The tree is kept as its levels, leaves first; a level with an
  odd number of nodes pairs its last node with itself. \<open>digest\<close> stands for the hex-encoded SHA-256
  of \<open>crypto.subtle\<close> and is an argument of every operation. The lemmas show that the proof of
  inclusion of every leaf verifies against the root, that the incremental \<open>addLeaf\<close> builds the
  same levels as building the tree from scratch, and, for a collision-free digest of fixed
  length, that a verified proof determines the leaf.
\<close>

section \<open>State and operations\<close>

record merkle =
  leaves :: "string list"
  levels :: "string list list"

definition hashPair :: "(string \<Rightarrow> string) \<Rightarrow> string \<Rightarrow> string \<Rightarrow> string" where
  "hashPair digest a b = digest (a @ b)"

text \<open>One round of the \<open>while\<close> loop of \<open>buildTree\<close>: the next level.\<close>

fun nextLevel :: "(string \<Rightarrow> string) \<Rightarrow> string list \<Rightarrow> string list" where
  "nextLevel digest [] = []"
| "nextLevel digest [x] = [hashPair digest x x]"
| "nextLevel digest (x # y # r) = hashPair digest x y # nextLevel digest r"

lemma length_nextLevel [simp]: "length (nextLevel digest xs) = (length xs + 1) div 2"
  by (induction digest xs rule: nextLevel.induct) auto

function levelsFrom :: "(string \<Rightarrow> string) \<Rightarrow> string list \<Rightarrow> string list list" where
  "levelsFrom digest xs =
     (if length xs > 1 then xs # levelsFrom digest (nextLevel digest xs) else [xs])"
  by pat_completeness auto
termination
  by (relation "measure (\<lambda>(d, xs). length xs)") auto

declare levelsFrom.simps [simp del]

definition buildTree :: "(string \<Rightarrow> string) \<Rightarrow> string list \<Rightarrow> string list list" where
  "buildTree digest xs = (if xs = [] then [[''EMPTY'']] else levelsFrom digest xs)"

definition new_merkle :: "(string \<Rightarrow> string) \<Rightarrow> string list \<Rightarrow> merkle" where
  "new_merkle digest xs = \<lparr>leaves = xs, levels = buildTree digest xs\<rparr>"

text \<open>\<open>this.tree[this.tree.length - 1][0] || "EMPTY"\<close>.\<close>

definition getRoot :: "merkle \<Rightarrow> string" where
  "getRoot t = (case levels t of [] \<Rightarrow> ''EMPTY''
     | _ \<Rightarrow> (case last (levels t) of [] \<Rightarrow> ''EMPTY'' | r # _ \<Rightarrow> (if r = [] then ''EMPTY'' else r)))"

text \<open>The loop of \<open>getProof\<close> over all levels but the last. A read past the end of a level is
  \<open>undefined\<close> in the source and an empty string here; it happens only for an index outside the
  leaves.\<close>

definition nth_or :: "string list \<Rightarrow> nat \<Rightarrow> string" where
  "nth_or xs i = (if i < length xs then xs ! i else [])"

fun proofFrom :: "string list list \<Rightarrow> nat \<Rightarrow> string list" where
  "proofFrom [] i = []"
| "proofFrom [l] i = []"
| "proofFrom (l # m # ls) i =
     (let sib = (if i mod 2 = 1 then i - 1 else i + 1)
      in (if sib < length l then l ! sib else nth_or l i) # proofFrom (m # ls) (i div 2))"

definition getProof :: "merkle \<Rightarrow> nat \<Rightarrow> string list" where
  "getProof t i = proofFrom (levels t) i"

fun climb :: "(string \<Rightarrow> string) \<Rightarrow> string \<Rightarrow> nat \<Rightarrow> string list \<Rightarrow> string" where
  "climb digest h i [] = h"
| "climb digest h i (s # ss) =
     climb digest (if i mod 2 = 1 then hashPair digest s h else hashPair digest h s) (i div 2) ss"

definition verify :: "(string \<Rightarrow> string) \<Rightarrow> string \<Rightarrow> string \<Rightarrow> nat \<Rightarrow> string list \<Rightarrow> bool" where
  "verify digest root leaf i prf = (climb digest leaf i prf = root)"

text \<open>Writing an array element: inside the array it overwrites, at the end it appends. A write
  further out would leave a hole; \<open>addLeaf\<close> never does that on a consistent tree.\<close>

definition store_at :: "string list \<Rightarrow> nat \<Rightarrow> string \<Rightarrow> string list" where
  "store_at xs i x = (if i < length xs then xs[i := x]
     else xs @ replicate (i - length xs) [] @ [x])"

text \<open>The \<open>for\<close> loop of \<open>addLeaf\<close> over the levels above the leaves: \<open>l\<close> is \<open>this.tree[i]\<close>, \<open>h\<close> is
  \<open>currentHash\<close>.\<close>

fun addUp :: "(string \<Rightarrow> string) \<Rightarrow> string list \<Rightarrow> string list list \<Rightarrow> nat \<Rightarrow> string \<Rightarrow> string list list" where
  "addUp digest l [] i h = [l]"
| "addUp digest l (m # ls) i h =
     (let left = (if i mod 2 = 1 then nth_or l (i - 1) else h);
          right = (if i mod 2 = 1 then h else left);
          h' = hashPair digest left right; i' = i div 2
      in l # addUp digest (store_at m i' h') ls i' h')"

definition growRoot :: "(string \<Rightarrow> string) \<Rightarrow> string list list \<Rightarrow> string list list" where
  "growRoot digest ls =
     (if length (last ls) > 1
      then ls @ [[hashPair digest (last ls ! 0) (last ls ! 1)]] else ls)"

definition addLeaf :: "(string \<Rightarrow> string) \<Rightarrow> merkle \<Rightarrow> string \<Rightarrow> string \<times> merkle" where
  "addLeaf digest t leaf =
     (let lv = leaves t @ [leaf]
      in if levels t = [] \<or> nth_or (hd (levels t)) 0 = ''EMPTY''
         then (leaf, \<lparr>leaves = lv, levels = [[leaf]]\<rparr>)
         else let t' = \<lparr>leaves = lv,
                        levels = growRoot digest (addUp digest lv (tl (levels t)) (length lv - 1) leaf)\<rparr>
              in (getRoot t', t'))"


section \<open>Levels\<close>

lemma levelsFrom_nonempty [simp]: "levelsFrom digest xs \<noteq> []"
  by (subst levelsFrom.simps) simp

lemma hd_levelsFrom [simp]: "hd (levelsFrom digest xs) = xs"
  by (subst levelsFrom.simps) simp

lemma levelsFrom_Cons: "levelsFrom digest xs = xs # tl (levelsFrom digest xs)"
  by (metis hd_levelsFrom levelsFrom_nonempty list.collapse)

lemma levelsFrom_step: "1 < length xs \<Longrightarrow> levelsFrom digest xs = xs # levelsFrom digest (nextLevel digest xs)"
  by (subst levelsFrom.simps) simp

lemma levelsFrom_small: "length xs \<le> 1 \<Longrightarrow> levelsFrom digest xs = [xs]"
  by (subst levelsFrom.simps) simp

lemma length_last_levelsFrom: "xs \<noteq> [] \<Longrightarrow> length (last (levelsFrom digest xs)) = 1"
proof (induction digest xs rule: levelsFrom.induct)
  case (1 digest xs)
  show ?case
  proof (cases "1 < length xs")
    case True
    then have "nextLevel digest xs \<noteq> []" by (auto simp flip: length_greater_0_conv)
    with 1 True show ?thesis by (simp add: levelsFrom_step)
  next
    case False
    with 1(2) show ?thesis by (cases xs) (auto simp: levelsFrom_small)
  qed
qed

lemma nextLevel_nth:
  "j < (length xs + 1) div 2 \<Longrightarrow> nextLevel digest xs ! j =
     hashPair digest (xs ! (2 * j)) (if 2 * j + 1 < length xs then xs ! (2 * j + 1) else xs ! (2 * j))"
proof (induction digest xs arbitrary: j rule: nextLevel.induct)
  case (3 digest x y r)
  then show ?case by (cases j) auto
qed auto

lemma nextLevel_append_even:
  "even (length us) \<Longrightarrow> nextLevel digest (us @ vs) = nextLevel digest us @ nextLevel digest vs"
  by (induction digest us rule: nextLevel.induct) auto

section \<open>Proofs of inclusion verify\<close>

lemma proofFrom_step:
  "proofFrom (l # levelsFrom digest m) i =
     (let sib = (if i mod 2 = 1 then i - 1 else i + 1)
      in (if sib < length l then l ! sib else nth_or l i) # proofFrom (levelsFrom digest m) (i div 2))"
  by (subst (1 2) levelsFrom_Cons) simp

lemma climb_step:
  assumes "i < length xs"
  shows "(let sib = (if i mod 2 = 1 then i - 1 else i + 1); s = (if sib < length xs then xs ! sib else nth_or xs i)
      in if i mod 2 = 1 then hashPair digest s (xs ! i) else hashPair digest (xs ! i) s)
    = nextLevel digest xs ! (i div 2)"
proof (cases "i mod 2 = 1")
  case True
  then have "2 * (i div 2) = i - 1" and "2 * (i div 2) + 1 = i" by presburger+
  with True assms show ?thesis
    by (subst nextLevel_nth) (auto simp: Let_def)
next
  case False
  then have "2 * (i div 2) = i" by presburger
  with False assms show ?thesis
    by (subst nextLevel_nth) (auto simp: Let_def nth_or_def)
qed

lemma climb_proofFrom:
  "i < length xs \<Longrightarrow> climb digest (xs ! i) i (proofFrom (levelsFrom digest xs) i) = hd (last (levelsFrom digest xs))"
proof (induction digest xs arbitrary: i rule: levelsFrom.induct)
  case (1 digest xs)
  show ?case
  proof (cases "1 < length xs")
    case True
    have "i div 2 < length (nextLevel digest xs)" using 1(2) by simp
    from 1(1) [OF True this] climb_step [OF 1(2), of digest] True show ?thesis
      by (simp add: levelsFrom_step proofFrom_step Let_def)
  next
    case False
    with 1(2) show ?thesis by (cases xs) (auto simp: levelsFrom_small)
  qed
qed

lemma getRoot_levels:
  assumes "levels t = levelsFrom digest xs" and "xs \<noteq> []" and "hd (last (levelsFrom digest xs)) \<noteq> []"
  shows "getRoot t = hd (last (levelsFrom digest xs))"
  using assms length_last_levelsFrom [OF assms(2), of digest]
  by (auto simp: getRoot_def split: list.splits)

lemma set_nextLevel: "x \<in> set (nextLevel digest xs) \<Longrightarrow> x \<in> range digest"
  by (induction digest xs rule: nextLevel.induct) (auto simp: hashPair_def)

lemma levelsFrom_all:
  assumes "\<And>s. P (digest s)" and "\<forall>x \<in> set xs. P x" and "l \<in> set (levelsFrom digest xs)" and "x \<in> set l"
  shows "P x"
  using assms(2,3)
proof (induction xs rule: length_induct)
  case (1 xs)
  have next_P: "\<forall>y \<in> set (nextLevel digest xs). P y"
    using set_nextLevel assms(1) by auto
  show ?case
  proof (cases "1 < length xs")
    case True
    then have "length (nextLevel digest xs) < length xs" by simp
    with 1 next_P True assms(4) show ?thesis
      by (auto simp: levelsFrom_step simp del: length_nextLevel)
  next
    case False
    with 1 assms(4) show ?thesis by (simp add: levelsFrom_small)
  qed
qed

lemma top_nonempty:
  assumes "\<And>s. digest s \<noteq> []" and "[] \<notin> set xs" and "xs \<noteq> []"
  shows "hd (last (levelsFrom digest xs)) \<noteq> []"
proof -
  have "last (levelsFrom digest xs) \<noteq> []"
    using length_last_levelsFrom [OF assms(3), of digest] by auto
  then have "hd (last (levelsFrom digest xs)) \<in> set (last (levelsFrom digest xs))" by simp
  then show ?thesis
    using levelsFrom_all [of "\<lambda>s. s \<noteq> []" digest xs "last (levelsFrom digest xs)"] assms
    by auto
qed

section \<open>The incremental update\<close>

lemma nth_or_last [simp]: "nth_or (ys @ [y]) (length ys) = y" "nth_or (us @ [u, y]) (length us) = u"
  by (simp_all add: nth_or_def nth_append)

lemma nextLevel_snoc:
  "even (length ys) \<Longrightarrow> nextLevel digest (ys @ [y]) = nextLevel digest ys @ [hashPair digest y y]"
  "even (length us) \<Longrightarrow> nextLevel digest (us @ [u, y]) = nextLevel digest us @ [hashPair digest u y]"
  by (simp_all add: nextLevel_append_even)

text \<open>Replacing the last leaf.\<close>

lemma addUp_replace:
  "addUp digest (ys @ [y]) (tl (levelsFrom digest (ys @ [z]))) (length ys) y = levelsFrom digest (ys @ [y])"
proof (induction "length ys" arbitrary: ys y z rule: less_induct)
  case less
  show ?case
  proof (cases "ys = []")
    case True
    then show ?thesis by (simp add: levelsFrom_small)
  next
    case False
    show ?thesis
    proof (cases "even (length ys)")
      case True
      let ?m = "nextLevel digest ys" and ?h = "hashPair digest y y"
      have len: "length ?m = length ys div 2" using True by simp
      have "length ?m < length ys" unfolding len using False by simp
      obtain T where T: "levelsFrom digest (?m @ [hashPair digest z z]) = (?m @ [hashPair digest z z]) # T"
        using levelsFrom_Cons by blast
      have L: "levelsFrom digest (ys @ [w]) = (ys @ [w]) # levelsFrom digest (?m @ [hashPair digest w w])" for w
        using False True by (subst levelsFrom_step) (auto simp: nextLevel_snoc Suc_le_eq)
      have up: "(?m @ [a])[length ys div 2 := b] = ?m @ [b]" for a b
        unfolding len [symmetric] by (simp del: length_nextLevel)
      from less [OF \<open>length ?m < length ys\<close>, of ?h "hashPair digest z z"] True len show ?thesis
        by (simp add: L T Let_def store_at_def up del: length_nextLevel)
    next
      case odd: False
      then obtain us u where ys: "ys = us @ [u]" by (cases ys rule: rev_cases) auto
      let ?m = "nextLevel digest us" and ?h = "hashPair digest u y"
      have ev: "even (length us)" using odd ys by simp
      have len: "length ?m = length us div 2" using ev by simp
      have "length ?m < length ys" using ys by (simp add: len)
      obtain T where T: "levelsFrom digest (?m @ [hashPair digest u z]) = (?m @ [hashPair digest u z]) # T"
        using levelsFrom_Cons by blast
      have L: "levelsFrom digest (ys @ [w]) = (ys @ [w]) # levelsFrom digest (?m @ [hashPair digest u w])" for w
        using ys ev by (subst levelsFrom_step) (auto simp: nextLevel_snoc)
      have i: "length ys mod 2 = 1" "length ys div 2 = length ?m" "nth_or (ys @ [y]) (length ys - Suc 0) = u"
        using ys ev by (auto simp: len nth_or_def nth_append mod_Suc even_iff_mod_2_eq_zero simp del: length_nextLevel)
      from less [OF \<open>length ?m < length ys\<close>, of ?h "hashPair digest u z"] show ?thesis
        by (simp add: L T Let_def store_at_def i del: length_nextLevel)
    qed
  qed
qed


text \<open>Appending a leaf.\<close>

lemma growRoot_Cons [simp]: "ls \<noteq> [] \<Longrightarrow> growRoot digest (l # ls) = l # growRoot digest ls"
  by (simp add: growRoot_def)

lemma growRoot_levelsFrom [simp]: "xs \<noteq> [] \<Longrightarrow> growRoot digest (levelsFrom digest xs) = levelsFrom digest xs"
  using length_last_levelsFrom [of xs digest] by (simp add: growRoot_def)

lemma addUp_nonempty [simp]: "addUp digest l ls i h \<noteq> []"
  by (cases ls) (auto simp: Let_def)

lemma addUp_append:
  "ys \<noteq> [] \<Longrightarrow> growRoot digest (addUp digest (ys @ [y]) (tl (levelsFrom digest ys)) (length ys) y)
     = levelsFrom digest (ys @ [y])"
proof (induction "length ys" arbitrary: ys y rule: less_induct)
  case less
  show ?case
  proof (cases "length ys = 1")
    case True
    then obtain a where "ys = [a]" by (cases ys) auto
    then show ?thesis by (simp add: levelsFrom_small levelsFrom_step growRoot_def)
  next
    case False
    then have len2: "1 < length ys" using less.prems by (cases ys) auto
    let ?m = "nextLevel digest ys"
    have L: "levelsFrom digest ys = ys # levelsFrom digest ?m" using len2 by (rule levelsFrom_step)
    have R: "levelsFrom digest (ys @ [y]) = (ys @ [y]) # levelsFrom digest (nextLevel digest (ys @ [y]))"
      using len2 by (subst levelsFrom_step) auto
    show ?thesis
    proof (cases "even (length ys)")
      case True
      have len: "length ?m = length ys div 2" using True by simp
      have m: "length ?m < length ys" "?m \<noteq> []" unfolding length_0_conv [symmetric] len using len2 True by auto
      obtain T where T: "levelsFrom digest ?m = ?m # T" using levelsFrom_Cons by blast
      from less.hyps [OF m, of "hashPair digest y y"] True len show ?thesis
        by (simp add: L R T Let_def store_at_def nextLevel_snoc del: length_nextLevel)
    next
      case odd: False
      then obtain us u where ys: "ys = us @ [u]" by (cases ys rule: rev_cases) auto
      have ev: "even (length us)" using odd ys by simp
      let ?n = "nextLevel digest us"
      have len: "length ?n = length us div 2" using ev by simp
      have m: "?m = ?n @ [hashPair digest u u]" using ys ev by (simp add: nextLevel_snoc)
      obtain T where T: "levelsFrom digest ?m = ?m # T" using levelsFrom_Cons by blast
      have i: "length ys mod 2 = 1" "length ys div 2 = length ?n" "nth_or (ys @ [y]) (length ys - Suc 0) = u"
        using ys ev by (auto simp: len nth_or_def nth_append mod_Suc even_iff_mod_2_eq_zero simp del: length_nextLevel)
      from addUp_replace [of digest ?n "hashPair digest u y" "hashPair digest u u"] T m
      have "addUp digest (?n @ [hashPair digest u y]) T (length ?n) (hashPair digest u y)
          = levelsFrom digest (?n @ [hashPair digest u y])" by simp
      moreover have "store_at ?m (length ?n) h = ?n @ [h]" for h
        unfolding m by (simp add: store_at_def del: length_nextLevel)
      moreover have "nextLevel digest (ys @ [y]) = ?n @ [hashPair digest u y]"
        using ys ev by (simp add: nextLevel_snoc)
      ultimately show ?thesis
        by (simp add: L R T Let_def i del: length_nextLevel)
    qed
  qed
qed


lemma addLeaf_rebuild:
  assumes "xs = [] \<or> hd xs \<noteq> ''EMPTY''"
  shows "snd (addLeaf digest (new_merkle digest xs) x) = new_merkle digest (xs @ [x])"
proof (cases "xs = []")
  case True
  then show ?thesis
    by (simp add: addLeaf_def new_merkle_def buildTree_def nth_or_def levelsFrom_small)
next
  case False
  then have "nth_or xs 0 \<noteq> ''EMPTY''" using assms by (simp add: nth_or_def hd_conv_nth)
  with False addUp_append [OF False, of digest x] show ?thesis
    by (simp add: addLeaf_def new_merkle_def buildTree_def Let_def)
qed

section \<open>A verified proof determines the leaf\<close>

text \<open>The strings that are hashed while a proof is checked, and while a tree is built.\<close>

fun climbInputs :: "(string \<Rightarrow> string) \<Rightarrow> string \<Rightarrow> nat \<Rightarrow> string list \<Rightarrow> string set" where
  "climbInputs digest h i [] = {}"
| "climbInputs digest h i (s # ss) =
     (let p = (if i mod 2 = 1 then s @ h else h @ s)
      in insert p (climbInputs digest (digest p) (i div 2) ss))"

definition pairInputs :: "string list \<Rightarrow> string set" where
  "pairInputs l = {l ! (2 * j) @ (if 2 * j + 1 < length l then l ! (2 * j + 1) else l ! (2 * j))
     | j. 2 * j < length l}"

definition treeInputs :: "(string \<Rightarrow> string) \<Rightarrow> string list \<Rightarrow> string set" where
  "treeInputs digest xs = (\<Union>l \<in> set (levelsFrom digest xs). pairInputs l)"

lemma climb_injective:
  assumes "inj_on digest (climbInputs digest h i ss \<union> treeInputs digest xs)"
    and "\<forall>s. length (digest s) = n" and "\<forall>x \<in> set xs. length x = n" and "length h = n"
    and "i < length xs" and "length ss = length (levelsFrom digest xs) - 1"
    and "climb digest h i ss = hd (last (levelsFrom digest xs))"
  shows "h = xs ! i"
  using assms
proof (induction "length xs" arbitrary: xs h i ss rule: less_induct)
  case less
  show ?case
  proof (cases "1 < length xs")
    case False
    with less.prems have "ss = []" "i = 0" "length xs = 1"
      by (auto simp: levelsFrom_small)
    then show ?thesis using less.prems by (cases xs) (auto simp: levelsFrom_small)
  next
    case True
    let ?m = "nextLevel digest xs"
    have L: "levelsFrom digest xs = xs # levelsFrom digest ?m" using True by (rule levelsFrom_step)
    obtain s ss' where ss: "ss = s # ss'"
      using less.prems(6) by (cases ss) (auto simp: L)
    define p where "p = (if i mod 2 = 1 then s @ h else h @ s)"
    define q where "q = xs ! (2 * (i div 2)) @
      (if 2 * (i div 2) + 1 < length xs then xs ! (2 * (i div 2) + 1) else xs ! (2 * (i div 2)))"
    have q_in: "q \<in> pairInputs xs"
      using less.prems(5) unfolding pairInputs_def q_def by (auto intro!: exI [of _ "i div 2"])
    have q_next: "?m ! (i div 2) = digest q"
      using less.prems(5) by (subst nextLevel_nth) (auto simp: q_def hashPair_def)
    have inj: "inj_on digest (insert p (climbInputs digest (digest p) (i div 2) ss')
        \<union> (pairInputs xs \<union> treeInputs digest ?m))"
      using less.prems(1) by (simp add: ss p_def Let_def treeInputs_def L)
    have "digest p = ?m ! (i div 2)"
    proof (rule less.hyps [of ?m "digest p" "i div 2" ss'])
      show "length ?m < length xs" using True by simp
      show "inj_on digest (climbInputs digest (digest p) (i div 2) ss' \<union> treeInputs digest ?m)"
        using inj by (rule inj_on_subset) auto
      show "\<forall>x \<in> set ?m. length x = n" using set_nextLevel less.prems(2) by force
      show "climb digest (digest p) (i div 2) ss' = hd (last (levelsFrom digest ?m))"
        using less.prems(7) by (simp add: ss p_def L hashPair_def split: if_splits)
    qed (use less.prems in \<open>auto simp: ss L\<close>)
    then have "digest p = digest q" by (simp add: q_next)
    then have pq: "p = q" using inj q_in by (auto dest: inj_onD)
    have len: "length (xs ! i) = n" using less.prems(3,5) by simp
    show ?thesis
    proof (cases "i mod 2 = 1")
      case odd: True
      then have "2 * (i div 2) + 1 = i" by presburger
      then have "s @ h = xs ! (2 * (i div 2)) @ xs ! i" using pq odd less.prems(5) by (simp add: p_def q_def)
      then show ?thesis using len less.prems(4) by (simp add: append_eq_append_conv)
    next
      case even: False
      then have e: "2 * (i div 2) = i" by presburger
      then obtain r where "h @ s = xs ! i @ r" using pq even by (auto simp: p_def q_def)
      then show ?thesis using len less.prems(4) by (simp add: append_eq_append_conv)
    qed
  qed
qed


lemma levels_new_merkle [simp]: "xs \<noteq> [] \<Longrightarrow> levels (new_merkle digest xs) = levelsFrom digest xs"
  by (simp add: new_merkle_def buildTree_def)

lemma length_proofFrom: "ls \<noteq> [] \<Longrightarrow> length (proofFrom ls i) = length ls - 1"
  by (induction ls i rule: proofFrom.induct) (auto simp: Let_def)

lemma getRoot_new_merkle:
  assumes "\<And>s. digest s \<noteq> []" and "[] \<notin> set xs" and "xs \<noteq> []"
  shows "getRoot (new_merkle digest xs) = hd (last (levelsFrom digest xs))"
  using assms getRoot_levels top_nonempty by (metis levels_new_merkle)

lemma getProof_verifies:
  assumes "\<And>s. digest s \<noteq> []" and "[] \<notin> set xs" and "i < length xs"
  shows "verify digest (getRoot (new_merkle digest xs)) (xs ! i) i (getProof (new_merkle digest xs) i)"
  using assms getRoot_new_merkle [OF assms(1,2)] climb_proofFrom [OF assms(3), of digest]
  by (auto simp: verify_def getProof_def simp flip: length_greater_0_conv)

text \<open>The node that is paired with itself also verifies one position further, past the end of
  the leaves: a proof of inclusion does not bind the index of the last leaf.\<close>

lemma climb_phantom:
  "odd n \<Longrightarrow> ss \<noteq> [] \<Longrightarrow> hd ss = h \<Longrightarrow> climb digest h n ss = climb digest h (n - 1) ss"
  by (cases ss) (auto elim!: oddE)

lemma verify_accepts_phantom_index:
  assumes "\<And>s. digest s \<noteq> []" and "[] \<notin> set xs" and "1 < length xs" and "odd (length xs)"
  shows "verify digest (getRoot (new_merkle digest xs)) (last xs) (length xs)
     (getProof (new_merkle digest xs) (length xs - 1))"
proof -
  have ne: "xs \<noteq> []" using assms(3) by auto
  let ?p = "getProof (new_merkle digest xs) (length xs - 1)"
  obtain ss where p: "?p = last xs # ss"
    using assms(3,4) ne
    by (auto simp: getProof_def levelsFrom_step proofFrom_step nth_or_def last_conv_nth Let_def
        odd_iff_mod_2_eq_one elim!: oddE)
  have "verify digest (getRoot (new_merkle digest xs)) (xs ! (length xs - 1)) (length xs - 1) ?p"
    by (rule getProof_verifies) (use assms ne in auto)
  moreover have "climb digest (last xs) (length xs) ?p = climb digest (last xs) (length xs - 1) ?p"
    by (rule climb_phantom) (use assms(4) p in auto)
  ultimately show ?thesis using ne by (simp add: verify_def last_conv_nth del: climb.simps)
qed

section \<open>Properties\<close>

text \<open>The inclusion proof that \<open>getProof\<close> returns for any leaf of a tree is accepted by
  \<open>verify\<close> against the tree's root, for every number of leaves, even or odd. The digest is only
  assumed not to return the empty string, and no leaf is empty (an empty root would read as
  \<open>"EMPTY"\<close>).\<close>
lemma merkle_proof_verifies:
  assumes "\<And>s. digest s \<noteq> []" and "[] \<notin> set xs" and "i < length xs"
  shows "verify digest (getRoot (new_merkle digest xs)) (xs ! i) i (getProof (new_merkle digest xs) i)"
  by (rule getProof_verifies [OF assms])

text \<open>Adding leaves one at a time with \<open>addLeaf\<close>, which only recomputes the rightmost path,
  gives the same leaves and the same levels as building the tree from the whole list of leaves.
  The first leaf must not be the marker \<open>"EMPTY"\<close>, which the code reads as an empty tree.\<close>
lemma merkle_addLeaf_is_rebuild:
  assumes "xs @ ys = [] \<or> hd (xs @ ys) \<noteq> ''EMPTY''"
  shows "foldl (\<lambda>t l. snd (addLeaf digest t l)) (new_merkle digest xs) ys = new_merkle digest (xs @ ys)"
  using assms
proof (induction ys arbitrary: xs)
  case (Cons y ys)
  then have "xs = [] \<or> hd xs \<noteq> ''EMPTY''" by (cases xs) auto
  with Cons.IH [of "xs @ [y]"] Cons.prems show ?case by (simp add: addLeaf_rebuild)
qed simp



end
