(* ===== verification/Galois_Field.thy ===== *)
theory Galois_Field
  imports Prelude
begin

text \<open>
  The arithmetic of \<open>GF(2^8)\<close> in core/utils/threshold.ts: the exponent and logarithm tables built
  by the module's initialisation loop, and multiplication and division by table lookup. The
  bytes with exclusive or and \<open>multiply\<close> are shown to form a field: \<open>gf\<close> instantiates the
  library's class of fields.
\<close>

unbundle bit_operations_syntax

section \<open>Tables and operations\<close>

definition xtime :: "nat \<Rightarrow> nat" where
  "xtime x = (let y = push_bit 1 x in if y AND 256 \<noteq> 0 then y XOR 285 else y)"

text \<open>The first loop of \<open>init\<close>; \<open>n\<close> counts the rounds that are left.\<close>

fun initLoop :: "nat \<Rightarrow> nat \<Rightarrow> nat \<Rightarrow> nat list \<Rightarrow> nat list \<Rightarrow> nat list \<times> nat list" where
  "initLoop 0 i x e l = (e, l)"
| "initLoop (Suc n) i x e l = initLoop n (Suc i) (xtime x) (e[i := x mod 256]) (l[x := i mod 256])"

text \<open>The second loop copies the table behind itself.\<close>

fun extendLoop :: "nat \<Rightarrow> nat \<Rightarrow> nat list \<Rightarrow> nat list" where
  "extendLoop 0 i e = e"
| "extendLoop (Suc n) i e = extendLoop n (Suc i) (e[i := e ! (i - 255)])"

definition EXP :: "nat list" where
  "EXP = extendLoop 257 255 (fst (initLoop 255 0 1 (replicate 512 0) (replicate 256 0)))"

definition LOG :: "nat list" where
  "LOG = snd (initLoop 255 0 1 (replicate 512 0) (replicate 256 0))"

definition multiply :: "nat \<Rightarrow> nat \<Rightarrow> nat" where
  "multiply a b = (if a = 0 \<or> b = 0 then 0 else EXP ! (LOG ! a + LOG ! b))"

definition gf_divide :: "nat \<Rightarrow> nat \<Rightarrow> nat result" where
  "gf_divide a b = (if b = 0 then Inl ''Div0''
     else Inr (if a = 0 then 0 else EXP ! (LOG ! a + 255 - LOG ! b)))"

section \<open>The powers of the generator\<close>

definition pow :: "nat \<Rightarrow> nat" where
  "pow i = (xtime ^^ i) 1"

fun orbit :: "nat \<Rightarrow> nat \<Rightarrow> nat list" where
  "orbit 0 x = []"
| "orbit (Suc n) x = x # orbit n (xtime x)"

lemma orbit_numeral: "orbit (numeral n) x = x # orbit (pred_numeral n) (xtime x)"
  by (simp add: numeral_eq_Suc)

lemma length_orbit [simp]: "length (orbit n x) = n"
  by (induction n arbitrary: x) auto

lemma orbit_nth: "i < n \<Longrightarrow> orbit n x ! i = (xtime ^^ i) x"
  by (induction n arbitrary: x i) (auto simp: nth_Cons funpow_swap1 split: nat.splits)

lemma orbit_distinct: "distinct (orbit 255 1)"
  by (simp add: orbit_numeral xtime_def)

lemma orbit_bytes: "list_all (\<lambda>x. 0 < x \<and> x < 256) (orbit 255 1)"
  by (simp add: orbit_numeral xtime_def)

lemma pow_255: "pow 255 = 1"
proof -
  have "orbit 256 1 ! 255 = 1" by (simp add: orbit_numeral xtime_def)
  then show ?thesis by (simp add: orbit_nth pow_def)
qed

lemma pow_bytes: "0 < pow i" "pow i < 256"
proof -
  have base: "0 < pow i \<and> pow i < 256" if "i < 255" for i
    using orbit_bytes that by (simp add: list_all_length orbit_nth pow_def)
  have per: "pow (i + 255) = pow i" for i
    using pow_255 by (simp add: pow_def funpow_add)
  have "0 < pow i \<and> pow i < 256"
  proof (induction i rule: less_induct)
    case (less i)
    show ?case
    proof (cases "i < 255")
      case False
      then have "pow i = pow (i - 255)" using per [of "i - 255"] by simp
      then show ?thesis using less [of "i - 255"] False by simp
    qed (rule base)
  qed
  then show "0 < pow i" "pow i < 256" by auto
qed

lemma pow_period: "pow (i + 255) = pow i"
  using pow_255 by (simp add: pow_def funpow_add)

lemma pow_mod: "pow (i mod 255) = pow i"
proof (induction i rule: less_induct)
  case (less i)
  then show ?case
    using pow_period [of "i - 255"] by (cases "i < 255") (auto simp: le_mod_geq)
qed

lemma pow_inj: "i < 255 \<Longrightarrow> j < 255 \<Longrightarrow> pow i = pow j \<Longrightarrow> i = j"
  using orbit_distinct by (simp add: distinct_conv_nth orbit_nth pow_def) metis

lemma pow_surj:
  assumes "0 < a" and "a < 256"
  obtains i where "i < 255" and "a = pow i"
proof -
  have "pow ` {..<255} = {1..<256}"
  proof (rule card_subset_eq)
    show "pow ` {..<255} \<subseteq> {1..<256}" using pow_bytes by (auto simp: Suc_le_eq)
    have "inj_on pow {..<255}" using pow_inj by (auto simp: inj_on_def)
    then show "card (pow ` {..<255}) = card {1..<256::nat}" by (simp add: card_image)
  qed simp
  then have "a \<in> pow ` {..<255}" using assms by auto
  with that show thesis by auto
qed

section \<open>The tables hold the powers and their logarithms\<close>

lemma length_initLoop: "initLoop n i x e l = (e', l') \<Longrightarrow> length e' = length e \<and> length l' = length l"
  by (induction n i x e l rule: initLoop.induct) auto

lemma initLoop_exp:
  assumes "i + n \<le> length e" and "j < length e"
  shows "fst (initLoop n i x e l) ! j
     = (if i \<le> j \<and> j < i + n then (xtime ^^ (j - i)) x mod 256 else e ! j)"
  using assms
proof (induction n arbitrary: i x e l)
  case (Suc n)
  consider "j < i" | "j = i" | k where "j = Suc (i + k)"
    by (metis less_imp_Suc_add linorder_neqE_nat)
  then show ?case
    using Suc by cases (simp_all add: funpow_swap1)
qed simp

lemma initLoop_log_other:
  "y \<notin> set (orbit n x) \<Longrightarrow> snd (initLoop n i x e l) ! y = l ! y"
  by (induction n arbitrary: i x e l) auto

lemma initLoop_log:
  assumes "distinct (orbit n x)" and "\<forall>y \<in> set (orbit n x). y < length l"
    and "i + n \<le> 256" and "j < n"
  shows "snd (initLoop n i x e l) ! ((xtime ^^ j) x) = i + j"
  using assms
proof (induction n arbitrary: i x e l j)
  case (Suc n)
  show ?case
  proof (cases j)
    case 0
    then show ?thesis using Suc.prems by (simp add: initLoop_log_other)
  next
    case (Suc k)
    then show ?thesis
      using Suc.prems Suc.IH [of "xtime x" "l[x := i mod 256]" "Suc i" k] by (simp add: funpow_swap1)
  qed
qed simp

lemma extendLoop_nth:
  assumes "i + n \<le> length e" and "j < i + n" and "255 \<le> i"
    and "\<And>m. m < i \<Longrightarrow> e ! m = f (m mod 255)"
  shows "extendLoop n i e ! j = f (j mod 255)"
  using assms
proof (induction n arbitrary: i e)
  case (Suc n)
  have "e[i := e ! (i - 255)] ! m = f (m mod 255)" if "m < Suc i" for m
    using that Suc.prems by (cases "m = i") (simp_all add: le_mod_geq)
  then show ?case
    using Suc.prems Suc.IH [of "Suc i" "e[i := e ! (i - 255)]"] by simp
qed simp

lemma EXP_nth:
  assumes "j < 512"
  shows "EXP ! j = pow j"
proof -
  define e where "e = fst (initLoop 255 0 1 (replicate 512 0) (replicate 256 0))"
  have len: "length e = 512"
    using length_initLoop [OF prod.collapse [symmetric]] by (simp add: e_def)
  have "e ! m = pow (m mod 255)" if "m < 255" for m
    using that initLoop_exp [of 0 255 "replicate 512 0" m 1 "replicate 256 0"] pow_bytes(2) [of m]
    by (simp add: e_def pow_def)
  then have "extendLoop 257 255 e ! j = pow (j mod 255)"
    using assms len by (intro extendLoop_nth) auto
  then show ?thesis by (simp add: EXP_def e_def pow_mod)
qed

lemma LOG_pow:
  assumes "i < 255"
  shows "LOG ! (pow i) = i"
  using assms initLoop_log [of 255 1 "replicate 256 0" 0 i] orbit_distinct orbit_bytes
  by (simp add: LOG_def pow_def list_all_iff)

lemma multiply_pow: "multiply (pow i) (pow j) = pow (i + j)"
proof -
  have "LOG ! pow i = i mod 255" for i
    using LOG_pow [of "i mod 255"] by (simp add: pow_mod)
  moreover have "i mod 255 + j mod 255 < 512"
    using mod_less_divisor [of 255 i] mod_less_divisor [of 255 j] by linarith
  ultimately have "multiply (pow i) (pow j) = pow (i mod 255 + j mod 255)"
    using pow_bytes(1) [of i] pow_bytes(1) [of j] by (simp add: multiply_def EXP_nth)
  also have "\<dots> = pow (i + j)"
    using pow_mod [of "i mod 255 + j mod 255"] pow_mod [of "i + j"] by (simp add: mod_add_eq)
  finally show ?thesis .
qed

section \<open>The field laws\<close>

lemma multiply_zero [simp]: "multiply 0 b = 0" "multiply a 0 = 0"
  by (simp_all add: multiply_def)

lemma multiply_nonzero:
  assumes "0 < a" "a < 256" "0 < b" "b < 256"
  shows "0 < multiply a b"
  using assms pow_bytes(1) by (metis multiply_pow pow_surj)

lemma multiply_byte:
  assumes "a < 256" "b < 256"
  shows "multiply a b < 256"
proof (cases "a = 0 \<or> b = 0")
  case False
  then show ?thesis using assms pow_bytes(2) by (metis multiply_pow pow_surj neq0_conv)
qed (auto simp: multiply_def)

lemma multiply_commute: "multiply a b = multiply b a"
  by (simp add: multiply_def add.commute)

lemma multiply_assoc:
  assumes "a < 256" "b < 256" "c < 256"
  shows "multiply (multiply a b) c = multiply a (multiply b c)"
proof (cases "a = 0 \<or> b = 0 \<or> c = 0")
  case False
  then obtain i j k where "a = pow i" "b = pow j" "c = pow k"
    using assms pow_surj by (metis neq0_conv)
  then show ?thesis by (simp add: multiply_pow add.assoc)
qed auto

lemma xtime_xor: "xtime (a XOR b) = xtime a XOR xtime b"
proof -
  have bit8: "x AND 256 = 0 \<longleftrightarrow> \<not> bit x 8" for x :: nat
    using and_exp_eq_0_iff_not_bit [of x 8] by simp
  show ?thesis
    by (simp add: xtime_def Let_def bit8 bit_xor_iff ac_simps push_bit_xor del: push_bit_of_1 One_nat_def)
qed

lemma multiply_pow_iter:
  assumes "b < 256"
  shows "multiply (pow i) b = (xtime ^^ i) b"
proof (cases "b = 0")
  case True
  have "(xtime ^^ i) 0 = 0" by (induction i) (auto simp: xtime_def)
  with True show ?thesis by simp
next
  case False
  then obtain j where "b = pow j" using assms pow_surj by (metis neq0_conv)
  then show ?thesis by (simp add: multiply_pow) (simp add: pow_def funpow_add)
qed

lemma multiply_one: "a < 256 \<Longrightarrow> multiply 1 a = a"
  using multiply_pow_iter [of a 0] by (simp add: pow_def)

lemma xor_byte:
  assumes "a < 256" "b < 256"
  shows "a XOR b < (256::nat)"
proof -
  have "take_bit 8 (a XOR b) = a XOR b"
    using assms by (simp add: take_bit_xor take_bit_nat_eq_self)
  then show ?thesis using take_bit_nat_less_exp [of 8 "a XOR b"] by simp
qed

lemma multiply_distrib:
  assumes "a < 256" "b < 256" "c < 256"
  shows "multiply a (b XOR c) = multiply a b XOR multiply a c"
proof (cases "a = 0")
  case False
  then obtain i where i: "a = pow i" using assms pow_surj by (metis neq0_conv)
  have "(xtime ^^ i) (b XOR c) = (xtime ^^ i) b XOR (xtime ^^ i) c"
    by (induction i) (simp_all add: xtime_xor)
  then show ?thesis using assms by (simp add: i multiply_pow_iter xor_byte)
qed simp

lemma gf_divide_multiply:
  assumes "a < 256" "0 < b" "b < 256"
  obtains q where "gf_divide a b = Inr q" and "q < 256" and "multiply q b = a"
proof (cases "a = 0")
  case True
  then show thesis using that [of 0] assms by (simp add: gf_divide_def)
next
  case False
  obtain i where i: "i < 255" "a = pow i" using False assms pow_surj by (metis neq0_conv)
  obtain j where j: "j < 255" "b = pow j" using assms pow_surj by metis
  have "gf_divide a b = Inr (pow (i + 255 - j))"
    using False assms i j by (simp add: gf_divide_def LOG_pow EXP_nth)
  moreover have "multiply (pow (i + 255 - j)) b = a"
    using i j by (simp add: multiply_pow pow_period)
  ultimately show thesis using that pow_bytes(2) by blast
qed

section \<open>The bytes as a field\<close>

typedef gf = "{a :: nat. a < 256}"
  morphisms byte_of Abs_gf
  by (rule exI [of _ 0]) simp

setup_lifting type_definition_gf

definition gf_inverse :: "nat \<Rightarrow> nat" where
  "gf_inverse b = (case gf_divide 1 b of Inl _ \<Rightarrow> 0 | Inr q \<Rightarrow> q)"

lemma gf_inverse:
  assumes "0 < b" "b < 256"
  shows "gf_inverse b < 256 \<and> multiply (gf_inverse b) b = 1"
  by (rule gf_divide_multiply [of 1 b]) (use assms in \<open>auto simp: gf_inverse_def\<close>)

lemma gf_inverse_byte: "b < 256 \<Longrightarrow> gf_inverse b < 256"
  using gf_inverse [of b] by (cases "b = 0") (auto simp: gf_inverse_def gf_divide_def)

lemma gf_divide_inverse:
  assumes "a < 256" "0 < b" "b < 256"
  shows "gf_divide a b = Inr (multiply a (gf_inverse b))"
proof -
  obtain q where q: "gf_divide a b = Inr q" "q < 256" "multiply q b = a"
    by (rule gf_divide_multiply [OF assms])
  have "multiply a (gf_inverse b) = multiply q (multiply b (gf_inverse b))"
    using q(2) assms(3) gf_inverse_byte by (subst q(3) [symmetric]) (simp add: multiply_assoc)
  also have "\<dots> = q"
    using gf_inverse [OF assms(2,3)] q(2)
    by (simp add: multiply_commute [of b] multiply_commute [of q] multiply_one del: One_nat_def)
  finally show ?thesis using q(1) by simp
qed

instantiation gf :: field
begin

lift_definition zero_gf :: gf is 0 by simp
lift_definition one_gf :: gf is 1 by simp
lift_definition plus_gf :: "gf \<Rightarrow> gf \<Rightarrow> gf" is "\<lambda>a b. a XOR b" by (rule xor_byte)
lift_definition minus_gf :: "gf \<Rightarrow> gf \<Rightarrow> gf" is "\<lambda>a b. a XOR b" by (rule xor_byte)
lift_definition uminus_gf :: "gf \<Rightarrow> gf" is "\<lambda>a. a" .
lift_definition times_gf :: "gf \<Rightarrow> gf \<Rightarrow> gf" is multiply by (rule multiply_byte)
lift_definition inverse_gf :: "gf \<Rightarrow> gf" is gf_inverse by (rule gf_inverse_byte)

definition divide_gf :: "gf \<Rightarrow> gf \<Rightarrow> gf" where
  "divide_gf a b = a * inverse b"

instance
proof
  fix a b c :: gf
  show "a * b * c = a * (b * c)" by transfer (rule multiply_assoc)
  show "a * b = b * a" by transfer (rule multiply_commute)
  show "1 * a = a" by transfer (rule multiply_one)
  show "a + b + c = a + (b + c)" by transfer (simp add: xor.assoc)
  show "a + b = b + a" by transfer (simp add: xor.commute)
  show "0 + a = a" by transfer simp
  show "- a + a = 0" by transfer simp
  show "a - b = a + - b" by transfer simp
  show "(a + b) * c = a * c + b * c"
    by transfer (metis multiply_commute multiply_distrib)
  show "(0::gf) \<noteq> 1" by transfer simp
  show "a \<noteq> 0 \<Longrightarrow> inverse a * a = 1" by transfer (use gf_inverse in auto)
  show "a div b = a * inverse b" by (rule divide_gf_def)
  show "inverse (0::gf) = 0" by transfer (simp add: gf_inverse_def gf_divide_def)
qed

end

lift_definition of_byte :: "nat \<Rightarrow> gf" is "\<lambda>a. a mod 256" by simp

lemma byte_of_byte [simp]: "a < 256 \<Longrightarrow> byte_of (of_byte a) = a"
  by transfer simp

lemma of_byte_of [simp]: "of_byte (byte_of a) = a"
  by transfer simp

lemma byte_of_less [simp]: "byte_of a < 256"
  by transfer simp

lemma of_byte_inject: "a < 256 \<Longrightarrow> b < 256 \<Longrightarrow> of_byte a = of_byte b \<longleftrightarrow> a = b"
  by transfer simp

lemma of_byte_zero [simp]: "of_byte 0 = 0" and of_byte_one [simp]: "of_byte 1 = 1"
  by (transfer, simp)+

lemma byte_of_xor: "byte_of (a + b) = byte_of a XOR byte_of b"
  and byte_of_multiply: "byte_of (a * b) = multiply (byte_of a) (byte_of b)"
  by (transfer, simp)+

lemma multiply_gf: "a < 256 \<Longrightarrow> b < 256 \<Longrightarrow> multiply a b = byte_of (of_byte a * of_byte b)"
  by (simp add: byte_of_multiply)

lemma xor_gf: "a < 256 \<Longrightarrow> b < 256 \<Longrightarrow> a XOR b = byte_of (of_byte a + of_byte b)"
  by (simp add: byte_of_xor)

lemma gf_add_self [simp]: "(a::gf) + a = 0"
  by transfer simp

lemma gf_minus_plus: "(a::gf) - b = a + b"
  by transfer simp

lemma gf_divide_gf:
  assumes "a < 256" "b < 256" "b \<noteq> 0"
  shows "gf_divide a b = Inr (byte_of (of_byte a / of_byte b))"
proof -
  have "byte_of (inverse (of_byte b)) = gf_inverse b" using assms by transfer simp
  then show ?thesis using assms by (simp add: gf_divide_inverse divide_gf_def byte_of_multiply)
qed

end
