(* ===== verification/Lagrange.thy ===== *)
theory Lagrange
  imports Main
begin

text \<open>
  Polynomials over a field as coefficient lists: a polynomial has no more roots than
  coefficients, and is determined by its values at as many points as it has coefficients
  (Lagrange interpolation). Used for the threshold secret sharing of core/utils/threshold.ts.
\<close>

section \<open>Evaluation and roots\<close>

primrec ev :: "'a::field list \<Rightarrow> 'a \<Rightarrow> 'a" where
  "ev [] x = 0"
| "ev (c # cs) x = c + x * ev cs x"

lemma ev_synthetic_division:
  "\<exists>ds. length ds = length cs - 1 \<and> (\<forall>x. ev cs x = ev cs a + (x - a) * ev ds x)"
proof (induction cs)
  case (Cons c cs)
  then obtain ds where ds: "length ds = length cs - 1" "\<And>x. ev cs x = ev cs a + (x - a) * ev ds x"
    by auto
  show ?case
  proof (cases cs)
    case (Cons d es)
    have "\<forall>x. ev (c # cs) x = ev (c # cs) a + (x - a) * ev (ev cs a # ds) x"
    proof
      fix x
      have "x * ev cs x = x * (ev cs a + (x - a) * ev ds x)" using ds(2) [of x] by simp
      then show "ev (c # cs) x = ev (c # cs) a + (x - a) * ev (ev cs a # ds) x"
        by (simp add: algebra_simps)
    qed
    moreover have "length (ev cs a # ds) = length (c # cs) - 1" using Cons ds(1) by simp
    ultimately show ?thesis by blast
  qed simp
qed simp

lemma ev_too_many_roots:
  assumes "finite A" and "length cs \<le> card A" and "\<And>a. a \<in> A \<Longrightarrow> ev cs a = 0"
  shows "ev cs x = 0"
  using assms
proof (induction "length cs" arbitrary: cs A x)
  case (Suc n)
  then obtain a where a: "a \<in> A" by fastforce
  obtain ds where ds: "length ds = length cs - 1" "\<And>x. ev cs x = ev cs a + (x - a) * ev ds x"
    using ev_synthetic_division [of cs a] by auto
  have "ev ds x = 0"
  proof (rule Suc.hyps(1))
    show "n = length ds" using Suc.hyps(2) ds(1) by simp
    show "length ds \<le> card (A - {a})" using Suc.prems Suc.hyps(2) ds(1) a by simp
    show "ev ds b = 0" if "b \<in> A - {a}" for b
      using that ds(2) [of b] Suc.prems(3) a by auto
  qed (use Suc.prems in simp)
  then show ?case using ds(2) [of x] Suc.prems(3) a by simp
qed simp

section \<open>Functions given by a bounded number of coefficients\<close>

definition poly_fun :: "nat \<Rightarrow> ('a::field \<Rightarrow> 'a) \<Rightarrow> bool" where
  "poly_fun n f \<longleftrightarrow> (\<exists>cs. length cs = n \<and> f = ev cs)"

lemma poly_fun_pad:
  assumes "length cs \<le> n"
  shows "poly_fun n (ev cs)"
proof -
  have zeros: "ev (replicate k 0) x = 0" for k :: nat and x :: 'a
    by (induction k) auto
  have "ev (cs @ replicate k 0) x = ev cs x" for k and x
    by (induction cs) (auto simp: zeros)
  then show ?thesis
    unfolding poly_fun_def using assms by (intro exI [of _ "cs @ replicate (n - length cs) 0"]) auto
qed

lemma poly_fun_zero: "poly_fun n (\<lambda>x. 0 :: 'a::field)"
  using poly_fun_pad [of "[] :: 'a list" n] by (simp add: poly_fun_def fun_eq_iff)

lemma poly_fun_add:
  assumes "poly_fun n f" and "poly_fun n g"
  shows "poly_fun n (\<lambda>x. f x + g x)"
proof -
  have "length cs = length ds \<Longrightarrow> ev (map2 (+) cs ds) x = ev cs x + ev ds x" for cs ds and x :: 'a
    by (induction cs ds rule: list_induct2) (auto simp: algebra_simps)
  moreover obtain cs ds where "length cs = n" "f = ev cs" "length ds = n" "g = ev ds"
    using assms by (auto simp: poly_fun_def)
  ultimately show ?thesis
    unfolding poly_fun_def by (intro exI [of _ "map2 (+) cs ds"]) auto
qed

lemma poly_fun_scale:
  assumes "poly_fun n f"
  shows "poly_fun n (\<lambda>x. a * f x)"
proof -
  have "ev (map ((*) a) cs) x = a * ev cs x" for cs x
    by (induction cs) (auto simp: algebra_simps)
  moreover obtain cs where "length cs = n" "f = ev cs"
    using assms by (auto simp: poly_fun_def)
  ultimately show ?thesis
    unfolding poly_fun_def by (intro exI [of _ "map ((*) a) cs"]) auto
qed

lemma poly_fun_linear:
  assumes "poly_fun n f"
  shows "poly_fun (Suc n) (\<lambda>x. (x - a) / d * f x)"
proof -
  obtain cs where cs: "length cs = n" "f = ev cs"
    using assms by (auto simp: poly_fun_def)
  have "poly_fun (Suc n) (\<lambda>x. inverse d * ev (0 # cs) x + (- a / d) * ev cs x)"
    by (intro poly_fun_add poly_fun_scale poly_fun_pad) (auto simp: cs(1))
  then show ?thesis by (simp add: cs(2) field_simps diff_divide_distrib)
qed

lemma poly_fun_sum:
  assumes "\<And>i. i \<in> I \<Longrightarrow> poly_fun n (f i)"
  shows "poly_fun n (\<lambda>x. \<Sum>i\<in>I. f i x)"
  using assms by (induction I rule: infinite_finite_induct) (auto intro: poly_fun_zero poly_fun_add)

lemma poly_fun_prod:
  assumes "finite I"
  shows "poly_fun (Suc (card I)) (\<lambda>x. \<Prod>i\<in>I. (x - p i) / d i)"
  using assms
proof (induction I)
  case empty
  show ?case using poly_fun_pad [of "[1]" 1] by (simp add: poly_fun_def fun_eq_iff)
next
  case (insert i I)
  then show ?case using poly_fun_linear [OF insert.IH, of "p i" "d i"] by simp
qed

section \<open>Interpolation\<close>

definition interpolant :: "'i set \<Rightarrow> ('i \<Rightarrow> 'a::field) \<Rightarrow> ('i \<Rightarrow> 'a) \<Rightarrow> 'a \<Rightarrow> 'a" where
  "interpolant I x y X = (\<Sum>j\<in>I. y j * (\<Prod>m\<in>I - {j}. (X - x m) / (x j - x m)))"

lemma poly_fun_interpolant:
  assumes "finite I"
  shows "poly_fun (card I) (interpolant I x y)"
proof -
  have "poly_fun (card I) (\<lambda>X. y j * (\<Prod>m\<in>I - {j}. (X - x m) / (x j - x m)))" if "j \<in> I" for j
  proof -
    have "Suc (card (I - {j})) = card I" using assms that by (rule card_Suc_Diff1)
    then show ?thesis using poly_fun_scale [OF poly_fun_prod [of "I - {j}" x "\<lambda>m. x j - x m"]] assms
      by simp
  qed
  then show ?thesis unfolding interpolant_def by (rule poly_fun_sum)
qed

lemma interpolant_at:
  assumes "finite I" and "inj_on x I" and "i \<in> I"
  shows "interpolant I x y (x i) = y i"
proof -
  have "(\<Prod>m\<in>I - {j}. (x i - x m) / (x j - x m)) = (if j = i then 1 else 0)" if "j \<in> I" for j
  proof (cases "j = i")
    case True
    have "x i - x m \<noteq> 0" if "m \<in> I - {i}" for m
      using that assms(2,3) by (auto simp: inj_on_def)
    then show ?thesis using True by (simp add: prod.neutral)
  next
    case False
    then show ?thesis using assms(1,3) by (auto intro: prod_zero)
  qed
  then have "interpolant I x y (x i) = (\<Sum>j\<in>I. if j = i then y j else 0)"
    unfolding interpolant_def by (intro sum.cong) auto
  then show ?thesis using assms by simp
qed

theorem lagrange:
  assumes "finite I" and "inj_on x I" and "length cs \<le> card I"
  shows "ev cs X = interpolant I x (\<lambda>j. ev cs (x j)) X"
proof -
  let ?L = "interpolant I x (\<lambda>j. ev cs (x j))"
  have "poly_fun (card I) (\<lambda>X. ev cs X + (- 1) * ?L X)"
    by (intro poly_fun_add poly_fun_scale poly_fun_pad poly_fun_interpolant assms)
  then obtain ds where ds: "length ds = card I" "\<And>X. ev ds X = ev cs X - ?L X"
    by (auto simp: poly_fun_def fun_eq_iff)
  have "ev ds X = 0"
  proof (rule ev_too_many_roots)
    show "length ds \<le> card (x ` I)" using assms ds(1) by (simp add: card_image)
    show "ev ds a = 0" if "a \<in> x ` I" for a
      using that ds(2) interpolant_at [OF assms(1,2)] by auto
  qed (use assms in simp)
  then show ?thesis using ds(2) [of X] by simp
qed

end
