(* ===== verification/Threshold.thy ===== *)
theory Threshold
  imports Galois_Field Lagrange
begin

text \<open>
  Shamir secret sharing, core/utils/threshold.ts: \<open>splitSecret\<close> evaluates one random polynomial
  per secret byte at the points \<open>1 .. n\<close>, \<open>reconstructSecret\<close> interpolates at \<open>0\<close>. The random
  bytes of \<open>crypto.getRandomValues\<close> are the argument \<open>rnd\<close>: \<open>rnd i j\<close> is the byte written to
  position \<open>j + 1\<close> of the polynomial of secret byte \<open>i\<close>.
\<close>

section \<open>Operations\<close>

record share =
  index :: nat
  data :: "nat list"

definition sharePoly :: "nat \<Rightarrow> nat \<Rightarrow> (nat \<Rightarrow> nat) \<Rightarrow> nat list" where
  "sharePoly k s r = (if k = 0 then [] else s # map (\<lambda>j. r j mod 256) [0..<k - 1])"

definition evalPoly :: "nat list \<Rightarrow> nat \<Rightarrow> nat" where
  "evalPoly poly x = foldr (\<lambda>c y. multiply y x XOR c) poly 0"

definition splitSecret :: "nat list \<Rightarrow> nat \<Rightarrow> nat \<Rightarrow> (nat \<Rightarrow> nat \<Rightarrow> nat) \<Rightarrow> share list" where
  "splitSecret secret n k rnd = map (\<lambda>j. \<lparr>index = j + 1,
     data = map (\<lambda>i. evalPoly (sharePoly k (secret ! i) (rnd i)) (j + 1)) [0..<length secret]\<rparr>) [0..<n]"

text \<open>The innermost loop of \<open>reconstructSecret\<close>, over the shares' indices \<open>xs\<close>; its exit is the
  test for the last position, not the loop condition.\<close>

function basisLoop :: "nat list \<Rightarrow> nat \<Rightarrow> nat \<Rightarrow> nat \<Rightarrow> nat result" where
  "basisLoop xs j m basis = (if length xs \<le> m then Inl ''TypeError''
     else if j = m then (if m = length xs - 1 then Inr basis else basisLoop xs j (m + 1) basis)
     else case gf_divide (xs ! m) (xs ! j XOR xs ! m) of
       Inl e \<Rightarrow> Inl e
     | Inr q \<Rightarrow> (let basis' = multiply basis q in
         if m = length xs - 1 then Inr basis' else basisLoop xs j (m + 1) basis'))"
  by pat_completeness auto
termination
  by (relation "measure (\<lambda>(xs, j, m, basis). length xs - m)") auto

declare basisLoop.simps [simp del]

text \<open>A read past the end of a share's data is \<open>undefined\<close>, which the exclusive or reads as \<open>0\<close>.\<close>

definition byteAt :: "nat list \<Rightarrow> nat \<Rightarrow> nat" where
  "byteAt d i = (if i < length d then d ! i else 0)"

fun combineLoop :: "nat list \<Rightarrow> share list \<Rightarrow> nat \<Rightarrow> nat \<Rightarrow> nat \<Rightarrow> nat result" where
  "combineLoop xs [] i j r = Inr r"
| "combineLoop xs (s # ss) i j r = (case basisLoop xs j 0 1 of
     Inl e \<Rightarrow> Inl e
   | Inr basis \<Rightarrow> combineLoop xs ss i (j + 1) (r XOR multiply (byteAt (data s) i) basis))"

definition reconstructSecret :: "share list \<Rightarrow> nat list result" where
  "reconstructSecret shares = (case shares of [] \<Rightarrow> Inl ''TypeError''
     | s # _ \<Rightarrow> traverse (\<lambda>i. combineLoop (map index shares) shares i 0 0) [0..<length (data s)])"

section \<open>The loops compute in the field\<close>

lemma evalPoly_ev:
  assumes "x < 256" and "\<forall>c \<in> set poly. c < 256"
  shows "evalPoly poly x = byte_of (ev (map of_byte poly) (of_byte x))"
  using assms(2)
proof (induction poly)
  case Nil
  show ?case by (simp add: evalPoly_def byte_of_byte [of 0, simplified])
next
  case (Cons c poly)
  then show ?case using assms(1)
    by (simp add: evalPoly_def byte_of_xor byte_of_multiply multiply_commute xor.commute)
qed

lemma gf_divide_xor:
  assumes "a < 256" "b < 256" "a \<noteq> b"
  shows "gf_divide b (a XOR b) = Inr (byte_of (of_byte b / (of_byte a + of_byte b)))"
proof -
  have "a XOR b \<noteq> 0"
  proof
    assume "a XOR b = 0"
    then have "(a XOR b) XOR b = b" by simp
    then show False using assms(3) by (simp add: xor.assoc)
  qed
  moreover have "of_byte (a XOR b) = of_byte a + of_byte b"
    using assms by (simp add: xor_gf)
  ultimately show ?thesis
    using gf_divide_gf [of b "a XOR b"] assms xor_byte [OF assms(1,2)] by simp
qed

definition basisFactor :: "nat list \<Rightarrow> nat \<Rightarrow> nat \<Rightarrow> gf" where
  "basisFactor xs j m = of_byte (xs ! m) / (of_byte (xs ! j) + of_byte (xs ! m))"

lemma prod_from_split:
  assumes "m < n"
  shows "(\<Prod>i \<in> {m..<n} - {j}. f i) = (if m = j then 1 else f m) * (\<Prod>i \<in> {Suc m..<n} - {j}. (f i :: gf))"
proof -
  have "{m..<n} - {j} = (if m = j then {} else {m}) \<union> ({Suc m..<n} - {j})"
    using assms by auto
  then show ?thesis by (simp add: prod.union_disjoint)
qed

lemma basisLoop_value:
  assumes "\<forall>x \<in> set xs. x < 256" and "distinct xs" and "j < length xs" and "m < length xs"
    and "b < 256"
  shows "basisLoop xs j m b = Inr (byte_of (of_byte b * (\<Prod>i \<in> {m..<length xs} - {j}. basisFactor xs j i)))"
  using assms(4,5)
proof (induction "length xs - m" arbitrary: m b)
  case (Suc d)
  have IH: "basisLoop xs j (Suc m) b' =
      Inr (byte_of (of_byte b' * (\<Prod>i \<in> {Suc m..<length xs} - {j}. basisFactor xs j i)))"
    if "m \<noteq> length xs - 1" "b' < 256" for b'
    using that Suc.hyps(2) Suc.prems by (intro Suc.hyps(1)) auto
  show ?case
  proof (cases "j = m")
    case True
    then show ?thesis
      using Suc.prems IH prod_from_split [OF Suc.prems(1), of "basisFactor xs j" j]
      by (subst basisLoop.simps) (auto simp: byte_of_byte)
  next
    case False
    have div: "gf_divide (xs ! m) (xs ! j XOR xs ! m) = Inr (byte_of (basisFactor xs j m))"
      unfolding basisFactor_def using False assms(1-3) Suc.prems(1)
      by (intro gf_divide_xor) (auto simp: nth_eq_iff_index_eq)
    have "of_byte (multiply b (byte_of (basisFactor xs j m))) = of_byte b * basisFactor xs j m"
      using Suc.prems(2) by (simp add: multiply_gf)
    then show ?thesis
      using False Suc.prems IH prod_from_split [OF Suc.prems(1), of "basisFactor xs j" j]
      by (subst basisLoop.simps)
        (auto simp: div Let_def mult.assoc multiply_byte simp flip: of_byte_inject)
  qed
qed simp

lemma combineLoop_value:
  assumes "\<forall>x \<in> set xs. x < 256" and "distinct xs"
    and "\<forall>s \<in> set ss. \<forall>b \<in> set (data s). b < 256" and "j + length ss = length xs" and "r < 256"
  shows "combineLoop xs ss i j r = Inr (byte_of (of_byte r + (\<Sum>l<length ss.
     of_byte (byteAt (data (ss ! l)) i) * (\<Prod>m \<in> {0..<length xs} - {j + l}. basisFactor xs (j + l) m))))"
  using assms(3-5)
proof (induction ss arbitrary: j r)
  case (Cons s ss)
  let ?B = "\<lambda>j. \<Prod>m \<in> {0..<length xs} - {j}. basisFactor xs j m"
  have byte: "byteAt (data s) i < 256" using Cons.prems(1) by (simp add: byteAt_def)
  have basis: "basisLoop xs j 0 1 = Inr (byte_of (?B j))"
    using basisLoop_value [OF assms(1,2), of j 0 1] Cons.prems(2) by (force simp del: One_nat_def)
  let ?r = "r XOR multiply (byteAt (data s) i) (byte_of (?B j))"
  have "?r < 256" using Cons.prems(3) byte by (simp add: xor_byte multiply_byte)
  moreover have "of_byte ?r = of_byte r + of_byte (byteAt (data s) i) * ?B j"
    using Cons.prems(3) byte by (simp add: multiply_gf xor_gf)
  ultimately show ?case
    using Cons.IH [of "Suc j" ?r] Cons.prems basis
    by (simp add: sum.lessThan_Suc_shift add.assoc del: sum.lessThan_Suc)
qed simp

lemma combineLoop_interpolates:
  assumes "\<forall>x \<in> set (map index ss). x < 256" and "distinct (map index ss)" and "\<forall>c \<in> set cs. c < 256"
    and "length cs \<le> length ss" and "ss \<noteq> []" and "cs \<noteq> []"
    and "\<forall>s \<in> set ss. \<forall>b \<in> set (data s). b < 256"
    and "\<forall>s \<in> set ss. byteAt (data s) i = evalPoly cs (index s)"
  shows "combineLoop (map index ss) ss i 0 0 = Inr (hd cs)"
proof -
  let ?xs = "map index ss" and ?x = "\<lambda>j. of_byte (map index ss ! j)" and ?n = "length ss"
  have x: "?xs ! j < 256" if "j < ?n" for j using assms(1) that by simp
  have inj: "inj_on ?x {0..<?n}"
  proof (rule inj_onI)
    fix a b assume ab: "a \<in> {0..<?n}" "b \<in> {0..<?n}" "?x a = ?x b"
    then have "?xs ! a = ?xs ! b" using x [of a] x [of b] by (simp add: of_byte_inject)
    then show "a = b" using nth_eq_iff_index_eq [OF assms(2), of a b] ab(1,2) by simp
  qed
  have val: "of_byte (byteAt (data (ss ! l)) i) = ev (map of_byte cs) (?x l)" if "l < ?n" for l
    using assms(3,8) x [OF that] that by (simp add: evalPoly_ev)
  have "combineLoop ?xs ss i 0 0 = Inr (byte_of (\<Sum>l<?n.
      of_byte (byteAt (data (ss ! l)) i) * (\<Prod>m \<in> {0..<?n} - {l}. basisFactor ?xs l m)))"
    using combineLoop_value [OF assms(1,2,7), of 0 0 i] by simp
  also have "(\<Sum>l<?n. of_byte (byteAt (data (ss ! l)) i) * (\<Prod>m \<in> {0..<?n} - {l}. basisFactor ?xs l m))
      = interpolant {0..<?n} ?x (\<lambda>j. ev (map of_byte cs) (?x j)) 0"
    unfolding interpolant_def basisFactor_def by (intro sum.cong) (auto simp: val gf_minus_plus)
  also have "\<dots> = ev (map of_byte cs) 0"
    using lagrange [OF _ inj, of "map of_byte cs" 0] assms(4) by simp
  also have "\<dots> = of_byte (hd cs)" using assms(6) by (cases cs) auto
  finally show ?thesis using assms(3,6) by simp
qed

section \<open>Splitting\<close>

lemma sharePoly_bytes: "s < 256 \<Longrightarrow> c \<in> set (sharePoly k s r) \<Longrightarrow> c < 256"
  by (auto simp: sharePoly_def split: if_splits)

lemma evalPoly_byte: "x < 256 \<Longrightarrow> \<forall>c \<in> set poly. c < 256 \<Longrightarrow> evalPoly poly x < 256"
  by (simp add: evalPoly_ev)

lemma splitSecret_share:
  assumes "s \<in> set (splitSecret secret n k rnd)"
  shows "1 \<le> index s" "index s \<le> n"
    "data s = map (\<lambda>i. evalPoly (sharePoly k (secret ! i) (rnd i)) (index s)) [0..<length secret]"
  using assms by (auto simp: splitSecret_def)

lemma splitSecret_mem:
  assumes "1 \<le> index s" "index s \<le> n"
    "data s = map (\<lambda>i. evalPoly (sharePoly k (secret ! i) (rnd i)) (index s)) [0..<length secret]"
  shows "s \<in> set (splitSecret secret n k rnd)"
  unfolding splitSecret_def set_map
proof (rule image_eqI)
  show "index s - 1 \<in> set [0..<n]" using assms by auto
  show "s = \<lparr>index = index s - 1 + 1, data =
      map (\<lambda>i. evalPoly (sharePoly k (secret ! i) (rnd i)) (index s - 1 + 1)) [0..<length secret]\<rparr>"
    using assms by (intro share.equality) simp_all
qed

text \<open>
  C19: any \<open>k\<close> or more distinct shares of a secret reconstruct it. For up to 255 shares, whatever
  the random coefficients, every list of at least \<open>k\<close> shares with distinct indices taken
  from \<open>splitSecret secret n k\<close>, in any order, makes \<open>reconstructSecret\<close> return the secret, and
  no division by zero is reached.
\<close>

theorem threshold_reconstructs:
  assumes "\<forall>b \<in> set secret. b < 256" and "n \<le> 255" and "0 < k"
    and "set shares \<subseteq> set (splitSecret secret n k rnd)" and "distinct (map index shares)"
    and "k \<le> length shares"
  shows "reconstructSecret shares = Inr secret"
proof -
  have sh: "index s < 256"
    "data s = map (\<lambda>i. evalPoly (sharePoly k (secret ! i) (rnd i)) (index s)) [0..<length secret]"
    if "s \<in> set shares" for s
    using splitSecret_share [of s secret n k rnd] that assms(2,4) by auto
  have bytes: "\<forall>c \<in> set (sharePoly k (secret ! i) (rnd i)). c < 256" if "i < length secret" for i
    using that assms(1) sharePoly_bytes nth_mem by blast
  have "combineLoop (map index shares) shares i 0 0 = Inr (secret ! i)" if i: "i < length secret" for i
  proof -
    have "combineLoop (map index shares) shares i 0 0 = Inr (hd (sharePoly k (secret ! i) (rnd i)))"
    proof (rule combineLoop_interpolates)
      show "\<forall>s \<in> set shares. \<forall>b \<in> set (data s). b < 256"
      proof (intro ballI)
        fix s b assume s: "s \<in> set shares" and "b \<in> set (data s)"
        then obtain l where "l < length secret" "b = evalPoly (sharePoly k (secret ! l) (rnd l)) (index s)"
          using sh(2) [OF s] by auto
        then show "b < 256" using evalPoly_byte [OF sh(1) [OF s]] bytes by simp
      qed
      show "length (sharePoly k (secret ! i) (rnd i)) \<le> length shares"
        using assms(3,6) by (simp add: sharePoly_def)
      show "\<forall>s \<in> set shares. byteAt (data s) i = evalPoly (sharePoly k (secret ! i) (rnd i)) (index s)"
        using sh(2) i by (simp add: byteAt_def)
      show "\<forall>x \<in> set (map index shares). x < 256" using sh(1) by simp
      show "\<forall>c \<in> set (sharePoly k (secret ! i) (rnd i)). c < 256" by (rule bytes [OF i])
    qed (use assms(3,5,6) in \<open>auto simp: sharePoly_def\<close>)
    then show ?thesis using assms(3) by (simp add: sharePoly_def)
  qed
  then have "traverse (\<lambda>i. combineLoop (map index shares) shares i 0 0) [0..<length secret]
      = Inr (map ((!) secret) [0..<length secret])"
    by (intro traverse_total) auto
  moreover obtain s ss where ss: "shares = s # ss" using assms(3,6) by (cases shares) auto
  moreover have "length (data s) = length secret" using sh(2) [of s] ss by simp
  ultimately show ?thesis by (simp add: reconstructSecret_def map_nth)
qed


theorem threshold_reconstructs_witness:
  "reconstructSecret (rev (splitSecret [42, 7] 3 2 (\<lambda>i j. 90 + i))) = Inr [42, 7]"
  by (rule threshold_reconstructs [where n = 3 and k = 2 and rnd = "\<lambda>i j. 90 + i"])
    (auto simp: splitSecret_def upt_rec)

section \<open>Secrecy below the threshold\<close>

lemma coefficients_of:
  assumes "finite A" and "0 \<notin> A" and "card A < k"
  shows "\<exists>ds. length ds = k \<and> hd ds = y 0 \<and> (\<forall>a \<in> A. ev ds a = (y a :: gf))"
proof -
  let ?I = "insert 0 A"
  have card: "card ?I \<le> k" using assms by simp
  obtain cs where cs: "length cs = card ?I" "interpolant ?I id y = ev cs"
    using poly_fun_interpolant [of ?I id y] assms(1) by (auto simp: poly_fun_def)
  obtain ds where ds: "length ds = k" "ev cs = ev ds"
    using poly_fun_pad [of cs k] cs(1) card by (auto simp: poly_fun_def)
  have at: "ev ds a = y a" if "a \<in> ?I" for a
    using interpolant_at [of ?I id a y] that assms(1) cs(2) ds(2) by simp
  have "hd ds = ev ds 0" using ds(1) assms(3) by (cases ds) auto
  then show ?thesis using ds(1) at by auto
qed

lemma sharePoly_coefficients:
  assumes "length ds = k" and "0 < k" and "hd ds = of_byte s" and "s < 256"
  shows "map of_byte (sharePoly k s (\<lambda>j. byte_of (ds ! Suc j))) = ds"
proof (rule nth_equalityI)
  fix i assume "i < length (map of_byte (sharePoly k s (\<lambda>j. byte_of (ds ! Suc j))))"
  then show "map of_byte (sharePoly k s (\<lambda>j. byte_of (ds ! Suc j))) ! i = ds ! i"
    using assms by (cases i) (auto simp: sharePoly_def hd_conv_nth)
qed (use assms in \<open>simp add: sharePoly_def\<close>)

lemma below_threshold_byte:
  assumes "finite J" and "\<forall>j \<in> J. 0 < j \<and> j < 256" and "card J < k" and "s < 256"
    and "\<forall>j \<in> J. v j < 256"
  shows "\<exists>r. \<forall>j \<in> J. evalPoly (sharePoly k s r) j = v j"
proof -
  have inj: "inj_on of_byte J" using assms(2) by (auto simp: inj_on_def of_byte_inject)
  define y where "y a = (if a = 0 then of_byte s else of_byte (v (byte_of a)))" for a
  have nz: "of_byte j \<noteq> 0" if "j \<in> J" for j
    using assms(2) that of_byte_inject [of j 0] by auto
  obtain ds where ds: "length ds = k" "hd ds = y 0" "\<forall>a \<in> of_byte ` J. ev ds a = y a"
  proof -
    have "0 \<notin> of_byte ` J" using nz by force
    then show thesis
      using that coefficients_of [of "of_byte ` J" k y] assms(1,3) inj by (auto simp: card_image)
  qed
  let ?r = "\<lambda>j. byte_of (ds ! Suc j)"
  have "evalPoly (sharePoly k s ?r) j = v j" if j: "j \<in> J" for j
  proof -
    have "map of_byte (sharePoly k s ?r) = ds"
      using ds(1,2) assms(3,4) by (intro sharePoly_coefficients) (auto simp: y_def)
    then have "evalPoly (sharePoly k s ?r) j = byte_of (ev ds (of_byte j))"
      using evalPoly_ev [of j "sharePoly k s ?r"] assms(2,4) j sharePoly_bytes by auto
    then show ?thesis using ds(3) j nz [OF j] assms(2,5) by (simp add: y_def)
  qed
  then show ?thesis by blast
qed

text \<open>
  C21: fewer than \<open>k\<close> shares say nothing about the secret. Whatever shares of a secret are known,
  if there are fewer than \<open>k\<close> of them then for every other secret of the same length there are
  random coefficients with which \<open>splitSecret\<close> produces exactly the known shares.
\<close>

theorem threshold_hides:
  assumes "\<forall>b \<in> set secret. b < 256" and "\<forall>b \<in> set secret'. b < 256"
    and "length secret' = length secret" and "n \<le> 255"
    and "set known \<subseteq> set (splitSecret secret n k rnd)" and "length known < k"
  shows "\<exists>rnd'. set known \<subseteq> set (splitSecret secret' n k rnd')"
proof -
  let ?J = "index ` set known"
  define v where "v i j = evalPoly (sharePoly k (secret ! i) (rnd i)) j" for i j
  have sh: "1 \<le> index s" "index s \<le> n" "data s = map (\<lambda>i. v i (index s)) [0..<length secret]"
    if "s \<in> set known" for s
    using splitSecret_share [of s secret n k rnd] that assms(5) by (auto simp: v_def)
  have card: "card ?J < k"
    using card_image_le [of "set known" index] card_length [of known] assms(6) by simp
  have "\<exists>r. \<forall>j \<in> ?J. evalPoly (sharePoly k (secret' ! i) r) j = v i j" if "i < length secret" for i
  proof (rule below_threshold_byte)
    show "\<forall>j \<in> ?J. 0 < j \<and> j < 256" using sh assms(4) by force
    show "\<forall>j \<in> ?J. v i j < 256"
      unfolding v_def using that assms(1,4) sh(2) sharePoly_bytes [of "secret ! i"]
      by (fastforce intro!: evalPoly_byte)
  qed (use that assms(2,3) card in auto)
  then obtain r where r: "\<And>i. i < length secret \<Longrightarrow> \<forall>j \<in> ?J. evalPoly (sharePoly k (secret' ! i) (r i)) j = v i j"
    by metis
  have "s \<in> set (splitSecret secret' n k r)" if "s \<in> set known" for s
    using sh [OF that] r that assms(3) by (intro splitSecret_mem) auto
  then show ?thesis by blast
qed

theorem threshold_hides_witness:
  "\<exists>rnd'. set (take 1 (splitSecret [42] 3 2 (\<lambda>i j. 90))) \<subseteq> set (splitSecret [17] 3 2 rnd')"
  by (rule threshold_hides [where secret = "[42]" and rnd = "\<lambda>i j. 90"])
    (auto simp: splitSecret_def dest: in_set_takeD)

end
