(* ===== verification/Resilience.thy ===== *)
theory Resilience
  imports Prelude
begin

text \<open>
  core/utils/resilience.ts: the retry loop with exponential backoff and the circuit breaker. Calls
  of the breaker may overlap, since \<open>execute\<close> awaits the action between its test and its
  bookkeeping; the relation \<open>cb_step\<close> has one rule per atomic section of \<open>execute\<close>.
\<close>

section \<open>Retry\<close>

record retry_options =
  maxAttempts :: nat
  baseDelayMs :: nat
  maxDelayMs :: "nat option"
  factor :: "nat option"

record retry_wait =
  retry_error :: string
  retry_attempt :: nat
  retry_delay :: nat

text \<open>core/crypto_utils.ts: the random 32-bit value is the argument \<open>r\<close>.\<close>

definition secureRandomInt :: "nat \<Rightarrow> nat \<Rightarrow> nat \<Rightarrow> nat" where
  "secureRandomInt r lo hi = lo + r mod (hi - lo + 1)"

definition retryDelay :: "retry_options \<Rightarrow> nat \<Rightarrow> nat \<Rightarrow> nat" where
  "retryDelay opts r attempt =
    (let fac = (case factor opts of None \<Rightarrow> 2 | Some f \<Rightarrow> f);
         maxDelay = (case maxDelayMs opts of None \<Rightarrow> 30000 | Some m \<Rightarrow> m);
         delay = min maxDelay (baseDelayMs opts * fac ^ (attempt - 1))
     in delay + secureRandomInt r 0 (delay div 10))"

text \<open>\<open>act n\<close> is the outcome of the \<open>n\<close>-th call of the action, \<open>rnd n\<close> the random value drawn after
  it. The loop returns the result and the waits it went through, with what \<open>onRetry\<close> was told.\<close>

function retryLoop :: "(nat \<Rightarrow> 'a result) \<Rightarrow> retry_options \<Rightarrow> (nat \<Rightarrow> nat) \<Rightarrow> nat \<Rightarrow> string option
    \<Rightarrow> 'a result \<times> retry_wait list" where
  "retryLoop act opts rnd attempt lastError =
    (if maxAttempts opts < attempt
     then (Inl (case lastError of None \<Rightarrow> ''Retry failed after max attempts'' | Some e \<Rightarrow> e), [])
     else case act attempt of
       Inr v \<Rightarrow> (Inr v, [])
     | Inl e \<Rightarrow>
         (if attempt < maxAttempts opts
          then (let (res, ws) = retryLoop act opts rnd (attempt + 1) (Some e)
                in (res, \<lparr>retry_error = e, retry_attempt = attempt,
                         retry_delay = retryDelay opts (rnd attempt) attempt\<rparr> # ws))
          else retryLoop act opts rnd (attempt + 1) (Some e)))"
  by pat_completeness auto
termination
  by (relation "measure (\<lambda>(act, opts, rnd, attempt, e). Suc (maxAttempts opts) - attempt)") auto

declare retryLoop.simps [simp del]

definition retry :: "(nat \<Rightarrow> 'a result) \<Rightarrow> retry_options \<Rightarrow> (nat \<Rightarrow> nat) \<Rightarrow> 'a result \<times> retry_wait list" where
  "retry act opts rnd = retryLoop act opts rnd 1 None"

section \<open>Circuit breaker\<close>

datatype circuit_state = CLOSED | OPEN | HALF_OPEN

record breaker =
  failureThreshold :: nat
  resetTimeoutMs :: nat
  cstate :: circuit_state
  failureCount :: nat
  lastFailureTime :: "nat option"

definition new_breaker :: "nat \<Rightarrow> nat \<Rightarrow> breaker" where
  "new_breaker thr reset = \<lparr>failureThreshold = thr, resetTimeoutMs = reset, cstate = CLOSED,
     failureCount = 0, lastFailureTime = None\<rparr>"

definition open_message :: string where
  "open_message = ''Circuit breaker is OPEN. Request rejected for stability.''"

text \<open>The part of \<open>execute\<close> before the action is awaited; \<open>Inl\<close> is the early return.\<close>

definition admit :: "breaker \<Rightarrow> nat \<Rightarrow> breaker result" where
  "admit b now = (if cstate b = OPEN then
     (let t = (case lastFailureTime b of None \<Rightarrow> 0 | Some t \<Rightarrow> t) in
      if int now - int t > int (resetTimeoutMs b) then Inr (b\<lparr>cstate := HALF_OPEN\<rparr>)
      else Inl open_message)
     else Inr b)"

definition onSuccess :: "breaker \<Rightarrow> breaker" where
  "onSuccess b = b\<lparr>failureCount := 0, cstate := CLOSED\<rparr>"

definition onFailure :: "breaker \<Rightarrow> nat \<Rightarrow> breaker" where
  "onFailure b now = (let b' = b\<lparr>failureCount := failureCount b + 1, lastFailureTime := Some now\<rparr> in
     if failureThreshold b \<le> failureCount b' then b'\<lparr>cstate := OPEN\<rparr> else b')"

text \<open>\<open>execute\<close> when no other call overlaps: \<open>act\<close> is the outcome of the action, which ends at
  \<open>done\<close>. The last component says whether the action was called.\<close>

definition execute :: "breaker \<Rightarrow> nat \<Rightarrow> nat \<Rightarrow> 'a result \<Rightarrow> 'a result \<times> breaker \<times> bool" where
  "execute b now done act = (case admit b now of
     Inl e \<Rightarrow> (Inl e, b, False)
   | Inr b' \<Rightarrow> (case act of Inr v \<Rightarrow> (Inr v, onSuccess b', True) | Inl e \<Rightarrow> (Inl e, onFailure b' done, True)))"

datatype cb_event = Start nat | Succeed | Fail nat

text \<open>The breaker with the number of actions in flight.\<close>

inductive cb_step :: "breaker \<times> nat \<Rightarrow> cb_event \<Rightarrow> breaker \<times> nat \<Rightarrow> bool" where
  admitted: "admit b now = Inr b' \<Longrightarrow> cb_step (b, n) (Start now) (b', Suc n)"
| rejected: "admit b now = Inl e \<Longrightarrow> cb_step (b, n) (Start now) (b, n)"
| succeeded: "cb_step (b, Suc n) Succeed (onSuccess b, n)"
| failed: "cb_step (b, Suc n) (Fail now) (onFailure b now, n)"

inductive_cases cb_stepE [elim]: "cb_step s ev s'"

inductive cb_run :: "breaker \<times> nat \<Rightarrow> cb_event list \<Rightarrow> breaker \<times> nat \<Rightarrow> bool" where
  cb_nil: "cb_run s [] s"
| cb_snoc: "cb_run s evs s' \<Longrightarrow> cb_step s' ev s'' \<Longrightarrow> cb_run s (evs @ [ev]) s''"

code_pred (modes: i \<Rightarrow> i \<Rightarrow> o \<Rightarrow> bool) cb_step .

text \<open>What a log of the events says of the service: the failures after the last success, and
  when the last failure was.\<close>

definition trailing_failures :: "cb_event list \<Rightarrow> nat" where
  "trailing_failures evs = length (filter (\<lambda>e. case e of Fail _ \<Rightarrow> True | _ \<Rightarrow> False)
     (takeWhile (\<lambda>e. e \<noteq> Succeed) (rev evs)))"

fun last_failure :: "cb_event list \<Rightarrow> nat option" where
  "last_failure [] = None"
| "last_failure (e # evs) = (case last_failure evs of Some t \<Rightarrow> Some t
     | None \<Rightarrow> (case e of Fail t \<Rightarrow> Some t | _ \<Rightarrow> None))"

section \<open>Retry is correct\<close>

lemma retryDelay_bound:
  "retryDelay opts r a \<le> (let m = (case maxDelayMs opts of None \<Rightarrow> 30000 | Some m \<Rightarrow> m) in m + m div 10)"
proof -
  have "d + r mod Suc (d div 10) \<le> m + m div 10" if "d \<le> m" for d m :: nat
    using that mod_less_divisor [of "Suc (d div 10)" r] div_le_mono [OF that, of 10] by linarith
  then show ?thesis by (simp add: retryDelay_def secureRandomInt_def Let_def)
qed

text \<open>The loop that starts at attempt \<open>a\<close> returns the outcome of attempt \<open>b\<close>.\<close>

definition retry_outcome :: "(nat \<Rightarrow> 'a result) \<Rightarrow> retry_options \<Rightarrow> (nat \<Rightarrow> nat) \<Rightarrow> nat \<Rightarrow> nat
    \<Rightarrow> 'a result \<Rightarrow> retry_wait list \<Rightarrow> bool" where
  "retry_outcome act opts rnd a b res ws \<longleftrightarrow> a \<le> b \<and> b \<le> maxAttempts opts
     \<and> (\<forall>c \<in> {a..<b}. \<not> is_ok (act c)) \<and> (is_ok (act b) \<or> b = maxAttempts opts) \<and> res = act b
     \<and> map retry_attempt ws = [a..<b]
     \<and> (\<forall>w \<in> set ws. Inl (retry_error w) = act (retry_attempt w)
         \<and> retry_delay w = retryDelay opts (rnd (retry_attempt w)) (retry_attempt w))"

lemma retry_outcome_last: "retry_outcome act opts rnd (maxAttempts opts) (maxAttempts opts) (act (maxAttempts opts)) []"
  by (simp add: retry_outcome_def)

lemma retry_outcome_ok: "a \<le> maxAttempts opts \<Longrightarrow> is_ok (act a) \<Longrightarrow> retry_outcome act opts rnd a a (act a) []"
  by (simp add: retry_outcome_def)

lemma retry_outcome_step:
  assumes "retry_outcome act opts rnd (Suc a) b res ws" and "act a = Inl e"
  shows "retry_outcome act opts rnd a b res (\<lparr>retry_error = e, retry_attempt = a,
    retry_delay = retryDelay opts (rnd a) a\<rparr> # ws)"
proof -
  have ab: "Suc a \<le> b" using assms(1) by (simp add: retry_outcome_def)
  then have "\<not> is_ok (act c)" if "c \<in> {a..<b}" for c
    using that assms by (cases "c = a") (auto simp: retry_outcome_def)
  then show ?thesis using assms ab by (auto simp: retry_outcome_def upt_conv_Cons)
qed

lemma retryLoop_spec:
  assumes "retryLoop act opts rnd a lastError = (res, ws)" and "a \<le> maxAttempts opts"
  shows "\<exists>b. retry_outcome act opts rnd a b res ws"
  using assms
proof (induction "maxAttempts opts - a" arbitrary: a lastError res ws)
  case 0
  then have a: "a = maxAttempts opts" by simp
  have "retryLoop act opts rnd a lastError = (act a, [])"
    using a by (subst retryLoop.simps, subst retryLoop.simps) (auto split: sum.splits)
  then show ?case using 0 a retry_outcome_last by auto
next
  case (Suc d)
  then have lt: "a < maxAttempts opts" by simp
  show ?case
  proof (cases "act a")
    case (Inr v)
    then have "retryLoop act opts rnd a lastError = (act a, [])"
      using lt by (subst retryLoop.simps) auto
    then show ?thesis using Suc.prems Inr retry_outcome_ok [of a opts act] lt by auto
  next
    case (Inl e)
    obtain res' ws' where rec: "retryLoop act opts rnd (Suc a) (Some e) = (res', ws')" by fastforce
    have eq: "res = res'" "ws = \<lparr>retry_error = e, retry_attempt = a, retry_delay = retryDelay opts (rnd a) a\<rparr> # ws'"
      using Suc.prems lt Inl rec by (auto simp: retryLoop.simps [of act opts rnd a])
    show ?thesis
      using Suc.hyps(1) [OF _ rec] Suc.hyps(2) lt retry_outcome_step [where e = e and act = act and a = a] Inl
      by (fastforce simp: eq)
  qed
qed

text \<open>
  Retry calls the action until its first success or the attempt limit, never throws, and waits
  a bounded time between attempts. The result is that of attempt \<open>b\<close>, all attempts before \<open>b\<close>
  failed, \<open>b\<close> succeeded or is the last one allowed, there was exactly one wait after each earlier
  attempt, and no wait exceeds the maximal delay by more than a tenth.
\<close>

lemma retry_first_success:
  assumes "retry act opts rnd = (res, ws)" and "1 \<le> maxAttempts opts"
    and "m = (case maxDelayMs opts of None \<Rightarrow> 30000 | Some m \<Rightarrow> m)"
  shows "\<exists>b. 1 \<le> b \<and> b \<le> maxAttempts opts \<and> (\<forall>c \<in> {1..<b}. \<not> is_ok (act c)) \<and>
      (is_ok (act b) \<or> b = maxAttempts opts) \<and> res = act b \<and> map retry_attempt ws = [1..<b] \<and>
      (\<forall>w \<in> set ws. Inl (retry_error w) = act (retry_attempt w) \<and> retry_delay w \<le> m + m div 10)"
proof -
  have "retryDelay opts r a \<le> m + m div 10" for r a
    using retryDelay_bound [of opts r a] assms(3) by (simp add: Let_def)
  moreover obtain b where "retry_outcome act opts rnd 1 b res ws"
    using retryLoop_spec [OF assms(1) [unfolded retry_def] assms(2)] by blast
  ultimately show ?thesis by (intro exI [of _ b]) (simp add: retry_outcome_def)
qed

section \<open>The breaker counts the failures since the last success\<close>

lemma trailing_failures_snoc [simp]:
  "trailing_failures [] = 0"
  "trailing_failures (evs @ [Start t]) = trailing_failures evs"
  "trailing_failures (evs @ [Succeed]) = 0"
  "trailing_failures (evs @ [Fail t]) = Suc (trailing_failures evs)"
  by (simp_all add: trailing_failures_def)

lemma last_failure_append: "last_failure (xs @ ys) = (case last_failure ys of Some t \<Rightarrow> Some t | None \<Rightarrow> last_failure xs)"
  by (induction xs) (auto split: option.splits)

lemma last_failure_snoc [simp]:
  "last_failure (evs @ [Start t]) = last_failure evs"
  "last_failure (evs @ [Succeed]) = last_failure evs"
  "last_failure (evs @ [Fail t]) = Some t"
  by (simp_all add: last_failure_append)

definition cb_inv :: "nat \<Rightarrow> nat \<Rightarrow> cb_event list \<Rightarrow> breaker \<Rightarrow> bool" where
  "cb_inv thr reset evs b \<longleftrightarrow> failureThreshold b = thr \<and> resetTimeoutMs b = reset
     \<and> failureCount b = trailing_failures evs \<and> lastFailureTime b = last_failure evs
     \<and> (cstate b = CLOSED \<longleftrightarrow> failureCount b < thr)"

lemma cb_step_inv:
  assumes "cb_step s ev s'" and "cb_inv thr reset evs (fst s)" and "0 < thr"
  shows "cb_inv thr reset (evs @ [ev]) (fst s')"
  using assms by cases
    (auto simp: cb_inv_def admit_def onSuccess_def onFailure_def Let_def split: if_splits)

lemma cb_run_inv:
  assumes "cb_run (new_breaker thr reset, 0) evs s'" and "0 < thr"
  shows "cb_inv thr reset evs (fst s')"
  using assms
proof (induction "(new_breaker thr reset, 0 :: nat)" evs s' rule: cb_run.induct)
  case cb_nil
  then show ?case by (simp add: cb_inv_def new_breaker_def)
qed (auto intro: cb_step_inv)

text \<open>
  C22: the breaker is a function of the log of events, however calls overlap. In every run from a
  new breaker it is closed exactly when the failures recorded since the last recorded success
  are fewer than the threshold; and while it is open, a call that starts within the reset timeout
  of the last recorded failure is rejected without calling the action and leaves the breaker
  as it was.
\<close>

theorem breaker_tracks_failures:
  assumes "cb_run (new_breaker thr reset, 0) evs (b, n)" and "0 < thr"
  shows "(cstate b = CLOSED \<longleftrightarrow> trailing_failures evs < thr) \<and>
    (cstate b = OPEN \<longrightarrow> last_failure evs = Some t \<longrightarrow> now \<le> t + reset \<longrightarrow>
       execute b now done act = (Inl open_message, b, False))"
  using cb_run_inv [OF assms] by (simp add: cb_inv_def execute_def admit_def)

theorem breaker_tracks_failures_witness:
  "\<exists>b n. cb_run (new_breaker 2 100, 0) [Start 1, Start 2, Fail 5, Fail 9] (b, n) \<and> cstate b = OPEN
     \<and> execute b 109 110 (Inr (0 :: nat)) = (Inl open_message, b, False)"
proof -
  let ?n = "new_breaker 2 100" and ?b = "\<lparr>failureThreshold = 2, resetTimeoutMs = 100, cstate = OPEN, failureCount = 2, lastFailureTime = Some 9\<rparr>"
  have "cb_run (new_breaker 2 100, 0) ((([] @ [Start 1]) @ [Start 2]) @ [Fail 5]) (onFailure (new_breaker 2 100) 5, 1)"
    using cb_snoc [OF cb_snoc [OF cb_snoc [OF cb_nil admitted [of ?n 1 ?n 0]] admitted [of ?n 2 ?n]] failed]
    by (simp add: admit_def new_breaker_def)
  then have run: "cb_run (new_breaker 2 100, 0) [Start 1, Start 2, Fail 5, Fail 9] (?b, 0)"
    using cb_snoc [OF _ failed [of "onFailure (new_breaker 2 100) 5" 0 9], of "(?n, 0)" "[Start 1, Start 2, Fail 5]"]
    by (simp add: onFailure_def new_breaker_def numeral_2_eq_2)
  then show ?thesis
    using breaker_tracks_failures [OF run, of 9 109 110 "Inr (0 :: nat)"] by auto
qed

text \<open>An action that was in flight when the breaker opened closes it again when it succeeds,
  before the reset timeout is over.\<close>

lemma late_success_closes:
  assumes "cb_run (new_breaker thr reset, 0) evs (b, Suc n)" and "cstate b = OPEN"
  shows "\<exists>b'. cb_run (new_breaker thr reset, 0) (evs @ [Succeed]) (b', n) \<and> cstate b' = CLOSED"
  using cb_snoc [OF assms(1) succeeded] by (auto simp: onSuccess_def intro!: exI [of _ "onSuccess b"])

end
