(* ===== verification/Json.thy ===== *)
theory Json
  imports Prelude "HOL-Library.List_Lexorder"
begin

text \<open>
  JSON values and their canonical form, core/crypto_utils.ts: \<open>canonicalStringify\<close> with its depth
  and breadth limits, and \<open>computeHash\<close> over a digest that is a parameter. The canonical string
  is shown to determine the value up to the order of object entries.

  A number is represented by the text \<open>Number.prototype.toString\<close> gives for it, which determines
  a finite number. An object is the list of its entries in insertion order.
\<close>

section \<open>Values and JSON.stringify\<close>

datatype json = JNull | JUndef | JBool bool | JNum string | JStr string
  | JArr "json list" | JObj "(string \<times> json) list"

definition hexDigit :: "nat \<Rightarrow> char" where
  "hexDigit n = ''0123456789abcdef'' ! n"

text \<open>The escapes of \<open>JSON.stringify\<close> on one byte of a string.\<close>

definition escapeChar :: "char \<Rightarrow> string" where
  "escapeChar c =
    (if c = CHR 0x22 then [CHR 0x5C, CHR 0x22]
     else if c = CHR 0x5C then [CHR 0x5C, CHR 0x5C]
     else if c = CHR 0x08 then [CHR 0x5C, CHR ''b'']
     else if c = CHR 0x0C then [CHR 0x5C, CHR ''f'']
     else if c = CHR 0x0A then [CHR 0x5C, CHR ''n'']
     else if c = CHR 0x0D then [CHR 0x5C, CHR ''r'']
     else if c = CHR 0x09 then [CHR 0x5C, CHR ''t'']
     else if byte c < 32 then
       [CHR 0x5C, CHR ''u'', CHR ''0'', CHR ''0'', hexDigit (byte c div 16), hexDigit (byte c mod 16)]
     else [c])"

definition quote :: "string \<Rightarrow> string" where
  "quote s = CHR 0x22 # concat (map escapeChar s) @ [CHR 0x22]"

text \<open>\<open>JSON.stringify\<close> on a value that is not an object; \<^const>\<open>None\<close> is \<open>undefined\<close>.\<close>

fun stringifyScalar :: "json \<Rightarrow> string option" where
  "stringifyScalar JNull = Some ''null''"
| "stringifyScalar JUndef = None"
| "stringifyScalar (JBool b) = Some (if b then ''true'' else ''false'')"
| "stringifyScalar (JNum t) = Some t"
| "stringifyScalar (JStr s) = Some (quote s)"
| "stringifyScalar (JArr xs) = None"
| "stringifyScalar (JObj es) = None"

section \<open>The canonical form\<close>

definition MAX_DEPTH :: nat where "MAX_DEPTH = 10"
definition MAX_BREADTH :: nat where "MAX_BREADTH = 100"

text \<open>\<open>Object.keys(record).sort()\<close>: by UTF-16 code units.\<close>

definition sortEntries :: "(string \<times> 'a) list \<Rightarrow> (string \<times> 'a) list" where
  "sortEntries = sort_key (\<lambda>e. char_codes (fst e))"

text \<open>\<open>undefined\<close> is the empty string for \<open>join\<close>, and its name in a template literal.\<close>

definition joinText :: "string option \<Rightarrow> string" where
  "joinText o' = (case o' of None \<Rightarrow> [] | Some s \<Rightarrow> s)"

definition templateText :: "string option \<Rightarrow> string" where
  "templateText o' = (case o' of None \<Rightarrow> ''undefined'' | Some s \<Rightarrow> s)"

function canonicalStringify :: "nat \<Rightarrow> json \<Rightarrow> string option result" where
  "canonicalStringify depth v =
    (if MAX_DEPTH < depth then Inl ''Serialization Error: Max recursion depth (10) exceeded.''
     else case v of
       JArr xs \<Rightarrow>
         (if MAX_BREADTH < length xs then Inl ''Serialization Error: Max array breadth (100) exceeded.''
          else case traverse (\<lambda>x. canonicalStringify (depth + 1) x) xs of
            Inl e \<Rightarrow> Inl e
          | Inr ts \<Rightarrow> Inr (Some (''['' @ join_with '','' (map joinText ts) @ '']'')))
     | JObj es \<Rightarrow>
         (if MAX_BREADTH < length es then Inl ''Serialization Error: Max object breadth (100) exceeded.''
          else case traverse (\<lambda>(k, x). case canonicalStringify (depth + 1) x of
                   Inl e \<Rightarrow> Inl e | Inr t \<Rightarrow> Inr (quote k @ '':'' @ templateText t)) (sortEntries es) of
            Inl e \<Rightarrow> Inl e
          | Inr ts \<Rightarrow> Inr (Some (''{'' @ join_with '','' ts @ ''}'')))
     | _ \<Rightarrow> Inr (stringifyScalar v))"
  by pat_completeness auto
termination
  by (relation "measure (\<lambda>(depth, v). Suc MAX_DEPTH - depth)") auto

declare canonicalStringify.simps [simp del]

text \<open>\<open>computeHash\<close>: \<open>digest\<close> is the hexadecimal SHA-256 of the encoded bytes. \<open>TextEncoder.encode\<close>
  of \<open>undefined\<close> is empty.\<close>

definition computeHash :: "(string \<Rightarrow> string) \<Rightarrow> json \<Rightarrow> string result" where
  "computeHash digest v = (case canonicalStringify 0 v of
     Inl e \<Rightarrow> Inl e | Inr t \<Rightarrow> Inr (digest (joinText t)))"

section \<open>Quoted strings are read back uniquely\<close>

definition hexValue :: "char \<Rightarrow> nat" where
  "hexValue c = (if byte c < 58 then byte c - 48 else byte c - 87)"

fun readChar :: "string \<Rightarrow> (char \<times> string) option" where
  "readChar [] = None"
| "readChar (c # r) =
    (if c \<noteq> CHR 0x5C then Some (c, r)
     else case r of
       [] \<Rightarrow> None
     | d # r' \<Rightarrow>
        (if d = CHR ''b'' then Some (CHR 0x08, r') else if d = CHR ''f'' then Some (CHR 0x0C, r')
         else if d = CHR ''n'' then Some (CHR 0x0A, r') else if d = CHR ''r'' then Some (CHR 0x0D, r')
         else if d = CHR ''t'' then Some (CHR 0x09, r')
         else if d = CHR ''u'' then
           Some (char_of (hexValue (r' ! 2) * 16 + hexValue (r' ! 3)), drop 4 r')
         else Some (d, r')))"

lemma hexValue_hexDigit: "n < 16 \<Longrightarrow> hexValue (hexDigit n) = n"
proof -
  have "list_all (\<lambda>n. hexValue (hexDigit n) = n) [0..<16]" by code_simp
  then show "n < 16 \<Longrightarrow> hexValue (hexDigit n) = n" by (simp add: list_all_iff)
qed

lemma readChar_escapeChar: "readChar (escapeChar c @ r) = Some (c, r)"
proof (cases "escapeChar c = [c]")
  case True
  then have "c \<noteq> CHR 0x5C" by (auto simp: escapeChar_def)
  with True show ?thesis by simp
next
  case False
  show ?thesis
  proof (cases "c \<in> set [CHR 0x22, CHR 0x5C, CHR 0x08, CHR 0x0C, CHR 0x0A, CHR 0x0D, CHR 0x09]")
    case True
    then show ?thesis by (auto simp: escapeChar_def)
  next
    case nf: False
    then have "byte c < 32" using False by (auto simp: escapeChar_def split: if_splits)
    moreover from this have "hexValue (hexDigit (byte c div 16)) * 16 + hexValue (hexDigit (byte c mod 16)) = byte c"
      by (simp add: hexValue_hexDigit)
    ultimately show ?thesis using nf by (simp add: escapeChar_def)
  qed
qed

lemma escapeChar_hd: "escapeChar c \<noteq> []" "hd (escapeChar c) \<noteq> CHR 0x22"
  by (auto simp: escapeChar_def)

lemma escaped_not_quote: "concat (map escapeChar (c # s)) @ r \<noteq> CHR 0x22 # r'"
  using escapeChar_hd [of c] by (cases "escapeChar c") auto

lemma escaped_unique:
  "concat (map escapeChar s) @ CHR 0x22 # r = concat (map escapeChar t) @ CHR 0x22 # r' \<Longrightarrow> s = t \<and> r = r'"
proof (induction s arbitrary: t)
  case Nil
  show ?case
  proof (cases t)
    case (Cons d t')
    then show ?thesis using Nil escaped_not_quote [of d t' "CHR 0x22 # r'" r] by simp
  qed (use Nil in simp)
next
  case (Cons c s)
  show ?case
  proof (cases t)
    case Nil
    then show ?thesis using Cons.prems escaped_not_quote [of c s "CHR 0x22 # r" r'] by simp
  next
    case t: (Cons d t')
    let ?rest = "\<lambda>s r. concat (map escapeChar s) @ CHR 0x22 # r"
    have "escapeChar c @ ?rest s r = escapeChar d @ ?rest t' r'" using Cons.prems t by simp
    then have "readChar (escapeChar c @ ?rest s r) = readChar (escapeChar d @ ?rest t' r')" by (rule arg_cong)
    then have cd: "c = d" and rest: "?rest s r = ?rest t' r'" by (simp_all only: readChar_escapeChar option.inject prod.inject)
    show ?thesis using Cons.IH [OF rest] cd t by simp
  qed
qed

lemma quote_unique: "quote s @ r = quote t @ r' \<Longrightarrow> s = t \<and> r = r'"
  using escaped_unique [of s r t r'] by (simp add: quote_def)

section \<open>Lists of texts\<close>

definition closes :: "string \<Rightarrow> bool" where
  "closes r \<longleftrightarrow> r = [] \<or> hd r \<in> {CHR '','', CHR '']'', CHR ''}''}"

definition readable :: "string set \<Rightarrow> string set \<Rightarrow> bool" where
  "readable A B \<longleftrightarrow> (\<forall>s \<in> A. \<forall>t \<in> B. \<forall>r r'. closes r \<longrightarrow> closes r' \<longrightarrow> s @ r = t @ r' \<longrightarrow> s = t)"

definition opens :: "string \<Rightarrow> bool" where
  "opens s \<longleftrightarrow> s \<noteq> [] \<and> \<not> closes s"

fun seqTail :: "char \<Rightarrow> string list \<Rightarrow> string \<Rightarrow> string" where
  "seqTail c [] r = c # r"
| "seqTail c (s # ss) r = CHR '','' # s @ seqTail c ss r"

lemma join_seqTail: "join_with '','' (s # ss) @ c # r = s @ seqTail c ss r"
  by (induction ss arbitrary: s) auto

lemma closes_seqTail: "c \<in> {CHR '']'', CHR ''}''} \<Longrightarrow> closes (seqTail c ss r)"
  by (cases ss) (auto simp: closes_def)

lemma readable_mono: "readable A B \<Longrightarrow> A' \<subseteq> A \<Longrightarrow> B' \<subseteq> B \<Longrightarrow> readable A' B'"
  unfolding readable_def by blast

lemma readableD:
  "readable A B \<Longrightarrow> s \<in> A \<Longrightarrow> t \<in> B \<Longrightarrow> closes r \<Longrightarrow> closes r' \<Longrightarrow> s @ r = t @ r' \<Longrightarrow> s = t \<and> r = r'"
  unfolding readable_def by (metis same_append_eq)

lemma seqTail_unique:
  assumes "readable (set ss) (set ts)" and "c \<in> {CHR '']'', CHR ''}''}"
    and "seqTail c ss r = seqTail c ts r'"
  shows "ss = ts \<and> r = r'"
  using assms(1,3)
proof (induction ss arbitrary: ts)
  case Nil
  then show ?case using assms(2) by (cases ts) auto
next
  case (Cons s ss)
  then obtain t ts' where ts: "ts = t # ts'" using assms(2) by (cases ts) auto
  have "s = t \<and> seqTail c ss r = seqTail c ts' r'"
    using Cons.prems ts by (intro readableD [OF Cons.prems(1)] closes_seqTail [OF assms(2)]) auto
  moreover have "readable (set ss) (set ts')"
    using Cons.prems(1) ts by (auto intro: readable_mono)
  ultimately show ?case using Cons.IH [of ts'] ts by simp
qed

lemma join_unique:
  assumes "readable (set ss) (set ts)" and "c \<in> {CHR '']'', CHR ''}''}"
    and "\<forall>s \<in> set ss \<union> set ts. opens s"
    and "join_with '','' ss @ c # r = join_with '','' ts @ c # r'"
  shows "ss = ts \<and> r = r'"
proof (cases ss; cases ts)
  fix s ss' t ts' assume eq: "ss = s # ss'" "ts = t # ts'"
  have "s @ seqTail c ss' r = t @ seqTail c ts' r'"
    using assms(4) unfolding eq join_seqTail .
  then have "s = t \<and> seqTail c ss' r = seqTail c ts' r'"
    using eq by (intro readableD [OF assms(1)] closes_seqTail [OF assms(2)]) auto
  moreover have "readable (set ss') (set ts')" using assms(1) eq by (auto intro: readable_mono)
  ultimately show ?thesis using seqTail_unique [OF _ assms(2)] eq by blast
next
  fix t ts' assume eq: "ss = []" "ts = t # ts'"
  obtain x xs where "t = x # xs" using assms(3) eq by (cases t) (auto simp: opens_def)
  then have "c = x" using assms(4) unfolding eq join_seqTail by simp
  then show ?thesis using assms(2,3) eq \<open>t = x # xs\<close> by (auto simp: opens_def closes_def)
next
  fix s ss' assume eq: "ss = s # ss'" "ts = []"
  obtain x xs where "s = x # xs" using assms(3) eq by (cases s) (auto simp: opens_def)
  then have "c = x" using assms(4) unfolding eq join_seqTail by simp
  then show ?thesis using assms(2,3) eq \<open>s = x # xs\<close> by (auto simp: opens_def closes_def)
qed (use assms(4) in auto)

section \<open>The canonical string determines the value\<close>

text \<open>Well-formed values: numbers are finite, keys are distinct, arrays have no \<open>undefined\<close>
  element (\<open>[undefined]\<close> and \<open>[]\<close> have the same canonical string).\<close>

fun wf_json :: "json \<Rightarrow> bool" where
  "wf_json (JNum t) \<longleftrightarrow> t \<noteq> [] \<and> set t \<subseteq> set ''0123456789+-.eE''"
| "wf_json (JArr xs) \<longleftrightarrow> (\<forall>x \<in> set xs. x \<noteq> JUndef \<and> wf_json x)"
| "wf_json (JObj es) \<longleftrightarrow> distinct (map fst es) \<and> (\<forall>e \<in> set es. wf_json (snd e))"
| "wf_json _ \<longleftrightarrow> True"

fun canon :: "json \<Rightarrow> json" where
  "canon (JArr xs) = JArr (map canon xs)"
| "canon (JObj es) = JObj (sortEntries (map (\<lambda>(k, v). (k, canon v)) es))"
| "canon v = v"

lemma insort_key_map_snd:
  "insort_key (\<lambda>e. f (fst e)) (fst x, g (snd x)) (map (\<lambda>e. (fst e, g (snd e))) xs)
    = map (\<lambda>e. (fst e, g (snd e))) (insort_key (\<lambda>e. f (fst e)) x xs)"
  by (induction xs) auto

lemma sortEntries_map_snd:
  "sortEntries (map (\<lambda>(k, v). (k, g v)) es) = map (\<lambda>(k, v). (k, g v)) (sortEntries es)"
  by (induction es) (simp_all add: sortEntries_def case_prod_beta insort_key_map_snd)

lemma set_sortEntries [simp]: "set (sortEntries es) = set es"
  by (simp add: sortEntries_def)

definition renders :: "nat \<Rightarrow> json \<Rightarrow> string \<Rightarrow> bool" where
  "renders d v s \<longleftrightarrow> (\<exists>t. canonicalStringify d v = Inr t \<and> s = templateText t)"

definition entryText :: "nat \<Rightarrow> string \<times> json \<Rightarrow> string \<Rightarrow> bool" where
  "entryText d e u \<longleftrightarrow> (\<exists>s. renders d (snd e) s \<and> u = quote (fst e) @ '':'' @ s)"

lemma canonicalStringify_undefined: "canonicalStringify d v = Inr None \<Longrightarrow> v = JUndef"
  by (cases v) (auto simp: canonicalStringify.simps [of d] split: if_splits sum.splits)

lemma renders_array:
  assumes "renders d (JArr xs) s" and "JUndef \<notin> set xs"
  shows "\<exists>ss. list_all2 (renders (Suc d)) xs ss \<and> s = CHR ''['' # join_with '','' ss @ [CHR '']'']"
proof -
  obtain ts where ts: "traverse (canonicalStringify (Suc d)) xs = Inr ts"
    "s = CHR ''['' # join_with '','' (map joinText ts) @ [CHR '']'']"
    using assms(1) by (auto simp: renders_def canonicalStringify.simps [of d] templateText_def split: if_splits sum.splits)
  have "renders (Suc d) (xs ! i) (joinText (ts ! i))" if "i < length xs" for i
  proof -
    have t: "canonicalStringify (Suc d) (xs ! i) = Inr (ts ! i)"
      using traverse_Inr [OF ts(1)] that by simp
    moreover have "ts ! i \<noteq> None"
      using canonicalStringify_undefined [of "Suc d" "xs ! i"] t that assms(2) by (metis nth_mem)
    ultimately show ?thesis by (auto simp: renders_def templateText_def joinText_def)
  qed
  then show ?thesis
    using ts traverse_Inr [OF ts(1)] by (intro exI [of _ "map joinText ts"]) (simp add: list_all2_conv_all_nth)
qed

lemma renders_object:
  assumes "renders d (JObj es) s"
  shows "\<exists>ss. list_all2 (entryText (Suc d)) (sortEntries es) ss \<and> s = CHR ''{'' # join_with '','' ss @ [CHR ''}'']"
proof -
  let ?f = "\<lambda>(k, x). case canonicalStringify (Suc d) x of Inl e \<Rightarrow> Inl e
    | Inr t \<Rightarrow> Inr (quote k @ '':'' @ templateText t)"
  obtain ss where ss: "traverse ?f (sortEntries es) = Inr ss" "s = CHR ''{'' # join_with '','' ss @ [CHR ''}'']"
    using assms by (auto simp: renders_def canonicalStringify.simps [of d] templateText_def split: if_splits sum.splits)
  have "entryText (Suc d) e u" if "?f e = Inr u" for e u
    using that by (auto simp: entryText_def renders_def split: sum.splits prod.splits)
  then show ?thesis
    using ss traverse_Inr [OF ss(1)] by (intro exI [of _ ss]) (simp add: list_all2_conv_all_nth)
qed

text \<open>The first character of a text tells the kind of its value.\<close>

fun lead :: "json \<Rightarrow> char set" where
  "lead JNull = {CHR ''n''}"
| "lead JUndef = {CHR ''u''}"
| "lead (JBool b) = {if b then CHR ''t'' else CHR ''f''}"
| "lead (JNum t) = set ''0123456789+-.eE''"
| "lead (JStr s) = {CHR 0x22}"
| "lead (JArr xs) = {CHR ''[''}"
| "lead (JObj es) = {CHR ''{''}"

lemma renders_scalar:
  "renders d JNull s \<Longrightarrow> s = ''null''" "renders d JUndef s \<Longrightarrow> s = ''undefined''"
  "renders d (JBool b) s \<Longrightarrow> s = (if b then ''true'' else ''false'')" "renders d (JNum t) s \<Longrightarrow> s = t"
  "renders d (JStr u) s \<Longrightarrow> s = quote u"
  by (auto simp: renders_def canonicalStringify.simps [of d] templateText_def split: if_splits)

lemma renders_lead:
  assumes "renders d v s" and "wf_json v"
  shows "s \<noteq> [] \<and> hd s \<in> lead v"
proof (cases v)
  case (JNum t)
  then show ?thesis using assms renders_scalar(4) [of d t s] by (cases t) auto
next
  case (JArr xs)
  then show ?thesis using assms renders_array [of d xs s] by force
next
  case (JObj es)
  then show ?thesis using assms renders_object [of d es s] by auto
next
  case (JStr u)
  then show ?thesis using assms renders_scalar(5) [of d u s] by (simp add: quote_def)
qed (use assms in \<open>auto dest!: renders_scalar split: if_splits\<close>)

lemma renders_opens: "renders d v s \<Longrightarrow> wf_json v \<Longrightarrow> opens s"
  using renders_lead [of d v s] by (cases v) (auto simp: opens_def closes_def split: if_splits)

lemma entryText_opens: "entryText d e u \<Longrightarrow> opens u"
  by (auto simp: entryText_def opens_def closes_def quote_def)

lemma number_text_unique:
  assumes "set s \<subseteq> set ''0123456789+-.eE''" and "set t \<subseteq> set ''0123456789+-.eE''"
    and "closes r" and "closes r'" and "s @ r = t @ r'"
  shows "s = t"
proof -
  let ?P = "\<lambda>c. c \<in> set ''0123456789+-.eE''"
  have stop: "takeWhile ?P r = []" if "closes r" for r
    using that by (cases r) (auto simp: closes_def)
  have "takeWhile ?P (s @ r) = s" "takeWhile ?P (t @ r') = t"
    using assms(1,2) stop [OF assms(3)] stop [OF assms(4)]
    by (auto simp: takeWhile_append2 subset_iff)
  then show ?thesis using assms(5) by simp
qed

definition determined :: "nat \<Rightarrow> bool" where
  "determined d \<longleftrightarrow> (\<forall>v w s t r r'. renders d v s \<longrightarrow> renders d w t \<longrightarrow> wf_json v \<longrightarrow> wf_json w
     \<longrightarrow> s @ r = t @ r' \<longrightarrow> closes r \<longrightarrow> closes r' \<longrightarrow> s = t \<and> canon v = canon w)"

lemma determinedD:
  "determined d \<Longrightarrow> renders d v s \<Longrightarrow> renders d w t \<Longrightarrow> wf_json v \<Longrightarrow> wf_json w
     \<Longrightarrow> s @ r = t @ r' \<Longrightarrow> closes r \<Longrightarrow> closes r' \<Longrightarrow> s = t \<and> canon v = canon w"
  unfolding determined_def by blast

lemma arrays_determined:
  assumes "determined (Suc d)" and "renders d (JArr xs) s" and "renders d (JArr ys) t"
    and "wf_json (JArr xs)" and "wf_json (JArr ys)" and "s @ r = t @ r'"
  shows "s = t \<and> map canon xs = map canon ys"
proof -
  obtain ss where ss: "list_all2 (renders (Suc d)) xs ss" "s = CHR ''['' # join_with '','' ss @ [CHR '']'']"
    using renders_array [OF assms(2)] assms(4) by auto
  obtain ts where ts: "list_all2 (renders (Suc d)) ys ts" "t = CHR ''['' # join_with '','' ts @ [CHR '']'']"
    using renders_array [OF assms(3)] assms(5) by auto
  have elem: "\<exists>x. renders (Suc d) x u \<and> wf_json x" if "list_all2 (renders (Suc d)) zs us" "u \<in> set us"
    "wf_json (JArr zs)" for zs us u
    using list_all2_elem [OF that(1,2)] that(3) by auto
  have "readable (set ss) (set ts)"
    unfolding readable_def using elem [OF ss(1) _ assms(4)] elem [OF ts(1) _ assms(5)] determinedD [OF assms(1)]
    by meson
  moreover have "\<forall>u \<in> set ss \<union> set ts. opens u"
    using elem [OF ss(1) _ assms(4)] elem [OF ts(1) _ assms(5)] renders_opens by blast
  ultimately have eq: "ss = ts" using assms(6) ss(2) ts(2) join_unique [of ss ts "CHR '']''" r r'] by simp
  have "canon (xs ! i) = canon (ys ! i)" if "i < length xs" for i
    using that ss(1) ts(1) eq assms(4,5) determinedD [OF assms(1), of "xs ! i" "ss ! i" "ys ! i" "ts ! i" "[]" "[]"]
    by (auto simp: list_all2_conv_all_nth closes_def)
  then show ?thesis
    using ss ts eq by (auto simp: list_all2_conv_all_nth intro: nth_equalityI)
qed

lemma entries_determined:
  assumes "determined d" and "entryText d e u" and "entryText d f w" and "wf_json (snd e)" and "wf_json (snd f)"
    and "u @ r = w @ r'" and "closes r" and "closes r'"
  shows "u = w \<and> fst e = fst f \<and> canon (snd e) = canon (snd f)"
proof -
  obtain a where a: "renders d (snd e) a" "u = quote (fst e) @ '':'' @ a" using assms(2) by (auto simp: entryText_def)
  obtain b where b: "renders d (snd f) b" "w = quote (fst f) @ '':'' @ b" using assms(3) by (auto simp: entryText_def)
  have "fst e = fst f \<and> '':'' @ a @ r = '':'' @ b @ r'"
    using quote_unique [of "fst e" "'':'' @ a @ r" "fst f" "'':'' @ b @ r'"] assms(6) a(2) b(2) by simp
  then show ?thesis
    using determinedD [OF assms(1) a(1) b(1) assms(4,5) _ assms(7,8)] a(2) b(2) by simp
qed

lemma objects_determined:
  assumes "determined (Suc d)" and "renders d (JObj es) s" and "renders d (JObj fs) t"
    and "wf_json (JObj es)" and "wf_json (JObj fs)" and "s @ r = t @ r'"
  shows "s = t \<and> canon (JObj es) = canon (JObj fs)"
proof -
  obtain ss where ss: "list_all2 (entryText (Suc d)) (sortEntries es) ss" "s = CHR ''{'' # join_with '','' ss @ [CHR ''}'']"
    using renders_object [OF assms(2)] by auto
  obtain ts where ts: "list_all2 (entryText (Suc d)) (sortEntries fs) ts" "t = CHR ''{'' # join_with '','' ts @ [CHR ''}'']"
    using renders_object [OF assms(3)] by auto
  have elem: "\<exists>e. entryText (Suc d) e u \<and> wf_json (snd e)"
    if "list_all2 (entryText (Suc d)) (sortEntries gs) us" "u \<in> set us" "wf_json (JObj gs)" for gs us u
    using list_all2_elem [OF that(1,2)] that(3) by fastforce
  have "readable (set ss) (set ts)"
    unfolding readable_def using elem [OF ss(1) _ assms(4)] elem [OF ts(1) _ assms(5)] entries_determined [OF assms(1)]
    by meson
  moreover have "\<forall>u \<in> set ss \<union> set ts. opens u"
    using elem [OF ss(1) _ assms(4)] elem [OF ts(1) _ assms(5)] entryText_opens by blast
  ultimately have eq: "ss = ts" using assms(6) ss(2) ts(2) join_unique [of ss ts "CHR ''}''" r r'] by simp
  let ?c = "\<lambda>(k, v). (k, canon v)"
  have "map ?c (sortEntries es) = map ?c (sortEntries fs)"
  proof (rule nth_equalityI)
    fix i assume "i < length (map ?c (sortEntries es))"
    then have i: "i < length ss" "i < length (sortEntries es)" "i < length (sortEntries fs)"
      using ss(1) ts(1) eq by (auto simp: list_all2_conv_all_nth)
    have "wf_json (snd (sortEntries es ! i))" "wf_json (snd (sortEntries fs ! i))"
      using assms(4,5) nth_mem [OF i(2)] nth_mem [OF i(3)] by auto
    then have "fst (sortEntries es ! i) = fst (sortEntries fs ! i) \<and> canon (snd (sortEntries es ! i)) = canon (snd (sortEntries fs ! i))"
      using entries_determined [OF assms(1), of "sortEntries es ! i" "ss ! i" "sortEntries fs ! i" "ts ! i" "[]" "[]"]
        ss(1) ts(1) eq i by (auto simp: list_all2_conv_all_nth closes_def)
    then show "map ?c (sortEntries es) ! i = map ?c (sortEntries fs) ! i" using i by (simp add: case_prod_beta)
  qed (use ss(1) ts(1) eq in \<open>auto simp: list_all2_conv_all_nth\<close>)
  then show ?thesis using ss(2) ts(2) eq by (simp add: sortEntries_map_snd)
qed

lemma lead_disjoint:
  assumes "renders d v s" and "renders d w t" and "wf_json v" and "wf_json w" and "s @ r = t @ r'"
  shows "lead v \<inter> lead w \<noteq> {}"
proof -
  have "hd s = hd t"
    using assms(5) renders_lead [OF assms(1,3)] renders_lead [OF assms(2,4)] by (metis hd_append2)
  then show ?thesis using renders_lead [OF assms(1,3)] renders_lead [OF assms(2,4)] by auto
qed

lemma same_lead:
  "lead v \<inter> lead w \<noteq> {} \<Longrightarrow> v = w \<or> (\<exists>a b. v = JNum a \<and> w = JNum b) \<or> (\<exists>a b. v = JStr a \<and> w = JStr b)
    \<or> (\<exists>a b. v = JArr a \<and> w = JArr b) \<or> (\<exists>a b. v = JObj a \<and> w = JObj b)"
  by (cases v; cases w) (auto split: if_splits)

lemma renders_bound: "renders d v s \<Longrightarrow> d \<le> MAX_DEPTH"
  by (auto simp: renders_def canonicalStringify.simps [of d] split: if_splits)

lemma determined_step:
  assumes "determined (Suc d)"
  shows "determined d"
  unfolding determined_def
proof (intro allI impI)
  fix v w s t r r'
  assume v: "renders d v s" "wf_json v" and w: "renders d w t" "wf_json w"
    and eq: "s @ r = t @ r'" and cl: "closes r" "closes r'"
  consider "v = w" | a b where "v = JNum a" "w = JNum b" | a b where "v = JStr a" "w = JStr b"
    | a b where "v = JArr a" "w = JArr b" | a b where "v = JObj a" "w = JObj b"
    using same_lead [OF lead_disjoint [OF v(1) w(1) v(2) w(2) eq]] by blast
  then show "s = t \<and> canon v = canon w"
  proof cases
    case 1
    then show ?thesis using v(1) w(1) by (auto simp: renders_def)
  next
    case 2
    then show ?thesis
      using number_text_unique [of a b r r'] v w eq cl by (auto dest!: renders_scalar)
  next
    case 3
    then show ?thesis using quote_unique [of a r b r'] v w eq by (auto dest!: renders_scalar)
  next
    case 4
    then show ?thesis using arrays_determined [OF assms, of a s b t r r'] v w eq by simp
  next
    case 5
    then show ?thesis using objects_determined [OF assms, of a s b t r r'] v w eq by simp
  qed
qed

lemma determined_all: "determined d"
proof (induction "Suc MAX_DEPTH - d" arbitrary: d)
  case 0
  then show ?case using renders_bound by (fastforce simp: determined_def)
next
  case (Suc n)
  then have "determined (Suc d)" by simp
  then show ?case by (rule determined_step)
qed

lemma canonicalStringify_inject:
  assumes "canonicalStringify 0 v = Inr (Some s)" and "canonicalStringify 0 w = Inr (Some s)"
    and "wf_json v" and "wf_json w"
  shows "canon v = canon w"
  using determinedD [OF determined_all, of 0 v s w s "[]" "[]"] assms
  by (auto simp: renders_def templateText_def closes_def)

section \<open>When the limits are kept\<close>

text \<open>\<open>fits n v\<close>: containers are nested at most \<open>n\<close> deep and have at most \<open>MAX_BREADTH\<close> elements.\<close>

fun fits :: "nat \<Rightarrow> json \<Rightarrow> bool" where
  "fits n (JArr xs) \<longleftrightarrow> 0 < n \<and> length xs \<le> MAX_BREADTH \<and> (\<forall>x \<in> set xs. fits (n - 1) x)"
| "fits n (JObj es) \<longleftrightarrow> 0 < n \<and> length es \<le> MAX_BREADTH \<and> (\<forall>e \<in> set es. fits (n - 1) (snd e))"
| "fits n _ \<longleftrightarrow> True"

lemma canonicalStringify_total:
  assumes "fits n v" and "d + n \<le> MAX_DEPTH"
  shows "\<exists>t. canonicalStringify d v = Inr t"
  using assms
proof (induction n arbitrary: d v)
  case 0
  then show ?case by (cases v) (auto simp: canonicalStringify.simps [of d])
next
  case (Suc n)
  let ?s = "\<lambda>x. case canonicalStringify (Suc d) x of Inr t \<Rightarrow> t | Inl _ \<Rightarrow> None"
  have IH: "canonicalStringify (Suc d) x = Inr (?s x)" if "fits n x" for x
    using Suc.IH [of x "Suc d"] that Suc.prems(2) by auto
  show ?case
  proof (cases v)
    case (JArr xs)
    then have "traverse (\<lambda>x. canonicalStringify (Suc d) x) xs = Inr (map ?s xs)"
      using Suc.prems(1) IH by (intro traverse_total) auto
    then show ?thesis using JArr Suc.prems by (auto simp: canonicalStringify.simps [of d])
  next
    case (JObj es)
    have "traverse (\<lambda>(k, x). case canonicalStringify (Suc d) x of
             Inl e \<Rightarrow> Inl e | Inr t \<Rightarrow> Inr (quote k @ '':'' @ templateText t)) (sortEntries es)
         = Inr (map (\<lambda>(k, x). quote k @ '':'' @ templateText (?s x)) (sortEntries es))"
      using Suc.prems(1) JObj IH by (intro traverse_total) (fastforce split: prod.splits sum.splits)
    then show ?thesis using JObj Suc.prems by (auto simp: canonicalStringify.simps [of d])
  qed (use Suc.prems in \<open>auto simp: canonicalStringify.simps [of d]\<close>)
qed

section \<open>Canonical strings and canonical values\<close>

lemma sort_key_sorted: "sorted (map f xs) \<Longrightarrow> sort_key f xs = xs"
  by (induction xs) (auto simp: insort_is_Cons)

lemma sortEntries_idem [simp]: "sortEntries (sortEntries es) = sortEntries es"
  unfolding sortEntries_def by (rule sort_key_sorted) simp

lemma length_sortEntries [simp]: "length (sortEntries es) = length es"
  by (simp add: sortEntries_def)

lemma canonicalStringify_canon: "canonicalStringify d (canon v) = canonicalStringify d v"
proof (induction "Suc MAX_DEPTH - d" arbitrary: d v)
  case 0
  then show ?case by (simp add: canonicalStringify.simps [of d])
next
  case (Suc n)
  then have IH: "canonicalStringify (Suc d) (canon x) = canonicalStringify (Suc d) x" for x by simp
  show ?case
  proof (cases v)
    case (JArr xs)
    then show ?thesis by (simp add: canonicalStringify.simps [of d] traverse_map IH)
  next
    case (JObj es)
    then show ?thesis
      by (simp add: canonicalStringify.simps [of d] sortEntries_map_snd [unfolded split_def] traverse_map
        IH split_def cong del: sum.case_cong_weak)
  qed simp_all
qed

text \<open>
  C24: the canonical string identifies a value up to the order of object entries. Two well-formed
  values for which \<open>canonicalStringify\<close> succeeds have the same canonical string exactly when they
  are equal after sorting the entries of every object by key.
\<close>

theorem canonical_string_identifies:
  assumes "canonicalStringify 0 v = Inr (Some s)" and "canonicalStringify 0 w = Inr (Some t)"
    and "wf_json v" and "wf_json w"
  shows "s = t \<longleftrightarrow> canon v = canon w"
proof
  assume "s = t"
  then show "canon v = canon w" using canonicalStringify_inject [of v s w] assms by simp
next
  assume "canon v = canon w"
  then have "canonicalStringify 0 v = canonicalStringify 0 w" by (metis canonicalStringify_canon)
  then show "s = t" using assms(1,2) by simp
qed

theorem canonical_string_identifies_witness:
  "(''{\"a\":[1,true],\"b\":null}'' = ''{\"a\":[1,true],\"b\":null}'')
    = (canon (JObj [(''b'', JNull), (''a'', JArr [JNum ''1'', JBool True])])
       = canon (JObj [(''a'', JArr [JNum ''1'', JBool True]), (''b'', JNull)]))"
proof (rule canonical_string_identifies)
  show "canonicalStringify 0 (JObj [(''b'', JNull), (''a'', JArr [JNum ''1'', JBool True])])
      = Inr (Some ''{\"a\":[1,true],\"b\":null}'')"
    by code_simp
  show "canonicalStringify 0 (JObj [(''a'', JArr [JNum ''1'', JBool True]), (''b'', JNull)])
      = Inr (Some ''{\"a\":[1,true],\"b\":null}'')"
    by code_simp
qed simp_all

lemma char_codes_ascii: "list_all (\<lambda>c. byte c < 128) s \<Longrightarrow> char_codes s = map byte s"
  by (induction s) (simp_all add: char_codes.simps)

end
