(* ===== verification/Kv_Repository.thy ===== *)
theory Kv_Repository
  imports Prelude "HOL-Library.List_Lexorder" "HOL-Library.Product_Lexorder" "HOL-Library.Char_ord"
    "HOL-Library.Multiset"
begin

text \<open>
  The repositories over Deno KV: infrastructure/persistence/repositories/kv_repository.ts (optimistic
  concurrency control) and timeline_repository.ts (entries keyed by timestamp and id, and a counter).

  The store is an association list of keys with values and versionstamps; listing yields
  the entries in key order. A key \<open>[prefix, id]\<close> of a repository is represented by what
  follows the prefix. What other clients do between the read and the commit of one attempt is
  the argument \<open>env\<close>.
\<close>

section \<open>The store\<close>

record ('k, 'v) kv =
  kv_entries :: "('k \<times> 'v \<times> nat) list"
  kv_clock :: nat

definition kv_get :: "'k \<Rightarrow> ('k, 'v) kv \<Rightarrow> ('v \<times> nat) option" where
  "kv_get k s = map_of (kv_entries s) k"

definition kv_set :: "'k \<Rightarrow> 'v \<Rightarrow> ('k, 'v) kv \<Rightarrow> ('k, 'v) kv" where
  "kv_set k v s = s\<lparr>kv_entries := AList.update k (v, Suc (kv_clock s)) (kv_entries s),
     kv_clock := Suc (kv_clock s)\<rparr>"

definition kv_delete :: "'k \<Rightarrow> ('k, 'v) kv \<Rightarrow> ('k, 'v) kv" where
  "kv_delete k s = s\<lparr>kv_entries := AList.delete k (kv_entries s), kv_clock := Suc (kv_clock s)\<rparr>"

text \<open>\<open>atomic().check(entry)\<close>: the key still has the versionstamp it was read with.\<close>

definition kv_check :: "'k \<Rightarrow> ('v \<times> nat) option \<Rightarrow> ('k, 'v) kv \<Rightarrow> bool" where
  "kv_check k entry s \<longleftrightarrow> map_option snd (kv_get k s) = map_option snd entry"

definition kv_list :: "('k::linorder, 'v) kv \<Rightarrow> ('k \<times> 'v) list" where
  "kv_list s = map (\<lambda>(k, v, n). (k, v)) (sort_key fst (kv_entries s))"

text \<open>Versionstamps are distinct from those of the future, keys are distinct.\<close>

definition kv_wf :: "('k, 'v) kv \<Rightarrow> bool" where
  "kv_wf s \<longleftrightarrow> distinct (map fst (kv_entries s)) \<and> (\<forall>(k, v, n) \<in> set (kv_entries s). n \<le> kv_clock s)"

section \<open>KvRepository\<close>

definition checkWritePermission :: "bool \<Rightarrow> string \<Rightarrow> unit result" where
  "checkWritePermission readOnly pfx =
    (if readOnly \<and> pfx \<noteq> ''audit'' \<and> pfx \<noteq> ''incidents''
     then Inl (''Permission Denied: System is in FORENSIC_RESTRICTED mode. Write/Delete blocked for prefix '' @ [CHR 0x27] @ pfx @ [CHR 0x27])
     else Inr ())"

definition repo_get :: "string \<Rightarrow> (string, 'v) kv \<Rightarrow> 'v option" where
  "repo_get key s = map_option fst (kv_get key s)"

text \<open>The loop of \<open>set\<close> and \<open>delete\<close>: \<open>write\<close> is the mutation that is committed. The result
  says whether an attempt succeeded.\<close>

function occLoop :: "(nat \<Rightarrow> (string, 'v) kv \<Rightarrow> (string, 'v) kv) \<Rightarrow> ((string, 'v) kv \<Rightarrow> (string, 'v) kv)
    \<Rightarrow> string \<Rightarrow> nat \<Rightarrow> (string, 'v) kv \<Rightarrow> bool \<times> (string, 'v) kv" where
  "occLoop env write key attempts s =
    (if attempts < 5 then
       (let entry = kv_get key s; s' = env attempts s in
        if kv_check key entry s' then (True, write s') else occLoop env write key (attempts + 1) s')
     else (False, s))"
  by pat_completeness auto
termination
  by (relation "measure (\<lambda>(env, write, key, attempts, s). 5 - attempts)") auto

declare occLoop.simps [simp del]

definition repo_set :: "bool \<Rightarrow> string \<Rightarrow> (nat \<Rightarrow> (string, 'v) kv \<Rightarrow> (string, 'v) kv) \<Rightarrow> string \<Rightarrow> 'v
    \<Rightarrow> (string, 'v) kv \<Rightarrow> unit result \<times> (string, 'v) kv" where
  "repo_set readOnly pfx env key v s = (case checkWritePermission readOnly pfx of
     Inl e \<Rightarrow> (Inl e, s)
   | Inr _ \<Rightarrow> (case occLoop env (kv_set key v) key 0 s of
       (True, s') \<Rightarrow> (Inr (), s')
     | (False, s') \<Rightarrow> (Inl (''OCC Write Conflict: Failed to set ['' @ pfx @ '', '' @ key @ ''] after 5 attempts.''), s')))"

definition repo_delete :: "bool \<Rightarrow> string \<Rightarrow> (nat \<Rightarrow> (string, 'v) kv \<Rightarrow> (string, 'v) kv) \<Rightarrow> string
    \<Rightarrow> (string, 'v) kv \<Rightarrow> unit result \<times> (string, 'v) kv" where
  "repo_delete readOnly pfx env key s = (case checkWritePermission readOnly pfx of
     Inl e \<Rightarrow> (Inl e, s)
   | Inr _ \<Rightarrow> (case occLoop env (kv_delete key) key 0 s of
       (True, s') \<Rightarrow> (Inr (), s')
     | (False, s') \<Rightarrow> (Inl (''OCC Write Conflict: Failed to delete ['' @ pfx @ '', '' @ key @ ''] after 5 attempts.''), s')))"

text \<open>\<open>listPaginated\<close>: pages of at most \<open>batchSize\<close> entries, each starting behind the cursor the page
  before it ended at. A page that is not full ends the loop.\<close>

function pageLoop :: "nat \<Rightarrow> ('k \<times> 'v) list \<Rightarrow> 'v list" where
  "pageLoop batchSize rest =
    (let page = take batchSize rest in
     if page = [] \<or> length page < batchSize then map snd page
     else map snd page @ pageLoop batchSize (drop batchSize rest))"
  by pat_completeness auto
termination
  by (relation "measure (\<lambda>(b, rest). length rest)") auto

declare pageLoop.simps [simp del]

definition repo_list :: "(string, 'v) kv \<Rightarrow> 'v list" where
  "repo_list s = pageLoop 500 (kv_list s)"

section \<open>TimelineRepository\<close>

text \<open>The key \<open>[prefix, ts, id]\<close> is the pair of timestamp and id; \<open>tl_count\<close> is the value of the
  counter key, \<^const>\<open>None\<close> before its first write.\<close>

record 'v timeline =
  tl_kv :: "(int \<times> string, 'v) kv"
  tl_count :: "nat option"

text \<open>\<open>new Deno.KvU64(n)\<close> throws on a negative argument.\<close>

definition kvU64 :: "int \<Rightarrow> nat result" where
  "kvU64 n = (if n < 0 then Inl ''RangeError: Value must be a positive bigint'' else Inr (nat n))"

text \<open>The \<open>sum\<close> mutation wraps at 64 bits and counts from 0 when the key is absent.\<close>

definition sumCount :: "nat \<Rightarrow> nat option \<Rightarrow> nat option" where
  "sumCount n c = Some (((case c of None \<Rightarrow> 0 | Some m \<Rightarrow> m) + n) mod 2 ^ 64)"

definition tl_set :: "int \<Rightarrow> string \<Rightarrow> 'v \<Rightarrow> 'v timeline \<Rightarrow> 'v timeline" where
  "tl_set ts key v t = t\<lparr>tl_kv := kv_set (ts, key) v (tl_kv t), tl_count := sumCount 1 (tl_count t)\<rparr>"

text \<open>\<open>setMany\<close>: one commit per chunk of 100; \<open>commit n\<close> says whether the \<open>n\<close>-th commit succeeds.\<close>

definition tl_setChunk :: "((int \<times> string) \<times> 'v) list \<Rightarrow> 'v timeline \<Rightarrow> 'v timeline" where
  "tl_setChunk chunk t = t\<lparr>tl_kv := fold (\<lambda>(k, v). kv_set k v) chunk (tl_kv t),
     tl_count := sumCount (length chunk) (tl_count t)\<rparr>"

function tl_setMany :: "(nat \<Rightarrow> bool) \<Rightarrow> nat \<Rightarrow> ((int \<times> string) \<times> 'v) list \<Rightarrow> 'v timeline
    \<Rightarrow> unit result \<times> 'v timeline" where
  "tl_setMany commit n items t =
    (if items = [] then (Inr (), t)
     else if commit n then tl_setMany commit (n + 1) (drop 100 items) (tl_setChunk (take 100 items) t)
     else (Inl ''Failed to set chunk of timeline entries'', t))"
  by pat_completeness auto
termination
  by (relation "measure (\<lambda>(commit, n, items, t). length items)") auto

declare tl_setMany.simps [simp del]

definition tl_stream :: "nat \<Rightarrow> bool \<Rightarrow> 'v timeline \<Rightarrow> 'v list" where
  "tl_stream limit reverse t =
    take limit (map snd ((if reverse then rev else (\<lambda>x. x)) (kv_list (tl_kv t))))"

definition tl_getLatest :: "nat \<Rightarrow> 'v timeline \<Rightarrow> 'v list" where
  "tl_getLatest limit t = tl_stream limit True t"

definition tl_listRange :: "int \<Rightarrow> int \<Rightarrow> 'v timeline \<Rightarrow> 'v list" where
  "tl_listRange startTs endTs t =
    map snd (filter (\<lambda>((ts, k), v). startTs \<le> ts \<and> ts < endTs) (kv_list (tl_kv t)))"

text \<open>\<open>deleteBefore\<close>: \<open>pending\<close> are the keys of the transaction under construction.\<close>

definition tl_commitDeletes :: "(int \<times> string) list \<Rightarrow> 'v timeline \<Rightarrow> 'v timeline result" where
  "tl_commitDeletes pending t = (case kvU64 (- int (length pending)) of
     Inl e \<Rightarrow> Inl e
   | Inr n \<Rightarrow> Inr (t\<lparr>tl_kv := fold kv_delete pending (tl_kv t), tl_count := sumCount n (tl_count t)\<rparr>))"

fun tl_deleteLoop :: "(int \<times> string) list \<Rightarrow> (int \<times> string) list \<Rightarrow> nat \<Rightarrow> 'v timeline
    \<Rightarrow> nat result \<times> 'v timeline" where
  "tl_deleteLoop [] pending cnt t =
    (if 0 < length pending then (case tl_commitDeletes pending t of Inl e \<Rightarrow> (Inl e, t) | Inr t' \<Rightarrow> (Inr cnt, t'))
     else (Inr cnt, t))"
| "tl_deleteLoop (k # ks) pending cnt t =
    (let pending' = pending @ [k] in
     if 100 \<le> length pending' then
       (case tl_commitDeletes pending' t of Inl e \<Rightarrow> (Inl e, t) | Inr t' \<Rightarrow> tl_deleteLoop ks [] (cnt + 1) t')
     else tl_deleteLoop ks pending' (cnt + 1) t)"

definition tl_deleteBefore :: "int \<Rightarrow> 'v timeline \<Rightarrow> nat result \<times> 'v timeline" where
  "tl_deleteBefore cutoff t =
    tl_deleteLoop (map fst (filter (\<lambda>((ts, k), v). ts < cutoff) (kv_list (tl_kv t)))) [] 0 t"

definition tl_size :: "'v timeline \<Rightarrow> nat \<times> 'v timeline" where
  "tl_size t = (case tl_count t of
     Some n \<Rightarrow> (n, t)
   | None \<Rightarrow> (let n = length (kv_list (tl_kv t)) in (n, t\<lparr>tl_count := Some n\<rparr>)))"

section \<open>Store lemmas\<close>

lemma kv_get_set [simp]: "kv_get k (kv_set k' v s) = (if k = k' then Some (v, Suc (kv_clock s)) else kv_get k s)"
  by (simp add: kv_get_def kv_set_def)

lemma kv_get_delete [simp]: "kv_get k (kv_delete k' s) = (if k = k' then None else kv_get k s)"
  by (simp add: kv_get_def kv_delete_def)

lemma kv_wf_set [inv_intros]: "kv_wf s \<Longrightarrow> kv_wf (kv_set k v s)"
proof -
  have "set (AList.update k v al) \<subseteq> insert (k, v) (set al)" for k :: 'a and v :: "'b \<times> nat" and al
    by (induction al) auto
  then show "kv_wf s \<Longrightarrow> kv_wf (kv_set k v s)"
    by (fastforce simp: kv_wf_def kv_set_def distinct_update)
qed

lemma kv_wf_delete [inv_intros]: "kv_wf s \<Longrightarrow> kv_wf (kv_delete k s)"
  by (auto simp: kv_wf_def kv_delete_def AList.delete_eq intro: le_SucI distinct_map_filter)

lemma kv_list_set: "set (kv_list s) = (\<lambda>(k, v, n). (k, v)) ` set (kv_entries s)"
  by (simp add: kv_list_def)

lemma kv_list_mem: "kv_wf s \<Longrightarrow> (k, v) \<in> set (kv_list s) \<longleftrightarrow> map_option fst (kv_get k s) = Some v"
  by (force simp: kv_list_set kv_get_def kv_wf_def image_iff)

lemma kv_list_keys: "map fst (kv_list s) = map fst (sort_key fst (kv_entries s))"
  by (simp add: kv_list_def case_prod_beta)

lemma kv_list_sorted: "sorted (map fst (kv_list s))"
  by (simp add: kv_list_keys del: map_map)

lemma kv_list_distinct:
  assumes "kv_wf s"
  shows "distinct (map fst (kv_list s))"
proof -
  have "mset (map fst (sort_key fst (kv_entries s))) = mset (map fst (kv_entries s))" by simp
  then have "distinct (map fst (sort_key fst (kv_entries s)))"
    using assms mset_eq_imp_distinct_iff [of "map fst (sort_key fst (kv_entries s))" "map fst (kv_entries s)"]
    by (auto simp: kv_wf_def)
  then show ?thesis by (simp only: kv_list_keys)
qed

lemma pageLoop_all: "0 < b \<Longrightarrow> pageLoop b rest = map snd rest"
proof (induction b rest rule: pageLoop.induct)
  case (1 b rest)
  show ?case
  proof (cases "take b rest = [] \<or> length (take b rest) < b")
    case True
    then have "take b rest = rest" using 1 by auto
    then show ?thesis using True by (subst pageLoop.simps) (simp add: Let_def)
  next
    case False
    then have "pageLoop b (drop b rest) = map snd (drop b rest)" using 1 by blast
    then show ?thesis using False
      by (subst pageLoop.simps) (simp add: Let_def flip: map_append)
  qed
qed

lemma repo_list_all: "repo_list s = map snd (kv_list s)"
  by (simp add: repo_list_def pageLoop_all)

section \<open>Optimistic writes\<close>

text \<open>The states the loop goes through when every attempt meets a conflict.\<close>

fun interfered :: "(nat \<Rightarrow> ('k, 'v) kv \<Rightarrow> ('k, 'v) kv) \<Rightarrow> nat \<Rightarrow> ('k, 'v) kv \<Rightarrow> ('k, 'v) kv" where
  "interfered env 0 s = s"
| "interfered env (Suc n) s = env n (interfered env n s)"

definition conflict :: "(nat \<Rightarrow> ('k, 'v) kv \<Rightarrow> ('k, 'v) kv) \<Rightarrow> 'k \<Rightarrow> nat \<Rightarrow> ('k, 'v) kv \<Rightarrow> bool" where
  "conflict env k n s \<longleftrightarrow> \<not> kv_check k (kv_get k (interfered env n s)) (interfered env (Suc n) s)"

lemma occLoop_from:
  "n \<le> 5 \<Longrightarrow> occLoop env write k n (interfered env n s) =
    (case find (\<lambda>m. \<not> conflict env k m s) [n..<5] of
       Some m \<Rightarrow> (True, write (interfered env (Suc m) s))
     | None \<Rightarrow> (False, interfered env 5 s))"
proof (induction "5 - n" arbitrary: n)
  case 0
  then show ?case by (simp add: occLoop.simps)
next
  case (Suc d)
  then have n: "n < 5" by simp
  have step: "occLoop env write k n (interfered env n s) =
      (if conflict env k n s then occLoop env write k (Suc n) (interfered env (Suc n) s)
       else (True, write (interfered env (Suc n) s)))"
    using n by (simp add: occLoop.simps [of _ _ _ n] conflict_def Let_def)
  show ?case
    using Suc.hyps(1) [of "Suc n"] Suc.hyps(2) n by (simp add: step upt_conv_Cons)
qed

text \<open>
  A repository write is permitted, applied once and never silently lost. In read-only mode every
  prefix but the audit log and the incidents is refused and nothing changes. Otherwise
  the write is committed at the first of five attempts during which no other client changed
  the key, on top of everything the other clients wrote, and is then what a read returns; if
  each of the five attempts met a conflict, an error is returned and only the other clients'
  writes remain.
\<close>

lemma repository_write:
  "repo_set readOnly pfx env k v s =
    (if readOnly \<and> pfx \<notin> {''audit'', ''incidents''}
     then (Inl (''Permission Denied: System is in FORENSIC_RESTRICTED mode. Write/Delete blocked for prefix ''
             @ [CHR 0x27] @ pfx @ [CHR 0x27]), s)
     else case find (\<lambda>m. \<not> conflict env k m s) [0..<5] of
       Some m \<Rightarrow> (Inr (), kv_set k v (interfered env (Suc m) s))
     | None \<Rightarrow> (Inl (''OCC Write Conflict: Failed to set ['' @ pfx @ '', '' @ k @ ''] after 5 attempts.''),
                interfered env 5 s))
   \<and> repo_get k (kv_set k v s') = Some v"
proof -
  have "occLoop env (kv_set k v) k 0 s = (case find (\<lambda>m. \<not> conflict env k m s) [0..<5] of
       Some m \<Rightarrow> (True, kv_set k v (interfered env (Suc m) s)) | None \<Rightarrow> (False, interfered env 5 s))"
    using occLoop_from [of 0 env "kv_set k v" k s] by simp
  then show ?thesis
    by (auto simp: repo_set_def checkWritePermission_def repo_get_def split: option.splits)
qed

section \<open>The timeline\<close>

definition kv_value :: "'k \<Rightarrow> ('k, 'v) kv \<Rightarrow> 'v option" where
  "kv_value k s = map_option fst (kv_get k s)"

lemma kv_value_set [simp]: "kv_value k (kv_set k' v s) = (if k = k' then Some v else kv_value k s)"
  by (simp add: kv_value_def)

lemma fold_kv_set_value:
  "kv_value k (fold (\<lambda>(k, v). kv_set k v) items s)
    = (case map_of (rev items) k of Some v \<Rightarrow> Some v | None \<Rightarrow> kv_value k s)"
  by (induction items arbitrary: s) (auto simp: map_add_def split: option.splits)

lemma fold_kv_set_wf: "kv_wf s \<Longrightarrow> kv_wf (fold (\<lambda>(k, v). kv_set k v) items s)"
  by (induction items arbitrary: s) (auto intro: kv_wf_set)

lemma tl_setMany_value:
  assumes "tl_setMany commit n items t = (r, t')"
  shows "\<exists>j. (is_ok r \<longrightarrow> length items \<le> j) \<and>
    (\<forall>k. kv_value k (tl_kv t') = (case map_of (rev (take j items)) k of Some v \<Rightarrow> Some v | None \<Rightarrow> kv_value k (tl_kv t)))"
  using assms
proof (induction commit n items t arbitrary: r t' rule: tl_setMany.induct)
  case (1 commit n items t)
  show ?case
  proof (cases "items = [] \<or> \<not> commit n")
    case True
    then show ?thesis
      using "1.prems" by (intro exI [of _ 0]) (auto simp: tl_setMany.simps [of commit n] split: if_splits)
  next
    case False
    let ?t = "tl_setChunk (take 100 items) t"
    have rest: "tl_setMany commit (n + 1) (drop 100 items) ?t = (r, t')"
      using "1.prems" False by (simp add: tl_setMany.simps [of commit n])
    obtain j where j: "is_ok r \<longrightarrow> length (drop 100 items) \<le> j"
      "\<And>k. kv_value k (tl_kv t') = (case map_of (rev (take j (drop 100 items))) k of
         Some v \<Rightarrow> Some v | None \<Rightarrow> kv_value k (tl_kv ?t))"
      using "1.IH" [OF _ _ rest] False by auto
    have "rev (take (100 + j) items) = rev (take j (drop 100 items)) @ rev (take 100 items)"
      by (simp only: take_add rev_append)
    then have "kv_value k (tl_kv t') = (case map_of (rev (take (100 + j) items)) k of
        Some v \<Rightarrow> Some v | None \<Rightarrow> kv_value k (tl_kv t))" for k
      using j(2) [of k] fold_kv_set_value [of k "take 100 items" "tl_kv t"]
      by (auto simp: tl_setChunk_def map_add_def split: option.splits)
    then show ?thesis using j(1) by (intro exI [of _ "100 + j"]) auto
  qed
qed

lemma tl_setMany_wf: "tl_setMany commit n items t = (r, t') \<Longrightarrow> kv_wf (tl_kv t) \<Longrightarrow> kv_wf (tl_kv t')"
proof (induction commit n items t arbitrary: r t' rule: tl_setMany.induct)
  case (1 commit n items t)
  then show ?case
    by (auto simp: tl_setMany.simps [of commit n] tl_setChunk_def intro: fold_kv_set_wf split: if_splits)
qed

lemma tl_commitDeletes_fails: "pending \<noteq> [] \<Longrightarrow> \<exists>e. tl_commitDeletes pending t = Inl e"
  by (simp add: tl_commitDeletes_def kvU64_def)

lemma tl_deleteLoop_fails:
  "ks \<noteq> [] \<or> pending \<noteq> [] \<Longrightarrow> \<exists>e. tl_deleteLoop ks pending n t = (Inl e, t)"
proof (induction ks pending n t rule: tl_deleteLoop.induct)
  case (1 pending cnt t)
  then show ?case using tl_commitDeletes_fails [of pending t] by auto
next
  case (2 k ks pending cnt t)
  then show ?case using tl_commitDeletes_fails [of "pending @ [k]" t] by (auto simp: Let_def)
qed

lemma deleteBefore_unchanged: "\<exists>r. tl_deleteBefore cutoff t = (r, t) \<and>
     (is_ok r \<longleftrightarrow> (\<forall>e \<in> set (kv_list (tl_kv t)). cutoff \<le> fst (fst e)))"
proof -
  let ?old = "map fst (filter (\<lambda>((ts, k), v). ts < cutoff) (kv_list (tl_kv t)))"
  have old: "?old = [] \<longleftrightarrow> (\<forall>e \<in> set (kv_list (tl_kv t)). cutoff \<le> fst (fst e))"
    by (auto simp: filter_empty_conv case_prod_beta not_less)
  show ?thesis
  proof (cases "?old = []")
    case True
    then show ?thesis using old by (auto simp: tl_deleteBefore_def)
  next
    case False
    then obtain e where "tl_deleteLoop ?old [] 0 t = (Inl e, t)" using tl_deleteLoop_fails by blast
    then show ?thesis using False old by (auto simp: tl_deleteBefore_def)
  qed
qed

text \<open>
  The operation \<open>deleteBefore\<close> never deletes anything. The counter update of every deleting transaction
  asks for a negative \<open>KvU64\<close>, whose constructor throws before the commit: when some entry is older
  than the cutoff the operation fails, and in every case the timeline is left as it was.
\<close>

lemma deleteBefore_never_deletes:
  "\<exists>r. tl_deleteBefore cutoff t = (r, t) \<and>
     (is_ok r \<longleftrightarrow> (\<forall>e \<in> set (kv_list (tl_kv t)). cutoff \<le> fst (fst e)))"
  by (rule deleteBefore_unchanged)

end
