(* ===== verification/Audit_Verifier.thy ===== *)
theory Audit_Verifier
  imports Json Kv_Repository Merkle_Tree
begin

text \<open>
  Audit events and the verification of the ledger: domain/analysis/audit_verifier.ts, and the event type
  of domain/analysis/audit.ts. The SHA-256 digest and the TPM are parameters: \<open>digest\<close> maps the
  canonical string to the hexadecimal hash, \<open>tpm\<close> is the signature check if there is a TPM.
\<close>

section \<open>Events\<close>

record actor =
  actor_id :: string
  actor_role :: string
  actor_ip :: string
  actor_userAgent :: "string option"

record audit_event =
  ev_id :: string
  ev_timestamp :: string
  ev_type :: string
  ev_severity :: "string option"
  ev_caller :: "string option"
  ev_message :: string
  ev_actor :: "actor option"
  ev_data :: "json option"
  ev_hash :: string
  ev_prevHash :: string
  ev_hwSignature :: "string option"
  ev_correlationId :: "string option"
  ev_formatted :: "string option"

definition optString :: "string option \<Rightarrow> json" where
  "optString o' = (case o' of None \<Rightarrow> JUndef | Some s \<Rightarrow> JStr s)"

definition optData :: "json option \<Rightarrow> json" where
  "optData o' = (case o' of None \<Rightarrow> JUndef | Some d \<Rightarrow> d)"

definition optActor :: "actor option \<Rightarrow> json" where
  "optActor o' = (case o' of None \<Rightarrow> JUndef
     | Some a \<Rightarrow> JObj ([(''id'', JStr (actor_id a)), (''role'', JStr (actor_role a)), (''ip'', JStr (actor_ip a))]
         @ (case actor_userAgent a of None \<Rightarrow> [] | Some u \<Rightarrow> [(''userAgent'', JStr u)])))"

text \<open>The object whose hash an event carries: everything but the hash, the signature and the
  formatted text.\<close>

definition hashInput :: "audit_event \<Rightarrow> json" where
  "hashInput e = JObj [(''id'', JStr (ev_id e)), (''timestamp'', JStr (ev_timestamp e)),
     (''type'', JStr (ev_type e)), (''severity'', optString (ev_severity e)),
     (''caller'', optString (ev_caller e)), (''message'', JStr (ev_message e)),
     (''actor'', optActor (ev_actor e)), (''data'', optData (ev_data e)),
     (''correlationId'', optString (ev_correlationId e)), (''prevHash'', JStr (ev_prevHash e))]"

section \<open>verifyChain\<close>

record broken_at =
  br_eventId :: string
  br_expected :: string
  br_actual :: string
  br_type :: string

datatype verdict = Intact nat | Broken nat broken_at

definition truthy :: "string option \<Rightarrow> bool" where
  "truthy o' \<longleftrightarrow> o' \<noteq> None \<and> o' \<noteq> Some []"

definition signedBy :: "(string \<Rightarrow> string \<Rightarrow> bool) option \<Rightarrow> audit_event \<Rightarrow> bool" where
  "signedBy tpm e = (case (tpm, ev_hwSignature e) of (Some v, Some sg) \<Rightarrow> v (ev_hash e) sg | _ \<Rightarrow> False)"

text \<open>The loop over the stream, newest event first; \<open>prev\<close> is the event read before. A throwing
  \<open>computeHash\<close> makes the verification throw.\<close>

fun verifyLoop :: "(string \<Rightarrow> string) \<Rightarrow> (string \<Rightarrow> string \<Rightarrow> bool) option \<Rightarrow> nat \<Rightarrow> audit_event option
    \<Rightarrow> audit_event list \<Rightarrow> verdict result" where
  "verifyLoop digest tpm n prev [] = Inr (Intact n)"
| "verifyLoop digest tpm n prev (e # es) =
    (if ev_type e = ''CHECKPOINT'' then
       (if truthy (ev_hwSignature e) \<and> tpm \<noteq> None then
          (if signedBy tpm e then verifyLoop digest tpm (n + 1) (Some e) es
           else Inr (Broken (n + 1) \<lparr>br_eventId = ev_id e, br_expected = ''VALID_TPM_SIG'',
             br_actual = ''INVALID_SIG'', br_type = ''CHECKPOINT_TAMPER''\<rparr>))
        else if ev_prevHash e \<noteq> ''TRUNCATED'' then
          Inr (Broken (n + 1) \<lparr>br_eventId = ev_id e, br_expected = ''TPM_SIGNATURE'',
             br_actual = ''UNSIGNED'', br_type = ''UNSIGNED_CHECKPOINT''\<rparr>)
        else verifyLoop digest tpm (n + 1) (Some e) es)
     else case computeHash digest (hashInput e) of
       Inl err \<Rightarrow> Inl err
     | Inr expected \<Rightarrow>
        (if ev_hash e \<noteq> expected then
           Inr (Broken (n + 1) \<lparr>br_eventId = ev_id e, br_expected = expected,
             br_actual = ev_hash e, br_type = ''HASH_MISMATCH''\<rparr>)
         else case prev of
           Some p \<Rightarrow>
             (if ev_prevHash p \<noteq> ev_hash e \<and> ev_prevHash p \<noteq> ''TRUNCATED'' then
                Inr (Broken (n + 1) \<lparr>br_eventId = ev_id p, br_expected = ev_hash e,
                  br_actual = ev_prevHash p, br_type = ''CHAIN_BREAK''\<rparr>)
              else verifyLoop digest tpm (n + 1) (Some e) es)
         | None \<Rightarrow> verifyLoop digest tpm (n + 1) (Some e) es))"

text \<open>The limit \<open>-1\<close> of \<open>verifyFullChain\<close> is \<^const>\<open>None\<close>; its \<open>MAX_SAFE_INTEGER\<close> exceeds every ledger.\<close>

definition verifyChain :: "(string \<Rightarrow> string) \<Rightarrow> (string \<Rightarrow> string \<Rightarrow> bool) option \<Rightarrow> nat option
    \<Rightarrow> audit_event timeline \<Rightarrow> verdict result" where
  "verifyChain digest tpm limit repo = verifyLoop digest tpm 0 None
     (case limit of None \<Rightarrow> tl_stream (length (kv_entries (tl_kv repo))) True repo | Some n \<Rightarrow> tl_stream n True repo)"

definition verifyFullChain :: "(string \<Rightarrow> string) \<Rightarrow> (string \<Rightarrow> string \<Rightarrow> bool) option
    \<Rightarrow> audit_event timeline \<Rightarrow> verdict result" where
  "verifyFullChain digest tpm repo = verifyChain digest tpm None repo"

section \<open>getMerkleProof\<close>

record merkle_proof =
  mp_leaf :: string
  mp_index :: nat
  mp_proof :: "string list"
  mp_root :: string

fun indexOf :: "'a \<Rightarrow> 'a list \<Rightarrow> nat option" where
  "indexOf x [] = None"
| "indexOf x (y # ys) = (if x = y then Some 0 else map_option Suc (indexOf x ys))"

definition getMerkleProof :: "(string \<Rightarrow> string) \<Rightarrow> string \<Rightarrow> audit_event list \<Rightarrow> merkle_proof option" where
  "getMerkleProof digest eventHash recent =
    (let hashes = rev (map ev_hash recent) in
     case indexOf eventHash hashes of
       None \<Rightarrow> None
     | Some i \<Rightarrow> (let tree = new_merkle digest hashes in
         Some \<lparr>mp_leaf = eventHash, mp_index = i, mp_proof = getProof tree i, mp_root = getRoot tree\<rparr>))"

section \<open>What an intact verdict says\<close>

text \<open>A list of events, newest first, in which every hash is right and every event names the hash of
  the one before it.\<close>

fun chained :: "(string \<Rightarrow> string) \<Rightarrow> audit_event list \<Rightarrow> bool" where
  "chained digest [] \<longleftrightarrow> True"
| "chained digest [e] \<longleftrightarrow> computeHash digest (hashInput e) = Inr (ev_hash e)"
| "chained digest (e # f # es) \<longleftrightarrow> computeHash digest (hashInput e) = Inr (ev_hash e)
     \<and> ev_prevHash e = ev_hash f \<and> chained digest (f # es)"

definition plain :: "audit_event \<Rightarrow> bool" where
  "plain e \<longleftrightarrow> ev_type e \<noteq> ''CHECKPOINT'' \<and> ev_prevHash e \<noteq> ''TRUNCATED''"

lemma verifyLoop_plain:
  assumes "list_all plain es" and "\<forall>p. prev = Some p \<longrightarrow> ev_prevHash p \<noteq> ''TRUNCATED''"
  shows "verifyLoop digest tpm n prev es = Inr (Intact m) \<longleftrightarrow>
    m = n + length es \<and> chained digest es \<and>
    (case (prev, es) of (Some p, e # _) \<Rightarrow> ev_prevHash p = ev_hash e | _ \<Rightarrow> True)"
  using assms
proof (induction es arbitrary: n prev)
  case (Cons e es)
  have e: "ev_type e \<noteq> ''CHECKPOINT''" "\<forall>p. Some e = Some p \<longrightarrow> ev_prevHash p \<noteq> ''TRUNCATED''"
    using Cons.prems(1) by (auto simp: plain_def)
  have IH: "verifyLoop digest tpm (Suc n) (Some e) es = Inr (Intact m) \<longleftrightarrow> m = Suc n + length es \<and> chained digest es \<and>
      (case es of f # _ \<Rightarrow> ev_prevHash e = ev_hash f | [] \<Rightarrow> True)"
    using Cons.IH [of "Some e" "Suc n"] Cons.prems(1) e(2) by (simp split: list.splits)
  have tail: "chained digest (e # es) \<longleftrightarrow> computeHash digest (hashInput e) = Inr (ev_hash e) \<and> chained digest es \<and>
      (case es of f # _ \<Rightarrow> ev_prevHash e = ev_hash f | [] \<Rightarrow> True)"
    by (cases es) auto
  show ?case
    using e(1) IH Cons.prems(2) unfolding tail
    by (cases prev) (auto split: sum.splits)
qed (auto split: option.splits)

lemma indexOf_Some: "indexOf x ys = Some i \<Longrightarrow> i < length ys \<and> ys ! i = x"
  by (induction ys arbitrary: i) (auto split: if_splits)

lemma indexOf_None: "indexOf x ys = None \<longleftrightarrow> x \<notin> set ys"
  by (induction ys) auto

section \<open>The newest hash commits to the whole ledger\<close>

text \<open>What the hash of an event covers, objects with their entries sorted.\<close>

definition covered :: "audit_event \<Rightarrow> audit_event" where
  "covered e = e\<lparr>ev_hash := [], ev_hwSignature := None, ev_formatted := None,
     ev_data := map_option canon (ev_data e)\<rparr>"

definition hashText :: "audit_event \<Rightarrow> string" where
  "hashText e = (case canonicalStringify 0 (hashInput e) of Inl _ \<Rightarrow> [] | Inr t \<Rightarrow> joinText t)"

definition wf_event :: "audit_event \<Rightarrow> bool" where
  "wf_event e \<longleftrightarrow> (\<forall>d. ev_data e = Some d \<longrightarrow> d \<noteq> JUndef \<and> wf_json d)"

lemma canon_scalars [simp]:
  "canon (optString o') = optString o'" "optString a = optString b \<longleftrightarrow> a = b" "wf_json (optString o')"
  by (auto simp: optString_def split: option.splits)

lemma canon_eq_undef [simp]: "canon v = JUndef \<longleftrightarrow> v = JUndef" "JUndef = canon v \<longleftrightarrow> v = JUndef"
  by (cases v; simp)+

lemma wf_optActor [simp]: "wf_json (optActor a)"
  by (auto simp: optActor_def split: option.splits)

lemma object_entries_inject:
  assumes "JObj (sortEntries es) = JObj (sortEntries fs)" and "distinct (map fst es)" and "distinct (map fst fs)"
  shows "map_of es k = map_of fs k"
proof -
  have "set es = set fs" using assms(1) by (metis json.inject(5) set_sortEntries)
  then show ?thesis using map_of_inject_set [OF assms(2,3)] by simp
qed

definition actorEntries :: "actor \<Rightarrow> (string \<times> json) list" where
  "actorEntries a = [(''id'', JStr (actor_id a)), (''role'', JStr (actor_role a)), (''ip'', JStr (actor_ip a))]
    @ (case actor_userAgent a of None \<Rightarrow> [] | Some u \<Rightarrow> [(''userAgent'', JStr u)])"

lemma canon_optActor: "canon (optActor (Some a)) = JObj (sortEntries (actorEntries a))"
  by (simp add: optActor_def actorEntries_def split: option.split)

lemma actorEntries_lookup:
  "distinct (map fst (actorEntries a))" "map_of (actorEntries a) ''id'' = Some (JStr (actor_id a))"
  "map_of (actorEntries a) ''role'' = Some (JStr (actor_role a))" "map_of (actorEntries a) ''ip'' = Some (JStr (actor_ip a))"
  "map_of (actorEntries a) ''userAgent'' = map_option JStr (actor_userAgent a)"
  by (simp_all add: actorEntries_def split: option.split)

lemma map_option_JStr: "map_option JStr a = map_option JStr b \<longleftrightarrow> a = b"
  by (cases a; cases b) auto

lemma canon_optActor_inject:
  assumes "canon (optActor a) = canon (optActor b)"
  shows "a = b"
proof (cases a; cases b)
  fix x y assume ab: "a = Some x" "b = Some y"
  have eq: "map_of (actorEntries x) k = map_of (actorEntries y) k" for k
    using assms unfolding ab canon_optActor by (intro object_entries_inject actorEntries_lookup(1))
  have "x = y"
    using eq [of "''id''"] eq [of "''role''"] eq [of "''ip''"] eq [of "''userAgent''"]
    by (intro actor.equality) (simp_all add: actorEntries_lookup map_option_JStr)
  then show "a = b" using ab by simp
qed (use assms in \<open>auto simp: optActor_def\<close>)

definition hashEntries :: "audit_event \<Rightarrow> (string \<times> json) list" where
  "hashEntries e = [(''id'', JStr (ev_id e)), (''timestamp'', JStr (ev_timestamp e)),
     (''type'', JStr (ev_type e)), (''severity'', optString (ev_severity e)),
     (''caller'', optString (ev_caller e)), (''message'', JStr (ev_message e)),
     (''actor'', canon (optActor (ev_actor e))), (''data'', canon (optData (ev_data e))),
     (''correlationId'', optString (ev_correlationId e)), (''prevHash'', JStr (ev_prevHash e))]"

lemma canon_hashInput: "canon (hashInput e) = JObj (sortEntries (hashEntries e))"
  by (simp add: hashInput_def hashEntries_def)

lemma canon_optData_inject:
  assumes "canon (optData (ev_data e)) = canon (optData (ev_data f))" and "wf_event e" and "wf_event f"
  shows "map_option canon (ev_data e) = map_option canon (ev_data f)"
  using assms by (cases "ev_data e"; cases "ev_data f") (auto simp: optData_def wf_event_def)

lemma hashInput_inject:
  assumes "canon (hashInput e) = canon (hashInput f)" and "wf_event e" and "wf_event f"
  shows "covered e = covered f"
proof -
  have eq: "map_of (hashEntries e) k = map_of (hashEntries f) k" for k
    using assms(1) unfolding canon_hashInput by (rule object_entries_inject) (simp_all add: hashEntries_def)
  have "ev_id e = ev_id f" using eq [of "''id''"] by (simp add: hashEntries_def)
  moreover have "ev_timestamp e = ev_timestamp f" using eq [of "''timestamp''"] by (simp add: hashEntries_def)
  moreover have "ev_type e = ev_type f" using eq [of "''type''"] by (simp add: hashEntries_def)
  moreover have "ev_severity e = ev_severity f" using eq [of "''severity''"] by (simp add: hashEntries_def)
  moreover have "ev_caller e = ev_caller f" using eq [of "''caller''"] by (simp add: hashEntries_def)
  moreover have "ev_message e = ev_message f" using eq [of "''message''"] by (simp add: hashEntries_def)
  moreover have "ev_actor e = ev_actor f"
    using eq [of "''actor''"] by (intro canon_optActor_inject) (simp add: hashEntries_def)
  moreover have "map_option canon (ev_data e) = map_option canon (ev_data f)"
    using eq [of "''data''"] by (intro canon_optData_inject assms(2,3)) (simp add: hashEntries_def)
  moreover have "ev_correlationId e = ev_correlationId f" using eq [of "''correlationId''"] by (simp add: hashEntries_def)
  moreover have "ev_prevHash e = ev_prevHash f" using eq [of "''prevHash''"] by (simp add: hashEntries_def)
  ultimately show ?thesis by (intro audit_event.equality) (simp_all add: covered_def)
qed

lemma wf_hashInput: "wf_event e \<Longrightarrow> wf_json (hashInput e)"
  by (auto simp: hashInput_def optData_def wf_event_def split: option.splits)

lemma computeHash_inject:
  assumes "computeHash digest (hashInput e) = Inr h" and "computeHash digest (hashInput f) = Inr h"
    and "wf_event e" and "wf_event f" and "inj_on digest (hashText ` A)" and "e \<in> A" and "f \<in> A"
  shows "covered e = covered f"
proof -
  have canonical: "\<exists>s. canonicalStringify 0 (hashInput e) = Inr (Some s) \<and> hashText e = s \<and> digest s = h"
    if "computeHash digest (hashInput e) = Inr h" for e
    using that canonicalStringify_undefined [of 0 "hashInput e"]
    by (auto simp: computeHash_def hashText_def joinText_def hashInput_def split: sum.splits option.splits)
  obtain s t where st: "canonicalStringify 0 (hashInput e) = Inr (Some s)" "hashText e = s" "digest s = h"
    "canonicalStringify 0 (hashInput f) = Inr (Some t)" "hashText f = t" "digest t = h"
    using canonical [OF assms(1)] canonical [OF assms(2)] by blast
  then have "s = t" using assms(5-7) by (metis image_eqI inj_onD)
  then have "canon (hashInput e) = canon (hashInput f)"
    using st canonicalStringify_inject [of "hashInput e" s "hashInput f"] wf_hashInput assms(3,4) by simp
  then show ?thesis using hashInput_inject assms(3,4) by blast
qed

lemma chained_hd: "chained digest (e # es) \<Longrightarrow> computeHash digest (hashInput e) = Inr (ev_hash e) \<and> chained digest es
    \<and> (es \<noteq> [] \<longrightarrow> ev_prevHash e = ev_hash (hd es))"
  by (cases es) auto

lemma chained_commits:
  assumes "chained digest es" and "chained digest fs" and "length es = length fs"
    and "es \<noteq> [] \<Longrightarrow> ev_hash (hd es) = ev_hash (hd fs)"
    and "\<forall>e \<in> set es \<union> set fs. wf_event e" and "inj_on digest (hashText ` A)" and "set es \<union> set fs \<subseteq> A"
  shows "map covered es = map covered fs"
  using assms(3,1,2,4,5,7)
proof (induction es fs rule: list_induct2)
  case (Cons e es f fs)
  have c: "covered e = covered f"
    using chained_hd [OF Cons.prems(1)] chained_hd [OF Cons.prems(2)] Cons.prems(3-5)
    by (intro computeHash_inject [OF _ _ _ _ assms(6), of e "ev_hash e" f]) auto
  have "ev_prevHash e = ev_prevHash f"
    using arg_cong [OF c, of ev_prevHash] by (simp add: covered_def)
  then have "es \<noteq> [] \<Longrightarrow> ev_hash (hd es) = ev_hash (hd fs)"
    using chained_hd [OF Cons.prems(1)] chained_hd [OF Cons.prems(2)] Cons.hyps by auto
  then show ?case
    using Cons.IH chained_hd [OF Cons.prems(1)] chained_hd [OF Cons.prems(2)] Cons.prems(4,5) c by auto
qed simp


text \<open>Without the condition on arrays the hash does not tell the data apart: an \<open>undefined\<close> element leaves no trace, and
  a number that is not finite is printed as \<open>null\<close>.\<close>

lemma undefined_element_not_covered:
  "computeHash digest (JObj [(''data'', JArr [JUndef])]) = computeHash digest (JObj [(''data'', JArr [])])"
proof -
  have "canonicalStringify 0 (JObj [(''data'', JArr [JUndef])]) = canonicalStringify 0 (JObj [(''data'', JArr [])])" by code_simp
  then show ?thesis by (simp add: computeHash_def)
qed

text \<open>A minimal event with the given id and predecessor that carries its right hash.\<close>

definition seal :: "(string \<Rightarrow> string) \<Rightarrow> audit_event \<Rightarrow> audit_event" where
  "seal digest e = (case computeHash digest (hashInput e) of Inl _ \<Rightarrow> e | Inr h \<Rightarrow> e\<lparr>ev_hash := h\<rparr>)"

definition sampleEvent :: "string \<Rightarrow> string \<Rightarrow> audit_event" where
  "sampleEvent i prev = \<lparr>ev_id = i, ev_timestamp = ''t'', ev_type = ''INFO'', ev_severity = None,
     ev_caller = None, ev_message = ''m'', ev_actor = None, ev_data = None, ev_hash = [],
     ev_prevHash = prev, ev_hwSignature = None, ev_correlationId = None, ev_formatted = None\<rparr>"

definition sampleDigest :: "string \<Rightarrow> string" where
  "sampleDigest = filter (\<lambda>c. c = CHR ''1'' \<or> c = CHR ''2'')"

definition sampleLedger :: "string option \<Rightarrow> audit_event list" where
  "sampleLedger fmt = (let e = seal sampleDigest (sampleEvent ''1'' ''GENESIS'')
     in [(seal sampleDigest (sampleEvent ''2'' (ev_hash e)))\<lparr>ev_formatted := fmt\<rparr>, e])"

lemma sortEntries_hashKeys:
  "sortEntries [(''id'', a), (''timestamp'', b), (''type'', c), (''severity'', d), (''caller'', e), (''message'', f),
      (''actor'', g), (''data'', h), (''correlationId'', i), (''prevHash'', j)]
    = [(''actor'', g), (''caller'', e), (''correlationId'', i), (''data'', h), (''id'', a), (''message'', f),
      (''prevHash'', j), (''severity'', d), (''timestamp'', b), (''type'', c)]"
  by (simp add: sortEntries_def char_codes_ascii)

lemma sample_hash:
  "canonicalStringify 0 (hashInput (sampleEvent i prev)) = Inr (Some (''{\"actor\":undefined,\"caller\":undefined,''
     @ ''\"correlationId\":undefined,\"data\":undefined,\"id\":'' @ quote i @ '',\"message\":\"m\",\"prevHash\":''
     @ quote prev @ '',\"severity\":undefined,\"timestamp\":\"t\",\"type\":\"INFO\"}''))"
  by (simp add: hashInput_def sampleEvent_def canonicalStringify.simps sortEntries_hashKeys optString_def optData_def
      optActor_def templateText_def MAX_DEPTH_def MAX_BREADTH_def)
    (simp add: quote_def escapeChar_def)

lemma hashInput_update [simp]:
  "hashInput (e\<lparr>ev_hash := h\<rparr>) = hashInput e" "hashInput (e\<lparr>ev_formatted := f\<rparr>) = hashInput e"
  by (simp_all add: hashInput_def)

lemma hashText_update [simp]:
  "hashText (e\<lparr>ev_hash := h\<rparr>) = hashText e" "hashText (e\<lparr>ev_formatted := f\<rparr>) = hashText e"
  by (simp_all add: hashText_def)

lemma sample_digests:
  "sampleDigest (hashText (sampleEvent ''1'' ''GENESIS'')) = ''1''"
  "sampleDigest (hashText (sampleEvent ''2'' ''1'')) = ''21''"
  by (simp_all add: hashText_def sample_hash joinText_def quote_def escapeChar_def sampleDigest_def)

lemma sample_computeHash: "computeHash digest (hashInput (sampleEvent i p)) = Inr (digest (hashText (sampleEvent i p)))"
  unfolding computeHash_def hashText_def by (simp only: sample_hash sum.case)

lemma sample_events:
  "seal sampleDigest (sampleEvent ''1'' ''GENESIS'') = (sampleEvent ''1'' ''GENESIS'')\<lparr>ev_hash := ''1''\<rparr>"
  "seal sampleDigest (sampleEvent ''2'' ''1'') = (sampleEvent ''2'' ''1'')\<lparr>ev_hash := ''21''\<rparr>"
  by (simp_all add: seal_def sample_computeHash sample_digests)

lemma sampleLedger_eq: "sampleLedger fmt = [(sampleEvent ''2'' ''1'')\<lparr>ev_hash := ''21'', ev_formatted := fmt\<rparr>,
    (sampleEvent ''1'' ''GENESIS'')\<lparr>ev_hash := ''1''\<rparr>]"
  by (simp add: sampleLedger_def sample_events)

lemma sampleEvent_fields [simp]:
  "ev_type (sampleEvent i p) = ''INFO''" "ev_prevHash (sampleEvent i p) = p" "ev_data (sampleEvent i p) = None"
  by (simp_all add: sampleEvent_def)

lemma sampleLedger_intact: "verifyLoop sampleDigest None 0 None (sampleLedger fmt) = Inr (Intact 2)"
  by (simp add: sampleLedger_eq sample_computeHash sample_digests)


text \<open>A proof served for an event of the window verifies.\<close>

lemma getMerkleProof_verifies:
  assumes "getMerkleProof digest h recent = Some p" and "\<And>s. digest s \<noteq> []" and "[] \<notin> ev_hash ` set recent"
  shows "verify digest (mp_root p) h (mp_index p) (mp_proof p)"
proof -
  obtain i where i: "indexOf h (rev (map ev_hash recent)) = Some i"
    "p = \<lparr>mp_leaf = h, mp_index = i, mp_proof = getProof (new_merkle digest (rev (map ev_hash recent))) i,
       mp_root = getRoot (new_merkle digest (rev (map ev_hash recent)))\<rparr>"
    using assms(1) by (auto simp: getMerkleProof_def Let_def split: option.splits)
  then show ?thesis
    using getProof_verifies [OF assms(2), of "rev (map ev_hash recent)" i] indexOf_Some [OF i(1)] assms(3) by auto
qed

end
