(* ===== verification/Sanitize.thy ===== *)
theory Sanitize
  imports Json
begin

text \<open>
  \<open>sanitizeDataForAudit\<close> of domain/analysis/audit.ts on the JavaScript object graph: objects and
  arrays live in a heap and may be shared or cyclic, \<open>seen\<close> is the set of objects already entered.
  The result is a tree of fresh containers. A function that is kept (as an array element) and
  \<open>undefined\<close> are the same value to \<open>JSON.stringify\<close>; both become \<^const>\<open>JUndef\<close>.
\<close>

datatype jsval = VUndef | VNull | VBool bool | VNum string | VStr string | VBig int | VSym string | VFun
  | VRef nat

datatype jsobj = OArr "jsval list" | OObj "(string \<times> jsval) list"

fun scalarValue :: "jsval \<Rightarrow> json" where
  "scalarValue VNull = JNull"
| "scalarValue (VBool b) = JBool b"
| "scalarValue (VNum t) = JNum t"
| "scalarValue (VStr s) = JStr s"
| "scalarValue (VBig n) = JStr (int_decimal n @ ''n'')"
| "scalarValue (VSym s) = JStr s"
| "scalarValue _ = JUndef"

function sanitizeDataForAudit :: "(nat \<Rightarrow> jsobj) \<Rightarrow> nat \<Rightarrow> jsval \<Rightarrow> nat list \<Rightarrow> json \<times> nat list" where
  "sanitizeDataForAudit heap depth v seen =
    (if 6 < depth then (JStr ''[Truncated: Max Depth]'', seen)
     else case v of
       VRef a \<Rightarrow>
         (if a \<in> set seen then (JStr ''[Circular]'', seen)
          else case heap a of
            OArr xs \<Rightarrow>
              (let (ys, seen') = mapAccum (\<lambda>x s. sanitizeDataForAudit heap (depth + 1) x s) (take 50 xs) (a # seen)
               in (JArr ys, seen'))
          | OObj es \<Rightarrow>
              (let (fs, seen') = mapAccum (\<lambda>e s. let (j, s') = sanitizeDataForAudit heap (depth + 1) (snd e) s
                     in ((fst e, j), s')) (filter (\<lambda>e. snd e \<noteq> VFun) (take 50 es)) (a # seen)
               in (JObj fs, seen')))
     | _ \<Rightarrow> (scalarValue v, seen))"
  by pat_completeness auto
termination
  by (relation "measure (\<lambda>(heap, depth, v, seen). 7 - depth)") auto

declare sanitizeDataForAudit.simps [simp del]

lemma fits_scalarValue [simp]: "fits n (scalarValue v)"
  by (cases v) auto

lemma sanitize_fits: "fits (7 - depth) (fst (sanitizeDataForAudit heap depth v seen))"
proof (induction heap depth v seen rule: sanitizeDataForAudit.induct)
  case (1 heap depth v seen)
  let ?f = "\<lambda>x s. sanitizeDataForAudit heap (depth + 1) x s"
  let ?g = "\<lambda>e s. let (j, s') = ?f (snd e) s in ((fst e :: string, j), s')"
  show ?case
  proof (cases "6 < depth")
    case False
    show ?thesis
    proof (cases v)
      case (VRef a)
      show ?thesis
      proof (cases "a \<in> set seen")
        case new: False
        show ?thesis
        proof (cases "heap a")
          case (OArr xs)
          have "fits (7 - (depth + 1)) y" if "y \<in> set (fst (mapAccum ?f (take 50 xs) (a # seen)))" for y
            using mapAccum_elem [OF that] 1(1) [OF False VRef new OArr] by auto
          then show ?thesis using False VRef new OArr
            by (simp add: sanitizeDataForAudit.simps [of heap depth] case_prod_beta Let_def MAX_BREADTH_def)
        next
          case (OObj es)
          have "fits (7 - (depth + 1)) (snd y)"
            if "y \<in> set (fst (mapAccum ?g (filter (\<lambda>e. snd e \<noteq> VFun) (take 50 es)) (a # seen)))" for y
            using mapAccum_elem [OF that] 1(2) [OF False VRef new OObj] by (auto simp: case_prod_beta Let_def)
          moreover have "length (filter (\<lambda>e. snd e \<noteq> VFun) (take 50 es)) \<le> 50"
            by (rule order.trans [OF length_filter_le]) simp
          ultimately show ?thesis using False VRef new OObj
            by (simp add: sanitizeDataForAudit.simps [of heap depth] case_prod_beta Let_def MAX_BREADTH_def)
        qed
      qed (use False VRef in \<open>simp add: sanitizeDataForAudit.simps [of heap depth]\<close>)
    qed (use False in \<open>simp_all add: sanitizeDataForAudit.simps [of heap depth]\<close>)
  qed (simp add: sanitizeDataForAudit.simps)
qed

end
