(* ===== verification/Audit_Ledger.thy ===== *)
theory Audit_Ledger
  imports Audit_Verifier Sanitize
begin

text \<open>
  The audit service, domain/analysis/audit.ts: the queue of events to log, their hashing, signing and
  chaining, the write buffer and its flushes, synchronisation with other nodes, Merkle
  commitments and retention. The digest, the TPM and \<open>Date.parse\<close> are parameters; logging output and
  event-bus notifications are left out. \<open>audit_step\<close> interleaves the asynchronous sections.
\<close>

section \<open>State\<close>

record tpm =
  tpm_sign :: "string \<Rightarrow> string result"
  tpm_verify :: "string \<Rightarrow> string \<Rightarrow> bool"
  tpm_healthy :: bool

text \<open>An event as it is handed to \<open>logEvent\<close>, with its data already sanitised once it is queued.\<close>

record 'd log_event =
  q_type :: string
  q_severity :: "string option"
  q_caller :: "string option"
  q_message :: string
  q_actor :: "actor option"
  q_data :: "'d option"
  q_timestamp :: "string option"
  q_correlationId :: "string option"
  q_fromAudit :: bool

type_synonym queued_event = "json log_event"

record audit =
  initialized :: bool
  restricted :: bool
  lastHash :: string
  lastVerifiedHash :: string
  logQueue :: "queued_event list"
  isProcessingQueue :: bool
  currentQueue :: "queued_event list"
  auditBuffer :: "audit_event list"
  flushing :: "audit_event list option"
  repo :: "audit_event timeline"
  currentSessionHashes :: "string list"
  merkleTree :: merkle
  wormLogs :: "audit_event list option"

section \<open>Logging\<close>

definition MAX_QUEUE_DEPTH :: nat where "MAX_QUEUE_DEPTH = 5000"

definition allowedRestricted :: "string \<Rightarrow> bool" where
  "allowedRestricted t \<longleftrightarrow> t \<in> {''CRITICAL'', ''THREAT'', ''SUCCESS'', ''MERKLE_COMMIT''}"

definition sanitizeEvent :: "(nat \<Rightarrow> jsobj) \<Rightarrow> jsval log_event \<Rightarrow> queued_event" where
  "sanitizeEvent heap q = \<lparr>q_type = q_type q, q_severity = q_severity q, q_caller = q_caller q,
     q_message = q_message q, q_actor = q_actor q,
     q_data = map_option (\<lambda>d. fst (sanitizeDataForAudit heap 0 d [])) (q_data q),
     q_timestamp = q_timestamp q, q_correlationId = q_correlationId q, q_fromAudit = q_fromAudit q\<rparr>"

text \<open>\<open>logEvent\<close>. The queue processor is started when it is not running.\<close>

definition accepts :: "audit \<Rightarrow> 'd log_event \<Rightarrow> bool" where
  "accepts st q \<longleftrightarrow> \<not> q_fromAudit q \<and> \<not> (restricted st \<and> \<not> allowedRestricted (q_type q))
     \<and> length (logQueue st) \<le> MAX_QUEUE_DEPTH"

definition logEvent :: "(nat \<Rightarrow> jsobj) \<Rightarrow> jsval log_event \<Rightarrow> audit \<Rightarrow> audit result" where
  "logEvent heap q st =
    (if \<not> initialized st then Inl ''Service AuditService is not initialized.''
     else if accepts st q
       then Inr (st\<lparr>logQueue := logQueue st @ [sanitizeEvent heap q], isProcessingQueue := True\<rparr>)
       else Inr st)"

section \<open>The queue processor\<close>

text \<open>Case mapping of ASCII letters, for the formatted text.\<close>

definition upperChar :: "char \<Rightarrow> char" where
  "upperChar c = (if 97 \<le> byte c \<and> byte c \<le> 122 then char_of (byte c - 32) else c)"

definition lowerChar :: "char \<Rightarrow> char" where
  "lowerChar c = (if 65 \<le> byte c \<and> byte c \<le> 90 then char_of (byte c + 32) else c)"

definition orElse :: "string option \<Rightarrow> string \<Rightarrow> string" where
  "orElse o' d = (if truthy o' then the o' else d)"

definition formatEvent :: "queued_event \<Rightarrow> string" where
  "formatEvent q = ''['' @ map upperChar (q_type q) @ ''] ['' @ map lowerChar (orElse (q_severity q) ''info'')
     @ ''] ['' @ map upperChar (orElse (q_caller q) ''SYSTEM'') @ ''] '' @ q_message q"

text \<open>The ledger entry for a queued event: \<open>i\<close> is the fresh id, \<open>now\<close> the current time.\<close>

definition unsealed :: "queued_event \<Rightarrow> string \<Rightarrow> string \<Rightarrow> string \<Rightarrow> audit_event" where
  "unsealed q i now prev = \<lparr>ev_id = i, ev_timestamp = orElse (q_timestamp q) now, ev_type = q_type q,
     ev_severity = q_severity q, ev_caller = q_caller q, ev_message = q_message q, ev_actor = q_actor q,
     ev_data = q_data q, ev_hash = [], ev_prevHash = prev, ev_hwSignature = None,
     ev_correlationId = q_correlationId q, ev_formatted = None\<rparr>"

definition sealEvent :: "(string \<Rightarrow> string) \<Rightarrow> tpm option \<Rightarrow> queued_event \<Rightarrow> string \<Rightarrow> string \<Rightarrow> string
    \<Rightarrow> audit_event result" where
  "sealEvent digest tpm q i now prev =
    (let e = unsealed q i now prev in
     case computeHash digest (hashInput e) of
       Inl err \<Rightarrow> Inl err
     | Inr h \<Rightarrow>
        (case tpm of
           None \<Rightarrow> Inr (e\<lparr>ev_hash := h, ev_formatted := Some (formatEvent q)\<rparr>)
         | Some t \<Rightarrow> (case tpm_sign t h of
             Inl err \<Rightarrow> Inl err
           | Inr sg \<Rightarrow> Inr (e\<lparr>ev_hash := h, ev_hwSignature := Some sg, ev_formatted := Some (formatEvent q)\<rparr>))))"

text \<open>\<open>currentQueue = this.logQueue; this.logQueue = []\<close>, and the end of the loop.\<close>

definition takeQueue :: "audit \<Rightarrow> audit" where
  "takeQueue st = (if logQueue st = [] then st\<lparr>isProcessingQueue := False\<rparr>
     else st\<lparr>currentQueue := logQueue st, logQueue := []\<rparr>)"

text \<open>One round of the inner loop. A failure puts the rest of the batch back in front of the queue
  and ends the processor; \<open>wormOk\<close> says whether the mirror write succeeds, whose failure is only
  logged.\<close>

definition mirrored :: "string \<Rightarrow> bool" where
  "mirrored t \<longleftrightarrow> t \<in> {''CRITICAL'', ''THREAT'', ''MERKLE_COMMIT''}"

definition processNext :: "(string \<Rightarrow> string) \<Rightarrow> tpm option \<Rightarrow> string \<Rightarrow> string \<Rightarrow> bool \<Rightarrow> audit
    \<Rightarrow> audit \<times> audit_event option" where
  "processNext digest tpm i now wormOk st = (case currentQueue st of
     [] \<Rightarrow> (st, None)
   | q # qs \<Rightarrow>
      (case sealEvent digest tpm q i now (lastHash st) of
         Inl err \<Rightarrow> (st\<lparr>logQueue := q # qs @ logQueue st, currentQueue := [], isProcessingQueue := False\<rparr>, None)
       | Inr e \<Rightarrow>
          (let st1 = st\<lparr>currentQueue := qs, auditBuffer := auditBuffer st @ [e], lastHash := ev_hash e\<rparr>;
               st2 = (if q_type q = ''MERKLE_COMMIT'' then st1
                      else st1\<lparr>merkleTree := snd (addLeaf digest (merkleTree st1) (ev_hash e)),
                             currentSessionHashes := currentSessionHashes st1 @ [ev_hash e]\<rparr>);
               st3 = (case wormLogs st2 of
                        Some ws \<Rightarrow> if mirrored (q_type q) \<and> wormOk then st2\<lparr>wormLogs := Some (ws @ [e])\<rparr> else st2
                      | None \<Rightarrow> st2)
           in (st3, Some e))))"

section \<open>Flushing\<close>

definition eventKey :: "(string \<Rightarrow> int) \<Rightarrow> audit_event \<Rightarrow> int \<times> string" where
  "eventKey dateMs e = (dateMs (ev_timestamp e), ev_id e)"

definition flushBegin :: "audit \<Rightarrow> audit" where
  "flushBegin st = (if flushing st \<noteq> None \<or> auditBuffer st = [] then st
     else st\<lparr>flushing := Some (auditBuffer st), auditBuffer := []\<rparr>)"

text \<open>\<open>saveMany\<close> settles: \<open>commit n\<close> is the outcome of its \<open>n\<close>-th chunk.\<close>

definition flushEnd :: "(string \<Rightarrow> int) \<Rightarrow> (nat \<Rightarrow> bool) \<Rightarrow> audit \<Rightarrow> audit" where
  "flushEnd dateMs commit st = (case flushing st of
     None \<Rightarrow> st
   | Some toFlush \<Rightarrow>
      (case tl_setMany commit 0 (map (\<lambda>e. (eventKey dateMs e, e)) toFlush) (repo st) of
         (Inr _, r) \<Rightarrow> st\<lparr>repo := r, flushing := None\<rparr>
       | (Inl _, r) \<Rightarrow> st\<lparr>repo := r, auditBuffer := toFlush @ auditBuffer st, flushing := None\<rparr>))"

section \<open>Merkle commitment\<close>

definition merkleCommitEvent :: "string \<Rightarrow> nat \<Rightarrow> string option \<Rightarrow> queued_event" where
  "merkleCommitEvent root n sg = \<lparr>q_type = ''MERKLE_COMMIT'', q_severity = Some ''info'',
     q_caller = Some ''AUDIT:MERKLE'',
     q_message = ''Merkle Root committed for '' @ nat_decimal n @ '' events: '' @ take 12 root,
     q_actor = None,
     q_data = Some (JObj [(''root'', JStr root), (''eventCount'', JNum (nat_decimal n)), (''hwSignature'', optString sg)]),
     q_timestamp = None, q_correlationId = None, q_fromAudit = False\<rparr>"

text \<open>\<open>commitMerkleRoot\<close>; the sanitiser leaves the three scalars of the data as they are. When the
  signature or \<open>logEvent\<close> throws the hashes are put back.\<close>

definition commitMerkleRoot :: "(string \<Rightarrow> string) \<Rightarrow> tpm option \<Rightarrow> audit \<Rightarrow> audit" where
  "commitMerkleRoot digest tpm st =
    (if currentSessionHashes st = [] \<or> \<not> initialized st then st
     else if (case tpm of None \<Rightarrow> False | Some t \<Rightarrow> \<not> tpm_healthy t) then st
     else
       (let hashes = currentSessionHashes st; root = getRoot (new_merkle digest hashes);
            commit = (\<lambda>sg. let q = merkleCommitEvent root (length hashes) sg; st' = st\<lparr>currentSessionHashes := []\<rparr> in
              if accepts st' q then st'\<lparr>logQueue := logQueue st' @ [q], isProcessingQueue := True\<rparr> else st')
        in case tpm of
          None \<Rightarrow> commit None
        | Some t \<Rightarrow> (case tpm_sign t root of Inl _ \<Rightarrow> st | Inr sg \<Rightarrow> commit (Some sg))))"

section \<open>Synchronisation\<close>

definition repo_save :: "(string \<Rightarrow> int) \<Rightarrow> audit_event \<Rightarrow> audit_event timeline \<Rightarrow> audit_event timeline" where
  "repo_save dateMs e r = tl_set (dateMs (ev_timestamp e)) (ev_id e) e r"

text \<open>The guards of one round of \<open>syncEvents\<close>; a throwing \<open>computeHash\<close> ends the call.\<close>

definition syncAccepts :: "tpm option \<Rightarrow> string \<Rightarrow> string \<Rightarrow> audit_event \<Rightarrow> bool" where
  "syncAccepts tpm head expected e \<longleftrightarrow>
     ev_hash e \<noteq> head \<and> ev_hash e = expected
     \<and> \<not> (ev_prevHash e = ''TRUNCATED'' \<and> ev_type e \<noteq> ''CHECKPOINT'')
     \<and> (ev_prevHash e = ''TRUNCATED'' \<longrightarrow>
          (case (tpm, ev_hwSignature e) of
             (Some t, Some sg) \<Rightarrow> sg \<noteq> [] \<and> tpm_verify t (ev_hash e) sg | _ \<Rightarrow> False))
     \<and> \<not> (ev_prevHash e \<noteq> head \<and> ev_prevHash e \<noteq> ''TRUNCATED'')"

fun syncEvents :: "(string \<Rightarrow> string) \<Rightarrow> tpm option \<Rightarrow> (string \<Rightarrow> int) \<Rightarrow> audit_event list \<Rightarrow> audit
    \<Rightarrow> unit result \<times> audit" where
  "syncEvents digest tpm dateMs [] st = (Inr (), st)"
| "syncEvents digest tpm dateMs (e # es) st =
    (if ev_hash e = lastHash st then syncEvents digest tpm dateMs es st
     else case computeHash digest (hashInput e) of
       Inl err \<Rightarrow> (Inl err, st)
     | Inr expected \<Rightarrow>
        (if syncAccepts tpm (lastHash st) expected e
         then syncEvents digest tpm dateMs es (st\<lparr>repo := repo_save dateMs e (repo st), lastHash := ev_hash e\<rparr>)
         else syncEvents digest tpm dateMs es st))"

section \<open>Verification, recovery and retention\<close>

definition checkpointEvent :: "string \<Rightarrow> string \<Rightarrow> string \<Rightarrow> string \<Rightarrow> json \<Rightarrow> string \<Rightarrow> audit_event" where
  "checkpointEvent i now clr msg d fmt = \<lparr>ev_id = i, ev_timestamp = now, ev_type = ''CHECKPOINT'',
     ev_severity = Some ''info'', ev_caller = Some clr, ev_message = msg, ev_actor = None, ev_data = Some d,
     ev_hash = [], ev_prevHash = ''TRUNCATED'', ev_hwSignature = None, ev_correlationId = None,
     ev_formatted = Some fmt\<rparr>"

text \<open>The hash of a checkpoint covers only the fields it has: no actor and no correlation id.\<close>

definition checkpointInput :: "audit_event \<Rightarrow> json" where
  "checkpointInput e = JObj [(''id'', JStr (ev_id e)), (''timestamp'', JStr (ev_timestamp e)),
     (''type'', JStr (ev_type e)), (''severity'', optString (ev_severity e)), (''caller'', optString (ev_caller e)),
     (''message'', JStr (ev_message e)), (''data'', optData (ev_data e)), (''prevHash'', JStr (ev_prevHash e))]"

definition sealCheckpoint :: "(string \<Rightarrow> string) \<Rightarrow> tpm option \<Rightarrow> audit_event \<Rightarrow> audit_event result" where
  "sealCheckpoint digest tpm e = (case computeHash digest (checkpointInput e) of
     Inl err \<Rightarrow> Inl err
   | Inr h \<Rightarrow> (case tpm of None \<Rightarrow> Inr (e\<lparr>ev_hash := h\<rparr>)
       | Some t \<Rightarrow> (case tpm_sign t h of Inl err \<Rightarrow> Inl err
           | Inr sg \<Rightarrow> Inr (e\<lparr>ev_hash := h, ev_hwSignature := Some sg\<rparr>))))"

definition healDevChainBoundary :: "(string \<Rightarrow> string) \<Rightarrow> tpm option \<Rightarrow> (string \<Rightarrow> int) \<Rightarrow> string \<Rightarrow> string
    \<Rightarrow> audit \<Rightarrow> audit result" where
  "healDevChainBoundary digest tpm dateMs i now st =
    (case sealCheckpoint digest tpm (checkpointEvent i now ''AUDIT:DEV_HEAL''
        ''Dev Mode: Audit chain reset checkpoint inserted.'' (JObj [(''reason'', JStr ''DEV_MODE_AUTO_HEAL'')])
        ''[CHECKPOINT] [info] [AUDIT:DEV_HEAL] Dev Mode: Audit chain reset checkpoint inserted.'') of
       Inl err \<Rightarrow> Inl err
     | Inr c \<Rightarrow> Inr (st\<lparr>repo := repo_save dateMs c (repo st), lastHash := ev_hash c, lastVerifiedHash := ev_hash c\<rparr>))"

text \<open>\<open>restoreChainHead\<close>: \<open>heal\<close> says that the development-mode repair is enabled.\<close>

definition restoreChainHead :: "(string \<Rightarrow> string) \<Rightarrow> tpm option \<Rightarrow> (string \<Rightarrow> int) \<Rightarrow> bool \<Rightarrow> string \<Rightarrow> string
    \<Rightarrow> audit \<Rightarrow> unit result \<times> audit" where
  "restoreChainHead digest tpm dateMs heal i now st =
    (let failure = (\<lambda>m. ''Failed to restore chain head: '' @ m) in
     case tl_getLatest 1 (repo st) of
       [] \<Rightarrow> (Inr (), st)
     | e # _ \<Rightarrow>
        (if ev_hash e = [] then (Inr (), st)
         else
           (let st1 = st\<lparr>lastHash := ev_hash e\<rparr> in
            case verifyChain digest (map_option tpm_verify tpm) (Some 50) (repo st1) of
              Inl m \<Rightarrow> (Inl (failure m), st1)
            | Inr (Intact n) \<Rightarrow> (Inr (), st1\<lparr>lastVerifiedHash := lastHash st1\<rparr>)
            | Inr (Broken n b) \<Rightarrow>
               (if heal then
                  (case healDevChainBoundary digest tpm dateMs i now st1 of
                     Inl m \<Rightarrow> (Inl (failure m), st1) | Inr st2 \<Rightarrow> (Inr (), st2))
                else (Inl ''CHAIN INTEGRITY FAILURE. TAMPERING DETECTED. FORCING EMERGENCY LOCKDOWN.'',
                      st1\<lparr>restricted := True\<rparr>)))))"

definition verifyChainIncremental :: "(string \<Rightarrow> string) \<Rightarrow> tpm option \<Rightarrow> audit \<Rightarrow> unit result \<times> audit" where
  "verifyChainIncremental digest tpm st =
    (if lastHash st = lastVerifiedHash st then (Inr (), st)
     else case verifyChain digest (map_option tpm_verify tpm) (Some 100) (repo st) of
       Inl m \<Rightarrow> (Inl m, st)
     | Inr (Intact n) \<Rightarrow> (Inr (), st\<lparr>lastVerifiedHash := lastHash st\<rparr>)
     | Inr (Broken n b) \<Rightarrow> (Inl (''AUDIT LEDGER TAMPERING DETECTED: '' @ br_type b @ '' at event ''
          @ take 8 (br_eventId b) @ ''. System state compromised.''), st))"

definition getEventsInRange :: "string \<Rightarrow> nat \<Rightarrow> audit \<Rightarrow> audit_event list" where
  "getEventsInRange startHash limit st =
    (let s = tl_stream 1000 True (repo st)
     in take (max 1 limit) (drop 1 (dropWhile (\<lambda>e. ev_hash e \<noteq> startHash) s)))"

text \<open>\<open>purgeExpired\<close>: the boundary is the last event of the expired prefix of the oldest 10000. An
  exception in any of the steps is logged and ends the call.\<close>

definition purgeExpired :: "(string \<Rightarrow> string) \<Rightarrow> tpm option \<Rightarrow> (string \<Rightarrow> int) \<Rightarrow> int \<Rightarrow> string \<Rightarrow> string
    \<Rightarrow> int \<Rightarrow> audit \<Rightarrow> audit" where
  "purgeExpired digest tpm dateMs maxAgeDays i now nowMs st =
    (let cutoff = nowMs - maxAgeDays * 24 * 60 * 60 * 1000;
         expired = takeWhile (\<lambda>e. dateMs (ev_timestamp e) < cutoff) (tl_stream 10000 False (repo st))
     in if expired = [] then st
        else
          (let b = last expired;
               c = checkpointEvent i now ''AUDIT:RETENTION''
                 (''Chain Truncated. Genesis state summarized at '' @ ev_timestamp b)
                 (JObj [(''purgedEventsCutoff'', JStr (ev_timestamp b)), (''boundaryHash'', JStr (ev_hash b))])
                 ''[CHECKPOINT] [info] [AUDIT:RETENTION] Chain Truncated.''
           in case sealCheckpoint digest tpm c of
                Inl _ \<Rightarrow> st
              | Inr c' \<Rightarrow> (let r = repo_save dateMs c' (repo st) in st\<lparr>repo := snd (tl_deleteBefore cutoff r)\<rparr>)))"

text \<open>The archive loop: the events older than seven days among the oldest 10000 go to the WORM
  log; \<open>writeOk n\<close> is the outcome of the \<open>n\<close>-th append, and the first failure ends the run.\<close>

fun archiveLoop :: "(nat \<Rightarrow> bool) \<Rightarrow> nat \<Rightarrow> audit_event list \<Rightarrow> audit_event list \<Rightarrow> audit_event list" where
  "archiveLoop writeOk n [] ws = ws"
| "archiveLoop writeOk n (e # es) ws = (if writeOk n then archiveLoop writeOk (n + 1) es (ws @ [e]) else ws)"

definition archiveToColdStorage :: "(string \<Rightarrow> int) \<Rightarrow> (nat \<Rightarrow> bool) \<Rightarrow> int \<Rightarrow> audit \<Rightarrow> audit" where
  "archiveToColdStorage dateMs writeOk nowMs st = (case wormLogs st of
     None \<Rightarrow> st
   | Some ws \<Rightarrow> st\<lparr>wormLogs := Some (archiveLoop writeOk 0
        (takeWhile (\<lambda>e. dateMs (ev_timestamp e) < nowMs - 7 * 24 * 60 * 60 * 1000)
           (tl_stream 10000 False (repo st))) ws)\<rparr>)"

section \<open>The service as a step relation\<close>

text \<open>
  The asynchronous sections of the service, interleaved in any order. Beside the state the relation
  keeps the history: the events \<open>logEvent\<close> accepted, in order, and the ledger entries produced
  from them, oldest first. Ids are fresh (\<open>crypto.randomUUID\<close>).
\<close>

type_synonym history = "queued_event list \<times> audit_event list"

inductive audit_step :: "(string \<Rightarrow> string) \<Rightarrow> tpm option \<Rightarrow> (string \<Rightarrow> int) \<Rightarrow> audit \<times> history \<Rightarrow> audit \<times> history \<Rightarrow> bool"
  for digest tpm dateMs where
  log_accepted: "logEvent heap q st = Inr st' \<Longrightarrow> accepts st q \<Longrightarrow>
     audit_step digest tpm dateMs (st, acc, led) (st', acc @ [sanitizeEvent heap q], led)"
| log_dropped: "logEvent heap q st = Inr st' \<Longrightarrow> \<not> accepts st q \<Longrightarrow>
     audit_step digest tpm dateMs (st, acc, led) (st', acc, led)"
| batch: "isProcessingQueue st \<Longrightarrow> currentQueue st = [] \<Longrightarrow>
     audit_step digest tpm dateMs (st, acc, led) (takeQueue st, acc, led)"
| processed: "processNext digest tpm i now wormOk st = (st', Some e) \<Longrightarrow> i \<notin> ev_id ` set led \<Longrightarrow>
     audit_step digest tpm dateMs (st, acc, led) (st', acc, led @ [e])"
| requeued: "processNext digest tpm i now wormOk st = (st', None) \<Longrightarrow>
     audit_step digest tpm dateMs (st, acc, led) (st', acc, led)"
| flush_begins: "audit_step digest tpm dateMs (st, acc, led) (flushBegin st, acc, led)"
| flush_ends: "audit_step digest tpm dateMs (st, acc, led) (flushEnd dateMs commit st, acc, led)"
| merkle: "commitMerkleRoot digest tpm st = st' \<Longrightarrow>
     audit_step digest tpm dateMs (st, acc, led) (st', acc @ drop (length (logQueue st)) (logQueue st'), led)"

inductive audit_run :: "(string \<Rightarrow> string) \<Rightarrow> tpm option \<Rightarrow> (string \<Rightarrow> int) \<Rightarrow> audit \<Rightarrow> audit \<times> history \<Rightarrow> bool"
  for digest tpm dateMs st0 where
  run_start: "audit_run digest tpm dateMs st0 (st0, [], [])"
| run_step: "audit_run digest tpm dateMs st0 s \<Longrightarrow> audit_step digest tpm dateMs s s' \<Longrightarrow> audit_run digest tpm dateMs st0 s'"

text \<open>A freshly initialised service: nothing queued, buffered or in flight.\<close>

definition fresh :: "audit \<Rightarrow> bool" where
  "fresh st \<longleftrightarrow> initialized st \<and> logQueue st = [] \<and> currentQueue st = [] \<and> auditBuffer st = [] \<and> flushing st = None
     \<and> \<not> isProcessingQueue st \<and> kv_wf (tl_kv (repo st))"

subsection \<open>No accepted event is lost, and the order is kept\<close>

definition carries :: "queued_event \<Rightarrow> audit_event \<Rightarrow> bool" where
  "carries q e \<longleftrightarrow> ev_type e = q_type q \<and> ev_severity e = q_severity q \<and> ev_caller e = q_caller q
     \<and> ev_message e = q_message q \<and> ev_actor e = q_actor q \<and> ev_data e = q_data q
     \<and> ev_correlationId e = q_correlationId q \<and> (truthy (q_timestamp q) \<longrightarrow> Some (ev_timestamp e) = q_timestamp q)"

lemma sealEvent_Inr:
  assumes "sealEvent digest tpm q i now prev = Inr e"
  shows "carries q e" "ev_id e = i" "ev_prevHash e = prev" "computeHash digest (hashInput e) = Inr (ev_hash e)"
proof -
  obtain h where h: "computeHash digest (hashInput (unsealed q i now prev)) = Inr h"
    using assms by (auto simp: sealEvent_def Let_def split: sum.splits)
  obtain sg where e: "e = (unsealed q i now prev)\<lparr>ev_hash := h, ev_hwSignature := sg, ev_formatted := Some (formatEvent q)\<rparr>"
  proof (cases tpm)
    case None
    then show thesis using assms h that [of None] by (auto simp: sealEvent_def Let_def unsealed_def)
  next
    case (Some t)
    then show thesis using assms h that by (auto simp: sealEvent_def Let_def split: sum.splits)
  qed
  have "hashInput e = hashInput (unsealed q i now prev)" by (simp add: e hashInput_def)
  then show "computeHash digest (hashInput e) = Inr (ev_hash e)" using h e by simp
  show "carries q e" "ev_id e = i" "ev_prevHash e = prev"
    by (auto simp: e unsealed_def carries_def orElse_def truthy_def)
qed

lemma processNext_Some:
  assumes "processNext digest tpm i now wormOk st = (st', Some e)"
  obtains q qs where "currentQueue st = q # qs" "sealEvent digest tpm q i now (lastHash st) = Inr e"
    "currentQueue st' = qs" "logQueue st' = logQueue st" "auditBuffer st' = auditBuffer st @ [e]"
    "lastHash st' = ev_hash e" "flushing st' = flushing st" "repo st' = repo st"
    "isProcessingQueue st' = isProcessingQueue st" "initialized st' = initialized st"
  using assms by (fastforce simp: processNext_def Let_def split: list.splits sum.splits if_splits option.splits)

lemma processNext_None:
  assumes "processNext digest tpm i now wormOk st = (st', None)"
  shows "currentQueue st' @ logQueue st' = currentQueue st @ logQueue st" "auditBuffer st' = auditBuffer st"
    "lastHash st' = lastHash st" "flushing st' = flushing st" "repo st' = repo st" "initialized st' = initialized st"
    "isProcessingQueue st' = isProcessingQueue st \<or> (\<not> isProcessingQueue st' \<and> currentQueue st' = [])"
  using assms by (auto simp: processNext_def Let_def split: list.splits sum.splits if_splits option.splits)

lemma commitMerkleRoot_fields:
  "\<exists>qs. logQueue (commitMerkleRoot digest tpm st) = logQueue st @ qs"
  "currentQueue (commitMerkleRoot digest tpm st) = currentQueue st"
  "auditBuffer (commitMerkleRoot digest tpm st) = auditBuffer st"
  "lastHash (commitMerkleRoot digest tpm st) = lastHash st"
  "flushing (commitMerkleRoot digest tpm st) = flushing st"
  "repo (commitMerkleRoot digest tpm st) = repo st"
  by (auto simp: commitMerkleRoot_def Let_def split: option.splits sum.splits)

definition inv_queue :: "audit \<times> history \<Rightarrow> bool" where
  "inv_queue s = (case s of (st, acc, led) \<Rightarrow>
     \<exists>finished. acc = finished @ currentQueue st @ logQueue st \<and> list_all2 carries finished led)"

definition inv_chain :: "(string \<Rightarrow> string) \<Rightarrow> string \<Rightarrow> audit \<times> history \<Rightarrow> bool" where
  "inv_chain digest h0 s = (case s of (st, acc, led) \<Rightarrow> chained digest (rev led)
     \<and> lastHash st = (if led = [] then h0 else ev_hash (last led))
     \<and> (led \<noteq> [] \<longrightarrow> ev_prevHash (hd led) = h0))"

definition stored :: "(string \<Rightarrow> int) \<Rightarrow> audit \<Rightarrow> audit_event \<Rightarrow> bool" where
  "stored dateMs st e \<longleftrightarrow> kv_value (eventKey dateMs e) (tl_kv (repo st)) = Some e"

definition pending :: "audit \<Rightarrow> audit_event set" where
  "pending st = set (auditBuffer st) \<union> (case flushing st of None \<Rightarrow> {} | Some es \<Rightarrow> set es)"

definition inv_store :: "(string \<Rightarrow> int) \<Rightarrow> audit \<times> history \<Rightarrow> bool" where
  "inv_store dateMs s = (case s of (st, acc, led) \<Rightarrow> distinct (map ev_id led) \<and> pending st \<subseteq> set led
     \<and> (\<forall>e \<in> set led. e \<in> pending st \<or> stored dateMs st e))"

lemma audit_step_queue: "audit_step digest tpm dateMs s s' \<Longrightarrow> inv_queue s \<Longrightarrow> inv_queue s'"
proof (induction rule: audit_step.induct)
  case (log_accepted heap q st st' acc led)
  then show ?case by (auto simp: inv_queue_def logEvent_def split: if_splits)
next
  case (log_dropped heap q st st' acc led)
  then show ?case by (auto simp: inv_queue_def logEvent_def split: if_splits)
next
  case (batch st acc led)
  then show ?case by (auto simp: inv_queue_def takeQueue_def)
next
  case (processed i now wormOk st st' e led acc)
  then obtain q qs where pq: "currentQueue st = q # qs" "sealEvent digest tpm q i now (lastHash st) = Inr e"
    "currentQueue st' = qs" "logQueue st' = logQueue st"
    by (elim processNext_Some) auto
  obtain dn where d: "acc = dn @ currentQueue st @ logQueue st" "list_all2 carries dn led"
    using processed by (auto simp: inv_queue_def)
  show ?case
    using d pq sealEvent_Inr(1) [OF pq(2)]
    by (auto simp: inv_queue_def intro!: exI [of _ "dn @ [q]"] list_all2_appendI)
next
  case (requeued i now wormOk st st' acc led)
  then show ?case using processNext_None(1) [OF requeued(1)] by (auto simp: inv_queue_def)
next
  case (flush_begins st acc led)
  then show ?case by (auto simp: inv_queue_def flushBegin_def)
next
  case (flush_ends st acc led commit)
  then show ?case by (auto simp: inv_queue_def flushEnd_def split: option.splits prod.splits sum.splits)
next
  case (merkle st st' acc led)
  then show ?case
    using commitMerkleRoot_fields(1,2) [of digest tpm st] by (auto simp: inv_queue_def)
qed

lemma chained_snoc:
  "chained digest (rev led) \<Longrightarrow> computeHash digest (hashInput e) = Inr (ev_hash e) \<Longrightarrow>
    (led \<noteq> [] \<Longrightarrow> ev_prevHash e = ev_hash (last led)) \<Longrightarrow> chained digest (rev (led @ [e]))"
  by (cases led rule: rev_cases) auto

lemma audit_step_chain: "audit_step digest tpm dateMs s s' \<Longrightarrow> inv_chain digest h0 s \<Longrightarrow> inv_chain digest h0 s'"
proof (induction rule: audit_step.induct)
  case (processed i now wormOk st st' e led acc)
  then obtain q qs where pq: "sealEvent digest tpm q i now (lastHash st) = Inr e" "lastHash st' = ev_hash e"
    by (elim processNext_Some) auto
  have c: "chained digest (rev led)" "lastHash st = (if led = [] then h0 else ev_hash (last led))"
    "led \<noteq> [] \<longrightarrow> ev_prevHash (hd led) = h0"
    using processed by (auto simp: inv_chain_def)
  note se = sealEvent_Inr(3,4) [OF pq(1)]
  have "chained digest (rev (led @ [e]))" using c(1,2) se by (intro chained_snoc) auto
  then show ?case using c se pq(2) by (cases led) (auto simp: inv_chain_def)
next
  case (requeued i now wormOk st st' acc led)
  then show ?case using processNext_None(3) [OF requeued(1)] by (auto simp: inv_chain_def)
next
  case (merkle st st' acc led)
  then show ?case using commitMerkleRoot_fields(4) [of digest tpm st] by (auto simp: inv_chain_def)
next
  case (flush_ends st acc led commit)
  then show ?case by (auto simp: inv_chain_def flushEnd_def split: option.splits prod.splits sum.splits)
qed (auto simp: inv_chain_def logEvent_def takeQueue_def flushBegin_def split: if_splits)

lemma flushEnd_stored:
  assumes "flushing st = Some es" and "set es \<subseteq> set led" and "distinct (map ev_id led)" and "e \<in> set led"
    and "e \<in> set es \<or> stored dateMs st e"
  shows "e \<in> pending (flushEnd dateMs commit st) \<or> stored dateMs (flushEnd dateMs commit st) e"
proof -
  let ?items = "map (\<lambda>e. (eventKey dateMs e, e)) es"
  obtain r t where rt: "tl_setMany commit 0 ?items (repo st) = (r, t)" by fastforce
  obtain j where j: "is_ok r \<longrightarrow> length ?items \<le> j"
    "\<And>k. kv_value k (tl_kv t) = (case map_of (rev (take j ?items)) k of Some v \<Rightarrow> Some v | None \<Rightarrow> kv_value k (tl_kv (repo st)))"
    using tl_setMany_value [OF rt] by blast
  have same: "v = e" if "map_of (rev (take j ?items)) (eventKey dateMs e) = Some v" for v
  proof -
    have "v \<in> set es \<and> eventKey dateMs v = eventKey dateMs e"
      using map_of_SomeD [OF that] by (auto dest!: in_set_takeD)
    then have "v \<in> set led" "ev_id v = ev_id e" using assms(2) by (auto simp: eventKey_def)
    then show ?thesis using assms(3,4) by (auto simp: distinct_map inj_on_def)
  qed
  show ?thesis
  proof (cases r)
    case (Inr u)
    have "stored dateMs (flushEnd dateMs commit st) e"
    proof (cases "map_of (rev (take j ?items)) (eventKey dateMs e)")
      case None
      then have "e \<notin> set es" using j(1) Inr by (auto simp: map_of_eq_None_iff image_iff)
      then show ?thesis using assms(1,5) j(2) [of "eventKey dateMs e"] None rt Inr by (simp add: stored_def flushEnd_def)
    next
      case (Some v)
      then show ?thesis using assms(1) j(2) [of "eventKey dateMs e"] same rt Inr by (simp add: stored_def flushEnd_def)
    qed
    then show ?thesis ..
  next
    case (Inl m)
    show ?thesis
    proof (cases "e \<in> set es")
      case True
      then show ?thesis using assms(1) rt Inl by (simp add: pending_def flushEnd_def)
    next
      case False
      have "kv_value (eventKey dateMs e) (tl_kv t) = Some e"
        using False assms(5) j(2) [of "eventKey dateMs e"] same by (auto simp: stored_def split: option.splits)
      then show ?thesis using assms(1) rt Inl by (simp add: stored_def flushEnd_def)
    qed
  qed
qed

lemma flushEnd_pending:
  "pending (flushEnd dateMs commit st) \<subseteq> pending st" "set (auditBuffer st) \<subseteq> pending (flushEnd dateMs commit st)"
  by (auto simp: pending_def flushEnd_def split: option.splits prod.splits sum.splits)

lemma inv_store_eq:
  assumes "inv_store dateMs (st, acc, led)" and "pending st' = pending st" and "repo st' = repo st"
  shows "inv_store dateMs (st', acc', led)"
  using assms by (simp add: inv_store_def stored_def)

lemma audit_step_store: "audit_step digest tpm dateMs s s' \<Longrightarrow> inv_store dateMs s \<Longrightarrow> inv_store dateMs s'"
proof (induction rule: audit_step.induct)
  case (log_accepted heap q st st' acc led)
  then show ?case
    by (intro inv_store_eq [OF log_accepted(3)]) (auto simp: pending_def logEvent_def split: if_splits)
next
  case (log_dropped heap q st st' acc led)
  then show ?case
    by (intro inv_store_eq [OF log_dropped(3)]) (auto simp: pending_def logEvent_def split: if_splits)
next
  case (batch st acc led)
  then show ?case by (intro inv_store_eq [OF batch(3)]) (auto simp: pending_def takeQueue_def)
next
  case (processed i now wormOk st st' e led acc)
  then obtain q qs where pq: "sealEvent digest tpm q i now (lastHash st) = Inr e" "auditBuffer st' = auditBuffer st @ [e]"
    "flushing st' = flushing st" "repo st' = repo st"
    by (elim processNext_Some) auto
  then have "pending st' = insert e (pending st)" by (auto simp: pending_def)
  then show ?case
    using processed(2,3) pq(4) sealEvent_Inr(2) [OF pq(1)] by (auto simp: inv_store_def stored_def)
next
  case (requeued i now wormOk st st' acc led)
  then show ?case
    using processNext_None(2,4,5) [OF requeued(1)] by (intro inv_store_eq [OF requeued(2)]) (auto simp: pending_def)
next
  case (flush_begins st acc led)
  then show ?case by (intro inv_store_eq [OF flush_begins]) (auto simp: pending_def flushBegin_def)
next
  case (flush_ends st acc led commit)
  show ?case
  proof (cases "flushing st")
    case None
    then show ?thesis using flush_ends by (simp add: flushEnd_def)
  next
    case (Some es)
    have inv: "distinct (map ev_id led)" "pending st \<subseteq> set led" "\<forall>e \<in> set led. e \<in> pending st \<or> stored dateMs st e"
      using flush_ends by (auto simp: inv_store_def)
    have "e \<in> pending (flushEnd dateMs commit st) \<or> stored dateMs (flushEnd dateMs commit st) e" if e: "e \<in> set led" for e
    proof (cases "e \<in> set (auditBuffer st)")
      case True
      then show ?thesis using flushEnd_pending(2) by blast
    next
      case False
      then have "e \<in> set es \<or> stored dateMs st e" using inv(3) e Some by (auto simp: pending_def)
      moreover have "set es \<subseteq> set led" using inv(2) Some by (auto simp: pending_def)
      ultimately show ?thesis using flushEnd_stored [OF Some _ inv(1) e] by blast
    qed
    then show ?thesis
      using inv(1,2) flushEnd_pending(1) [of dateMs commit st] by (auto simp: inv_store_def)
  qed
next
  case (merkle st st' acc led)
  then show ?case
    using commitMerkleRoot_fields(3,5,6) [of digest tpm st]
    by (intro inv_store_eq [OF merkle(2)]) (auto simp: pending_def)
qed

lemma audit_run_inv:
  assumes "audit_run digest tpm dateMs st0 s" and "fresh st0"
  shows "inv_queue s \<and> inv_chain digest (lastHash st0) s \<and> inv_store dateMs s"
  using assms
proof (induction rule: audit_run.induct)
  case run_start
  then show ?case by (auto simp: inv_queue_def inv_chain_def inv_store_def fresh_def pending_def)
next
  case (run_step s s')
  then show ?case using audit_step_queue audit_step_chain audit_step_store by blast
qed

text \<open>
  C1: no accepted event is lost and the ledger is one unbroken chain, however logging, batching,
  failing signatures and hashes, flushes that fail after some chunks, and Merkle commitments
  interleave. At every moment the accepted events are, in order, those already in the ledger
  followed by those still queued; every ledger entry has its right hash and names the
  hash of its predecessor, the first the hash the service started from; and each entry is in the
  write buffer, in a running flush or in the repository under its key.
\<close>

theorem audit_ledger_conserves:
  assumes "audit_run digest tpm dateMs st0 (st, acc, led)" and "fresh st0"
  shows "(\<exists>finished. acc = finished @ currentQueue st @ logQueue st \<and> list_all2 carries finished led) \<and>
    chained digest (rev led) \<and> lastHash st = (if led = [] then lastHash st0 else ev_hash (last led)) \<and>
    (led \<noteq> [] \<longrightarrow> ev_prevHash (hd led) = lastHash st0) \<and>
    (\<forall>e \<in> set led. e \<in> set (auditBuffer st) \<or> (\<exists>es. flushing st = Some es \<and> e \<in> set es)
       \<or> kv_value (eventKey dateMs e) (tl_kv (repo st)) = Some e)"
  using audit_run_inv [OF assms]
  by (auto simp: inv_queue_def inv_chain_def inv_store_def pending_def stored_def split: option.splits)

definition emptyAudit :: audit where
  "emptyAudit = \<lparr>initialized = True, restricted = False, lastHash = ''GENESIS'', lastVerifiedHash = ''GENESIS'',
     logQueue = [], isProcessingQueue = False, currentQueue = [], auditBuffer = [], flushing = None,
     repo = \<lparr>tl_kv = \<lparr>kv_entries = [], kv_clock = 0\<rparr>, tl_count = None\<rparr>, currentSessionHashes = [],
     merkleTree = new_merkle sampleDigest [], wormLogs = None\<rparr>"

definition sampleLog :: "jsval log_event" where
  "sampleLog = \<lparr>q_type = ''INFO'', q_severity = None, q_caller = None, q_message = ''m'', q_actor = None,
     q_data = None, q_timestamp = Some ''t'', q_correlationId = None, q_fromAudit = False\<rparr>"

lemma fresh_emptyAudit: "fresh emptyAudit"
  by (simp add: fresh_def emptyAudit_def kv_wf_def)

theorem audit_ledger_conserves_witness:
  "\<exists>st. audit_run sampleDigest None (\<lambda>_. 5) emptyAudit (st, [sanitizeEvent (\<lambda>_. OArr []) sampleLog], []) \<and>
     (\<exists>finished. [sanitizeEvent (\<lambda>_. OArr []) sampleLog] = finished @ currentQueue st @ logQueue st
        \<and> list_all2 carries finished [])"
proof -
  have acc: "accepts emptyAudit sampleLog"
    by (simp add: accepts_def sampleLog_def emptyAudit_def MAX_QUEUE_DEPTH_def)
  obtain st' where log: "logEvent (\<lambda>_. OArr []) sampleLog emptyAudit = Inr st'"
    using fresh_emptyAudit acc by (auto simp: logEvent_def fresh_def)
  have run: "audit_run sampleDigest None (\<lambda>_. 5) emptyAudit (st', [] @ [sanitizeEvent (\<lambda>_. OArr []) sampleLog], [])"
    by (rule run_step [OF run_start log_accepted [OF log acc]])
  show ?thesis
    using conjunct1 [OF audit_ledger_conserves [OF run fresh_emptyAudit]] run by (intro exI [of _ st']) simp
qed

section \<open>Sanitised events can always be hashed\<close>

lemma fits_mono: "fits n v \<Longrightarrow> n \<le> m \<Longrightarrow> fits m v"
proof (induction v arbitrary: n m)
  case (JArr xs)
  then show ?case using diff_le_mono by fastforce
next
  case (JObj es)
  have "fits (m - 1) (snd e)" if "e \<in> set es" for e
    using JObj.IH [OF that, of "snd e" "n - 1" "m - 1"] JObj.prems that by (cases e) (auto simp: diff_le_mono)
  then show ?case using JObj.prems by auto
qed auto

lemma fits_opt [simp]: "fits n (optString o')" "0 < n \<Longrightarrow> fits n (optActor a)"
  by (auto simp: optString_def optActor_def MAX_BREADTH_def split: option.splits)

text \<open>
  The queue cannot be blocked by the content of an event. Whatever object graph an event carries,
  deep, wide or cyclic, its sanitised form stays within the depth and breadth limits of
  \<open>canonicalStringify\<close>: hashing it does not throw, and without a TPM the ledger entry is made.
\<close>

lemma sanitized_event_hashes:
  "\<exists>h. computeHash digest (hashInput (unsealed (sanitizeEvent heap q) i now prev)) = Inr h \<and>
     (\<exists>e. sealEvent digest None (sanitizeEvent heap q) i now prev = Inr e \<and> ev_hash e = h)"
proof -
  let ?e = "unsealed (sanitizeEvent heap q) i now prev"
  have "fits 7 (optData (ev_data ?e))"
    using sanitize_fits [of 0 heap] by (auto simp: unsealed_def sanitizeEvent_def optData_def split: option.splits)
  then have "fits 8 (hashInput ?e)"
    by (simp add: hashInput_def MAX_BREADTH_def)
  then obtain t where "canonicalStringify 0 (hashInput ?e) = Inr t"
    using canonicalStringify_total [of 8 "hashInput ?e" 0] by (auto simp: MAX_DEPTH_def)
  then show ?thesis by (auto simp: computeHash_def sealEvent_def Let_def)
qed

section \<open>Synchronised events extend the chain\<close>

text \<open>The events accepted one after the other from the head \<open>h\<close>.\<close>

fun accepted_chain :: "(string \<Rightarrow> string) \<Rightarrow> tpm option \<Rightarrow> string \<Rightarrow> audit_event list \<Rightarrow> bool" where
  "accepted_chain digest tpm h [] \<longleftrightarrow> True"
| "accepted_chain digest tpm h (e # es) \<longleftrightarrow> computeHash digest (hashInput e) = Inr (ev_hash e)
     \<and> (ev_prevHash e = h \<and> h \<noteq> ''TRUNCATED''
        \<or> ev_prevHash e = ''TRUNCATED'' \<and> ev_type e = ''CHECKPOINT''
          \<and> (\<exists>t sg. tpm = Some t \<and> ev_hwSignature e = Some sg \<and> tpm_verify t (ev_hash e) sg))
     \<and> accepted_chain digest tpm (ev_hash e) es"

lemma syncEvents_chain:
  assumes "syncEvents digest tpm dateMs es st = (r, st')"
  shows "\<exists>ss. subseq ss es \<and> accepted_chain digest tpm (lastHash st) ss \<and>
    st' = st\<lparr>repo := fold (repo_save dateMs) ss (repo st),
             lastHash := (if ss = [] then lastHash st else ev_hash (last ss))\<rparr>"
  using assms
proof (induction es arbitrary: st)
  case (Cons e es)
  show ?case
  proof (cases "\<exists>x. ev_hash e \<noteq> lastHash st \<and> computeHash digest (hashInput e) = Inr x \<and> syncAccepts tpm (lastHash st) x e")
    case True
    then obtain x where x: "ev_hash e \<noteq> lastHash st" "computeHash digest (hashInput e) = Inr x"
      "syncAccepts tpm (lastHash st) x e" by blast
    let ?st = "st\<lparr>repo := repo_save dateMs e (repo st), lastHash := ev_hash e\<rparr>"
    obtain ss where ss: "subseq ss es" "accepted_chain digest tpm (ev_hash e) ss"
      "st' = ?st\<lparr>repo := fold (repo_save dateMs) ss (repo ?st), lastHash := (if ss = [] then lastHash ?st else ev_hash (last ss))\<rparr>"
      using Cons.IH [of ?st] Cons.prems x by auto
    have "accepted_chain digest tpm (lastHash st) (e # ss)"
      using x ss(2) by (auto simp: syncAccepts_def split: option.splits)
    then show ?thesis using ss by (intro exI [of _ "e # ss"]) auto
  next
    case False
    then consider err where "computeHash digest (hashInput e) = Inl err" "ev_hash e \<noteq> lastHash st"
      | "syncEvents digest tpm dateMs es st = (r, st')"
      using Cons.prems by (auto split: if_splits sum.splits)
    then show ?thesis
    proof cases
      case 1
      then show ?thesis using Cons.prems by (intro exI [of _ "[]"]) auto
    next
      case 2
      then show ?thesis using Cons.IH [of st] by (blast intro: list_emb_Cons)
    qed
  qed
qed (auto intro: exI [of _ "[]"])

text \<open>
  C3: events from other nodes can only extend the local chain. \<open>syncEvents\<close> saves a subsequence of
  the events it is given, each with its right hash and each naming the chain head at that
  moment, or else a truncation checkpoint whose signature the local TPM verified; the head
  moves to the last event saved and nothing else changes. Without a TPM no truncation is accepted.
\<close>

theorem sync_extends_chain:
  assumes "syncEvents digest tpm dateMs es st = (r, st')"
  shows "\<exists>ss. subseq ss es \<and> accepted_chain digest tpm (lastHash st) ss \<and>
    st' = st\<lparr>repo := fold (repo_save dateMs) ss (repo st),
             lastHash := (if ss = [] then lastHash st else ev_hash (last ss))\<rparr> \<and>
    (tpm = None \<longrightarrow> (\<forall>e \<in> set ss. ev_prevHash e \<noteq> ''TRUNCATED''))"
proof -
  have "accepted_chain digest None h ss \<Longrightarrow> \<forall>e \<in> set ss. ev_prevHash e \<noteq> ''TRUNCATED''" for h ss
    by (induction ss arbitrary: h) auto
  then show ?thesis using syncEvents_chain [OF assms] by blast
qed

theorem sync_extends_chain_witness:
  "\<exists>ss r st'. syncEvents sampleDigest None (\<lambda>_. 5) (rev (sampleLedger None)) emptyAudit = (r, st') \<and>
     subseq ss (rev (sampleLedger None)) \<and> accepted_chain sampleDigest None ''GENESIS'' ss"
proof -
  obtain r st' where s: "syncEvents sampleDigest None (\<lambda>_. 5) (rev (sampleLedger None)) emptyAudit = (r, st')"
    by fastforce
  show ?thesis using sync_extends_chain [OF s] s by (auto simp: emptyAudit_def)
qed

section \<open>Retention\<close>

lemma checkpoint_input_differs: "canon (checkpointInput e) \<noteq> canon (hashInput e)"
proof
  assume "canon (checkpointInput e) = canon (hashInput e)"
  then have "JObj (sortEntries (map (\<lambda>(k, v). (k, canon v)) [(''id'', JStr (ev_id e)), (''timestamp'', JStr (ev_timestamp e)),
      (''type'', JStr (ev_type e)), (''severity'', optString (ev_severity e)), (''caller'', optString (ev_caller e)),
      (''message'', JStr (ev_message e)), (''data'', optData (ev_data e)), (''prevHash'', JStr (ev_prevHash e))]))
    = JObj (sortEntries (hashEntries e))"
    by (simp only: checkpointInput_def canon.simps canon_hashInput)
  from object_entries_inject [OF this, of "''actor''"] show False
    by (simp add: hashEntries_def)
qed

lemma sealCheckpoint_Inr:
  assumes "sealCheckpoint digest tpm c = Inr c'"
  shows "computeHash digest (checkpointInput c') = Inr (ev_hash c')" "ev_data c' = ev_data c"
    "ev_id c' = ev_id c" "ev_timestamp c' = ev_timestamp c"
  using assms by (auto simp: sealCheckpoint_def checkpointInput_def split: sum.splits option.splits)

lemma sealCheckpoint_key:
  "sealCheckpoint digest tpm c = Inr c' \<Longrightarrow> ev_id c' = ev_id c \<and> ev_timestamp c' = ev_timestamp c"
  using sealCheckpoint_Inr by blast

text \<open>The two canonical strings of a checkpoint: what its hash covers, and what a receiver hashes.\<close>

definition checkpointTexts :: "audit_event \<Rightarrow> string set" where
  "checkpointTexts c = {s. canonicalStringify 0 (checkpointInput c) = Inr (Some s)
     \<or> canonicalStringify 0 (hashInput c) = Inr (Some s)}"

text \<open>
  A truncation checkpoint is rejected by every other node. The hash of a checkpoint is computed
  over an object without the keys \<open>actor\<close> and \<open>correlationId\<close>, while \<open>syncEvents\<close> hashes an object that
  has both (with the value \<open>undefined\<close>, which the canonical form prints): unless the digest collides
  the hashes differ, so the event is refused although it is signed.
\<close>

lemma checkpoint_never_syncs:
  assumes "sealCheckpoint digest tpm c = Inr c'" and "wf_event c"
    and "inj_on digest (checkpointTexts c')"
  shows "snd (syncEvents digest tpm' dateMs [c'] st) = st"
proof -
  have wf: "wf_event c'" using assms(2) sealCheckpoint_Inr(2) [OF assms(1)] by (simp add: wf_event_def)
  have "ev_hash c' \<noteq> x" if x: "computeHash digest (hashInput c') = Inr x" for x
  proof
    assume eq: "ev_hash c' = x"
    have sm: "\<exists>s. canonicalStringify 0 v = Inr (Some s) \<and> digest s = h"
      if "computeHash digest v = Inr h" "v = checkpointInput c' \<or> v = hashInput c'" for v h
      using that canonicalStringify_undefined [of 0 v]
      by (auto simp: computeHash_def joinText_def hashInput_def checkpointInput_def split: sum.splits option.splits)
    obtain s t where st: "canonicalStringify 0 (checkpointInput c') = Inr (Some s)" "digest s = x"
      "canonicalStringify 0 (hashInput c') = Inr (Some t)" "digest t = x"
      using sm [OF sealCheckpoint_Inr(1) [OF assms(1)]] sm [OF x] eq by auto
    have "s = t" by (rule inj_onD [OF assms(3)]) (simp_all add: checkpointTexts_def st)
    moreover have "wf_json (checkpointInput c')"
      using wf by (auto simp: checkpointInput_def optData_def wf_event_def split: option.splits)
    ultimately show False
      using st canonicalStringify_inject [of "checkpointInput c'" s "hashInput c'"] wf_hashInput [OF wf]
        checkpoint_input_differs by blast
  qed
  then show ?thesis by (auto simp: syncAccepts_def split: sum.splits)
qed

text \<open>
  Retention never removes an event. Whatever the age of the events, every entry of the repository
  is still there after \<open>purgeExpired\<close>, except that the key of the new checkpoint may be overwritten.
\<close>

lemma purge_removes_nothing:
  assumes "kv_value k (tl_kv (repo st)) = Some v" and "k \<noteq> (dateMs now, i)"
  shows "kv_value k (tl_kv (repo (purgeExpired digest tpm dateMs maxAge i now nowMs st))) = Some v"
proof -
  have del: "snd (tl_deleteBefore cutoff r) = r" for cutoff and r :: "audit_event timeline"
    using deleteBefore_unchanged by (metis snd_conv)
  show ?thesis
    using assms by (auto simp: purgeExpired_def Let_def del repo_save_def tl_set_def checkpointEvent_def
        dest!: sealCheckpoint_key split: sum.splits)
qed

definition oldAudit :: audit where
  "oldAudit = emptyAudit\<lparr>repo := tl_set 5 ''a'' (sampleEvent ''a'' ''GENESIS'') (repo emptyAudit)\<rparr>"

section \<open>Order of the repository and order of the chain\<close>

definition emptyTimeline :: "'v timeline" where
  "emptyTimeline = \<lparr>tl_kv = \<lparr>kv_entries = [], kv_clock = 0\<rparr>, tl_count = None\<rparr>"

lemma two_entries_sorted:
  assumes "dateMs (ev_timestamp f) = dateMs (ev_timestamp e)" and "ev_id f < ev_id e"
  shows "tl_stream 2 True (repo_save dateMs f (repo_save dateMs e emptyTimeline)) = [e, f]"
proof -
  have "(dateMs (ev_timestamp f), ev_id f) < (dateMs (ev_timestamp e), ev_id e)" using assms by simp
  then show ?thesis
    by (auto simp: tl_stream_def kv_list_def repo_save_def tl_set_def kv_set_def emptyTimeline_def)
qed

text \<open>
  C40: an untampered ledger can be reported as broken. When an event and its successor fall in the
  same millisecond and the random id of the successor sorts first, the repository lists them
  in the wrong order: \<open>verifyFullChain\<close> reports a chain break, although the two events, read in the
  order they were logged, are an intact chain.
\<close>

theorem same_millisecond_breaks_chain:
  assumes "computeHash digest (hashInput e) = Inr (ev_hash e)" and "computeHash digest (hashInput f) = Inr (ev_hash f)"
    and "plain e" and "plain f" and "ev_prevHash f = ev_hash e" and "ev_prevHash e \<noteq> ev_hash f"
    and "dateMs (ev_timestamp f) = dateMs (ev_timestamp e)" and "ev_id f < ev_id e"
  shows "verifyLoop digest tpm 0 None [f, e] = Inr (Intact 2) \<and>
    verifyFullChain digest tpm (repo_save dateMs f (repo_save dateMs e emptyTimeline))
      = Inr (Broken 2 \<lparr>br_eventId = ev_id e, br_expected = ev_hash f, br_actual = ev_prevHash e, br_type = ''CHAIN_BREAK''\<rparr>)"
proof -
  have "length (kv_entries (tl_kv (repo_save dateMs f (repo_save dateMs e emptyTimeline)))) = 2"
    using assms(8) by (auto simp: repo_save_def tl_set_def kv_set_def emptyTimeline_def)
  then show ?thesis
    using assms(1-6) two_entries_sorted [OF assms(7,8)]
    by (simp add: verifyFullChain_def verifyChain_def plain_def)
qed

theorem same_millisecond_breaks_chain_witness:
  "\<exists>e f. verifyLoop sampleDigest None 0 None [f, e] = Inr (Intact 2) \<and>
     verifyFullChain sampleDigest None (repo_save (\<lambda>_. 5) f (repo_save (\<lambda>_. 5) e emptyTimeline))
       = Inr (Broken 2 \<lparr>br_eventId = ev_id e, br_expected = ev_hash f, br_actual = ev_prevHash e, br_type = ''CHAIN_BREAK''\<rparr>)"
proof -
  let ?e = "(sampleEvent ''2'' ''GENESIS'')\<lparr>ev_hash := ''2''\<rparr>" and ?f = "(sampleEvent ''1'' ''2'')\<lparr>ev_hash := ''12''\<rparr>"
  have "sampleDigest (hashText (sampleEvent ''2'' ''GENESIS'')) = ''2''" "sampleDigest (hashText (sampleEvent ''1'' ''2'')) = ''12''"
    by (simp_all add: hashText_def sample_hash joinText_def quote_def escapeChar_def sampleDigest_def)
  then have h: "computeHash sampleDigest (hashInput ?e) = Inr (ev_hash ?e)" "computeHash sampleDigest (hashInput ?f) = Inr (ev_hash ?f)"
    by (simp_all add: sample_computeHash)
  have "''1'' < ''2''" by (simp add: less_char_def)
  then have id: "ev_id ?f < ev_id ?e" by (simp add: sampleEvent_def)
  show ?thesis
    using same_millisecond_breaks_chain [OF h _ _ _ _ _ id, of "\<lambda>_. 5" None] by (intro exI [of _ ?e] exI [of _ ?f]) (simp add: plain_def)
qed

end
