(* ===== verification/Rate_Limit.thy ===== *)
theory Rate_Limit
  imports Prelude
begin

text \<open>
  The rate limiter, domain/identity/rate_limit.ts: fixed windows counted in memory, and the counts pushed
  to the key-value store out of band. The state objects of the source are compared by identity;
  \<open>rl_id\<close> is that identity. A run is a sequence of \<open>checkLimit\<close> calls, flushes and completions of
  key-value writes, in any order, with a clock that does not go back.
\<close>

section \<open>State\<close>

record rl_state =
  rl_count :: nat
  rl_resetAt :: nat
  rl_synced :: nat
  rl_inflight :: bool
  rl_id :: nat

record rl_write =
  w_key :: string
  w_id :: nat
  w_delta :: nat
  w_resetAt :: nat

record rate_limit =
  memoryTier :: "(string \<times> rl_state) list"
  nextId :: nat
  inflightWrites :: "rl_write list"
  persisted :: "(string \<times> nat \<times> nat) list"

record rl_status =
  allowed :: bool
  st_count :: nat
  st_resetAt :: nat
  retryAfterMs :: nat

definition emptyRateLimit :: rate_limit where
  "emptyRateLimit = \<lparr>memoryTier = [], nextId = 0, inflightWrites = [], persisted = []\<rparr>"

section \<open>Operations\<close>

text \<open>\<open>syncKey\<close>: one write per state object at a time, of the counts not pushed yet.\<close>

definition syncKey :: "string \<Rightarrow> rl_state \<Rightarrow> rate_limit \<Rightarrow> rate_limit" where
  "syncKey k s r =
    (if rl_inflight s then r
     else if rl_count s \<le> rl_synced s then r
     else r\<lparr>memoryTier := AList.update k (s\<lparr>rl_synced := rl_count s, rl_inflight := True\<rparr>) (memoryTier r),
            inflightWrites := inflightWrites r @ [\<lparr>w_key = k, w_id = rl_id s, w_delta = rl_count s - rl_synced s,
              w_resetAt = rl_resetAt s\<rparr>]\<rparr>)"

text \<open>\<open>syncToKv\<close> once its transaction commits.\<close>

definition addPersisted :: "nat \<Rightarrow> rl_write \<Rightarrow> (string \<times> nat \<times> nat) list \<Rightarrow> (string \<times> nat \<times> nat) list" where
  "addPersisted now w p = AList.update (w_key w)
     (case map_of p (w_key w) of
        None \<Rightarrow> (w_delta w, w_resetAt w)
      | Some (c, r) \<Rightarrow> if r < now then (w_delta w, w_resetAt w) else (c + w_delta w, max r (w_resetAt w))) p"

text \<open>A write settles. \<open>retry\<close> never rejects: it returns an error result after its attempts, so the
  rollback in the \<open>catch\<close> handler is not reached when the write fails.\<close>

definition settleWrite :: "nat \<Rightarrow> bool \<Rightarrow> rl_write \<Rightarrow> rate_limit \<Rightarrow> rate_limit" where
  "settleWrite now success w r =
    (let tier = (case map_of (memoryTier r) (w_key w) of
           Some s \<Rightarrow> if rl_id s = w_id w then AList.update (w_key w) (s\<lparr>rl_inflight := False\<rparr>) (memoryTier r)
                     else memoryTier r
         | None \<Rightarrow> memoryTier r)
     in r\<lparr>memoryTier := tier, inflightWrites := remove1 w (inflightWrites r),
          persisted := (if success then addPersisted now w (persisted r) else persisted r)\<rparr>)"

text \<open>\<open>flushMemoryTier\<close>: expired entries go, the others are synchronised; those with a write in
  flight wait for it and are synchronised by a later step.\<close>

definition flushMemoryTier :: "nat \<Rightarrow> rate_limit \<Rightarrow> rate_limit" where
  "flushMemoryTier now r =
    foldl (\<lambda>r' (k, s). if rl_resetAt s < now then r'\<lparr>memoryTier := AList.delete k (memoryTier r')\<rparr> else syncKey k s r')
      r (memoryTier r)"

definition checkLimit :: "string \<Rightarrow> nat \<Rightarrow> nat \<Rightarrow> nat \<Rightarrow> rate_limit \<Rightarrow> rl_status \<times> rate_limit" where
  "checkLimit k limit windowMs now r =
    (let (s0, nid) = (case map_of (memoryTier r) k of
           Some s \<Rightarrow> if rl_resetAt s < now
                     then (\<lparr>rl_count = 0, rl_resetAt = now + windowMs, rl_synced = 0, rl_inflight = False, rl_id = nextId r\<rparr>, Suc (nextId r))
                     else (s, nextId r)
         | None \<Rightarrow> (\<lparr>rl_count = 0, rl_resetAt = now + windowMs, rl_synced = 0, rl_inflight = False, rl_id = nextId r\<rparr>, Suc (nextId r)));
         s = s0\<lparr>rl_count := Suc (rl_count s0)\<rparr>;
         r1 = r\<lparr>memoryTier := AList.update k s (memoryTier r), nextId := nid\<rparr>;
         ok = rl_count s \<le> limit;
         r2 = (if \<not> ok \<or> limit \<le> 2 * rl_count s then syncKey k s r1 else r1)
     in (\<lparr>allowed = ok, st_count = rl_count s, st_resetAt = rl_resetAt s, retryAfterMs = rl_resetAt s - now\<rparr>, r2))"

section \<open>Runs\<close>

text \<open>One entry of the history per \<open>checkLimit\<close> call: the key and what was returned.\<close>

type_synonym rl_history = "(string \<times> rl_status) list"

inductive rl_step :: "(string \<Rightarrow> nat) \<Rightarrow> (string \<Rightarrow> nat) \<Rightarrow> rate_limit \<times> nat \<times> rl_history \<Rightarrow> rate_limit \<times> nat \<times> rl_history \<Rightarrow> bool"
  for limit window where
  tick: "now \<le> now' \<Longrightarrow> rl_step limit window (r, now, h) (r, now', h)"
| check: "checkLimit k (limit k) (window k) now r = (st, r') \<Longrightarrow> rl_step limit window (r, now, h) (r', now, h @ [(k, st)])"
| flush: "rl_step limit window (r, now, h) (flushMemoryTier now r, now, h)"
| resync: "map_of (memoryTier r) k = Some s \<Longrightarrow> rl_step limit window (r, now, h) (syncKey k s r, now, h)"
| settle: "w \<in> set (inflightWrites r) \<Longrightarrow> rl_step limit window (r, now, h) (settleWrite now success w r, now, h)"

inductive rl_run :: "(string \<Rightarrow> nat) \<Rightarrow> (string \<Rightarrow> nat) \<Rightarrow> rate_limit \<times> nat \<times> rl_history \<Rightarrow> bool" for limit window where
  rl_start: "rl_run limit window (emptyRateLimit, now, [])"
| rl_next: "rl_run limit window s \<Longrightarrow> rl_step limit window s s' \<Longrightarrow> rl_run limit window s'"

definition requests :: "string \<Rightarrow> nat \<Rightarrow> rl_history \<Rightarrow> rl_status list" where
  "requests k t h = map snd (filter (\<lambda>e. fst e = k \<and> st_resetAt (snd e) = t) h)"

section \<open>Windows\<close>

text \<open>What the decisions depend on: count and reset time of the live window of a key.\<close>

definition view :: "rate_limit \<Rightarrow> string \<Rightarrow> (nat \<times> nat) option" where
  "view r k = map_option (\<lambda>s. (rl_count s, rl_resetAt s)) (map_of (memoryTier r) k)"

lemma syncKey_view [simp]:
  assumes "map_of (memoryTier r) k = Some s"
  shows "view (syncKey k s r) = view r"
  using assms by (auto simp: syncKey_def view_def fun_eq_iff)

lemma settleWrite_view [simp]: "view (settleWrite now success w r) = view r"
  by (auto simp: settleWrite_def view_def fun_eq_iff Let_def split: option.splits)

lemma syncKey_keys: "distinct (map fst (memoryTier r)) \<Longrightarrow> distinct (map fst (memoryTier (syncKey k s r)))"
  by (simp add: syncKey_def distinct_update)

lemma flushStep_other: "k \<noteq> k' \<Longrightarrow>
    map_of (memoryTier ((case (k, s) of (k, s) \<Rightarrow> if rl_resetAt s < now then r\<lparr>memoryTier := AList.delete k (memoryTier r)\<rparr>
       else syncKey k s r))) k' = map_of (memoryTier r) k'"
  by (auto simp: syncKey_def)

lemma flushMemoryTier_view:
  assumes "distinct (map fst (memoryTier r))"
  shows "view (flushMemoryTier now r) k = (case view r k of Some (c, t) \<Rightarrow> if t < now then None else Some (c, t) | None \<Rightarrow> None)"
proof -
  let ?f = "\<lambda>r' (k, s). if rl_resetAt s < now then r'\<lparr>memoryTier := AList.delete k (memoryTier r')\<rparr> else syncKey k s r'"
  have "view (foldl ?f r es) k = (case map_of es k of
        Some s \<Rightarrow> if rl_resetAt s < now then None else view r k | None \<Rightarrow> view r k)"
    if "distinct (map fst es)" "\<forall>(k, s) \<in> set es. map_of (memoryTier r) k = Some s" for es r
    using that
  proof (induction es arbitrary: r)
    case (Cons e es)
    obtain k' s where e: "e = (k', s)" by fastforce
    have s: "map_of (memoryTier r) k' = Some s" using Cons.prems(2) e by auto
    have step: "view (?f r e) k = (if k = k' \<and> rl_resetAt s < now then None else view r k)"
      using s by (auto simp: e view_def syncKey_def)
    have "\<forall>(k'', s') \<in> set es. map_of (memoryTier (?f r e)) k'' = Some s'"
    proof safe
      fix k'' s' assume m: "(k'', s') \<in> set es"
      then have "k'' \<noteq> k'" using Cons.prems(1) e by force
      then show "map_of (memoryTier (?f r e)) k'' = Some s'"
        using Cons.prems(2) m e by (auto simp: syncKey_def)
    qed
    then have "view (foldl ?f (?f r e) es) k = (case map_of es k of
        Some s \<Rightarrow> if rl_resetAt s < now then None else view (?f r e) k | None \<Rightarrow> view (?f r e) k)"
      using Cons.IH [of "?f r e"] Cons.prems(1) by simp
    moreover have "k = k' \<Longrightarrow> map_of es k = None" using Cons.prems(1) e by (force simp: map_of_eq_None_iff)
    ultimately show ?case using step e by (auto split: option.splits)
  qed simp
  from this [OF assms, of r] have "view (flushMemoryTier now r) k = (case map_of (memoryTier r) k of
        Some s \<Rightarrow> if rl_resetAt s < now then None else view r k | None \<Rightarrow> view r k)"
    using assms by (auto simp: flushMemoryTier_def)
  then show ?thesis by (auto simp: view_def split: option.splits)
qed

lemma flushMemoryTier_keys:
  assumes "distinct (map fst (memoryTier r))"
  shows "distinct (map fst (memoryTier (flushMemoryTier now r)))"
  unfolding flushMemoryTier_def
  by (rule foldl_invariant [of "\<lambda>r'. distinct (map fst (memoryTier r'))"])
    (auto simp: assms distinct_delete syncKey_keys)

lemma checkLimit_spec:
  assumes "checkLimit k limit win now r = (st, r')"
  shows "\<exists>c t. (case view r k of Some (c', t') \<Rightarrow> if t' < now then (0, now + win) else (c', t') | None \<Rightarrow> (0, now + win)) = (c, t)
    \<and> view r' = (view r)(k \<mapsto> (Suc c, t)) \<and> st_count st = Suc c \<and> st_resetAt st = t \<and> allowed st = (Suc c \<le> limit)"
  using assms by (auto simp: checkLimit_def view_def syncKey_def fun_eq_iff Let_def split: option.splits if_splits)

lemma checkLimit_keys:
  "checkLimit k limit win now r = (st, r') \<Longrightarrow> distinct (map fst (memoryTier r)) \<Longrightarrow> distinct (map fst (memoryTier r'))"
  by (auto simp: checkLimit_def Let_def syncKey_keys distinct_update split: option.splits if_splits prod.splits)

text \<open>The windows of a key do not overlap: each has its own reset time, larger than those before.\<close>

definition rl_inv :: "(string \<Rightarrow> nat) \<Rightarrow> rate_limit \<times> nat \<times> rl_history \<Rightarrow> bool" where
  "rl_inv limit s = (case s of (r, now, h) \<Rightarrow>
     distinct (map fst (memoryTier r)) \<and>
     (\<forall>k. case view r k of
        Some (c, t) \<Rightarrow> c = length (requests k t h) \<and> (\<forall>e \<in> set h. fst e = k \<longrightarrow> st_resetAt (snd e) \<le> t)
      | None \<Rightarrow> \<forall>e \<in> set h. fst e = k \<longrightarrow> st_resetAt (snd e) < now) \<and>
     (\<forall>k t. map (\<lambda>st. (st_count st, allowed st)) (requests k t h)
        = map (\<lambda>n. (n, n \<le> limit k)) [1..<Suc (length (requests k t h))]))"

lemma requests_snoc:
  "requests k t (h @ [(k', st)]) = requests k t h @ (if k' = k \<and> st_resetAt st = t then [st] else [])"
  by (simp add: requests_def)

lemma requests_empty: "\<forall>e \<in> set h. fst e = k \<longrightarrow> st_resetAt (snd e) < t \<Longrightarrow> requests k t h = []"
  by (auto simp: requests_def filter_empty_conv)

lemma rl_inv_check:
  assumes "rl_inv limit (r, now, h)" and "checkLimit k (limit k) (win k) now r = (st, r')"
  shows "rl_inv limit (r', now, h @ [(k, st)])"
proof -
  obtain c t where ct: "(case view r k of Some (c', t') \<Rightarrow> if t' < now then (0, now + win k) else (c', t') | None \<Rightarrow> (0, now + win k)) = (c, t)"
    and v: "view r' = (view r)(k \<mapsto> (Suc c, t))"
    and st: "st_count st = Suc c" "st_resetAt st = t" "allowed st = (Suc c \<le> limit k)"
    using checkLimit_spec [OF assms(2)] by blast
  have view: "case view r k' of Some (c, t) \<Rightarrow> c = length (requests k' t h) \<and> (\<forall>e \<in> set h. fst e = k' \<longrightarrow> st_resetAt (snd e) \<le> t)
      | None \<Rightarrow> \<forall>e \<in> set h. fst e = k' \<longrightarrow> st_resetAt (snd e) < now" for k'
    using assms(1) by (auto simp: rl_inv_def)
  have hist: "map (\<lambda>st. (st_count st, allowed st)) (requests k' t h)
        = map (\<lambda>n. (n, n \<le> limit k')) [1..<Suc (length (requests k' t h))]" for k' t
    using assms(1) by (auto simp: rl_inv_def)
  have keys: "distinct (map fst (memoryTier r))"
    using assms(1) by (auto simp: rl_inv_def)
  have c: "c = length (requests k t h) \<and> (\<forall>e \<in> set h. fst e = k \<longrightarrow> st_resetAt (snd e) \<le> t)"
  proof (cases "\<exists>c' t'. view r k = Some (c', t') \<and> \<not> t' < now")
    case True
    then show ?thesis using ct view [of k] by force
  next
    case False
    then have new: "c = 0" "t = now + win k" using ct by (auto split: option.splits if_splits)
    have "\<forall>e \<in> set h. fst e = k \<longrightarrow> st_resetAt (snd e) < now"
      using False view [of k] by (fastforce split: option.splits dest: le_less_trans)
    then have "\<forall>e \<in> set h. fst e = k \<longrightarrow> st_resetAt (snd e) < t" using new by auto
    then show ?thesis using new requests_empty [of h k t] by auto
  qed
  have "map (\<lambda>st. (st_count st, allowed st)) (requests k' u (h @ [(k, st)]))
      = map (\<lambda>n. (n, n \<le> limit k')) [1..<Suc (length (requests k' u (h @ [(k, st)])))]" for k' u
    using hist [of k' u] c st by (auto simp: requests_snoc)
  moreover have "case view r' k' of Some (c, t) \<Rightarrow> c = length (requests k' t (h @ [(k, st)]))
        \<and> (\<forall>e \<in> set (h @ [(k, st)]). fst e = k' \<longrightarrow> st_resetAt (snd e) \<le> t)
      | None \<Rightarrow> \<forall>e \<in> set (h @ [(k, st)]). fst e = k' \<longrightarrow> st_resetAt (snd e) < now" for k'
    using view [of k'] c st v by (auto simp: requests_snoc split: option.splits)
  ultimately show ?thesis
    using checkLimit_keys [OF assms(2) keys] by (simp add: rl_inv_def)
qed

lemma rl_inv_view:
  assumes "rl_inv limit (r, now, h)" and "view r' = view r" and "distinct (map fst (memoryTier r'))"
  shows "rl_inv limit (r', now, h)"
  using assms by (simp add: rl_inv_def)

lemma settleWrite_keys: "distinct (map fst (memoryTier r)) \<Longrightarrow> distinct (map fst (memoryTier (settleWrite now b w r)))"
  by (auto simp: settleWrite_def Let_def distinct_update split: option.splits)

lemma rl_inv_flush:
  assumes "rl_inv limit (r, now, h)"
  shows "rl_inv limit (flushMemoryTier now r, now, h)"
proof -
  have keys: "distinct (map fst (memoryTier r))" using assms by (simp add: rl_inv_def)
  have "case view (flushMemoryTier now r) k of Some (c, t) \<Rightarrow> c = length (requests k t h) \<and> (\<forall>e \<in> set h. fst e = k \<longrightarrow> st_resetAt (snd e) \<le> t)
      | None \<Rightarrow> \<forall>e \<in> set h. fst e = k \<longrightarrow> st_resetAt (snd e) < now" for k
  proof -
    have "case view r k of Some (c, t) \<Rightarrow> c = length (requests k t h) \<and> (\<forall>e \<in> set h. fst e = k \<longrightarrow> st_resetAt (snd e) \<le> t)
      | None \<Rightarrow> \<forall>e \<in> set h. fst e = k \<longrightarrow> st_resetAt (snd e) < now"
      using assms by (auto simp: rl_inv_def)
    then show ?thesis by (auto simp: flushMemoryTier_view [OF keys] split: option.splits dest: le_less_trans)
  qed
  then show ?thesis using assms flushMemoryTier_keys [OF keys] by (simp add: rl_inv_def)
qed

lemma rl_step_inv: "rl_step limit window s s' \<Longrightarrow> rl_inv limit s \<Longrightarrow> rl_inv limit s'"
proof (induction rule: rl_step.induct)
  case (tick now now' r h)
  then show ?case by (fastforce simp: rl_inv_def split: option.splits)
next
  case (check k now r st r' h)
  then show ?case by (blast intro: rl_inv_check)
next
  case (flush r now h)
  then show ?case by (rule rl_inv_flush)
next
  case (resync r k s now h)
  then show ?case by (intro rl_inv_view [OF resync(2)]) (auto simp: rl_inv_def intro: syncKey_keys)
next
  case (settle w r now h success)
  then show ?case by (intro rl_inv_view [OF settle(2)]) (auto simp: rl_inv_def intro: settleWrite_keys)
qed

lemma rl_run_inv: "rl_run limit window s \<Longrightarrow> rl_inv limit s"
proof (induction rule: rl_run.induct)
  case (rl_start now)
  then show ?case by (simp add: rl_inv_def emptyRateLimit_def view_def requests_def)
qed (rule rl_step_inv)

text \<open>
  C17: within one window a key is admitted at most \<open>limit\<close> times, and the refusals are exactly the
  requests beyond the limit. In every run, whatever flushes, expiries and key-value writes
  happen in between, the requests that were told the same reset time are counted 1, 2, 3, ... and
  the \<open>n\<close>-th is allowed exactly when \<open>n \<le> limit\<close>.
\<close>

theorem rate_limit_window:
  assumes "rl_run limit window (r, now, h)"
  shows "map (\<lambda>st. (st_count st, allowed st)) (requests k t h)
      = map (\<lambda>n. (n, n \<le> limit k)) [1..<Suc (length (requests k t h))] \<and>
    length (filter allowed (requests k t h)) \<le> limit k"
proof -
  have eq: "map (\<lambda>st. (st_count st, allowed st)) (requests k t h)
      = map (\<lambda>n. (n, n \<le> limit k)) [1..<Suc (length (requests k t h))]"
    using rl_run_inv [OF assms] by (simp add: rl_inv_def)
  have "map allowed (requests k t h) = map (\<lambda>n. n \<le> limit k) [1..<Suc (length (requests k t h))]"
    using arg_cong [OF eq, of "map snd"] by (simp add: comp_def del: upt_Suc)
  then have "length (filter (\<lambda>b. b) (map allowed (requests k t h)))
      = length (filter (\<lambda>b. b) (map (\<lambda>n. n \<le> limit k) [1..<Suc (length (requests k t h))]))"
    by (rule arg_cong)
  then have "length (filter allowed (requests k t h)) = length (filter (\<lambda>n. n \<le> limit k) [1..<Suc (length (requests k t h))])"
    by (simp add: filter_map comp_def del: upt_Suc)
  also have "\<dots> \<le> limit k"
  proof -
    have "set (filter (\<lambda>n. n \<le> limit k) [1..<Suc (length (requests k t h))]) \<subseteq> {1..limit k}" by auto
    then have "card (set (filter (\<lambda>n. n \<le> limit k) [1..<Suc (length (requests k t h))])) \<le> limit k"
      using card_mono [of "{1..limit k}"] by fastforce
    then show ?thesis using distinct_card [of "filter (\<lambda>n. n \<le> limit k) [1..<Suc (length (requests k t h))]"] by simp
  qed
  finally show ?thesis using eq by blast
qed

theorem rate_limit_window_witness:
  "\<exists>r h. rl_run (\<lambda>_. 1) (\<lambda>_. 100) (r, 7, h) \<and> length (requests ''ip'' 107 h) = 2 \<and>
     length (filter allowed (requests ''ip'' 107 h)) \<le> 1"
proof -
  let ?c1 = "checkLimit ''ip'' 1 100 7 emptyRateLimit"
  let ?c2 = "checkLimit ''ip'' 1 100 7 (snd ?c1)"
  have run: "rl_run (\<lambda>_. 1) (\<lambda>_. 100) (snd ?c2, 7, ([] @ [(''ip'', fst ?c1)]) @ [(''ip'', fst ?c2)])"
    by (rule rl_next [OF rl_next [OF rl_start check] check]) simp_all
  have "length (requests ''ip'' 107 [(''ip'', fst ?c1), (''ip'', fst ?c2)]) = 2"
    by (simp add: checkLimit_def emptyRateLimit_def requests_def syncKey_def)
  then show ?thesis
    using rate_limit_window [OF run, of "''ip''" 107] run by (intro exI conjI) (assumption, simp_all)
qed

section \<open>Synchronisation with the store\<close>

text \<open>A failed write is not given back: the state still counts its requests as pushed, and the next
  synchronisation of the key sends nothing.\<close>

lemma failed_sync_loses_counts:
  assumes "map_of (memoryTier r) k = Some s" and "\<not> rl_inflight s" and "rl_synced s < rl_count s"
  shows "\<exists>s'. map_of (memoryTier (settleWrite now False \<lparr>w_key = k, w_id = rl_id s, w_delta = rl_count s - rl_synced s,
        w_resetAt = rl_resetAt s\<rparr> (syncKey k s r))) k = Some s' \<and> \<not> rl_inflight s' \<and> rl_synced s' = rl_count s'
      \<and> rl_count s' = rl_count s
      \<and> persisted (settleWrite now False \<lparr>w_key = k, w_id = rl_id s, w_delta = rl_count s - rl_synced s,
          w_resetAt = rl_resetAt s\<rparr> (syncKey k s r)) = persisted r
      \<and> (\<forall>r'. syncKey k s' r' = r')"
  using assms by (auto simp: settleWrite_def syncKey_def Let_def)

end
