(* ===== verification/Session.thy ===== *)
theory Session
  imports Kv_Repository
begin

text \<open>
  Sessions, domain/identity/session.ts, over the session repository
  (infrastructure/persistence/kv/kv_session_repository.ts), and the constant-time comparison of
  infrastructure/system/validation.ts. The HMAC under the process key is the parameter \<open>mac\<close>; points
  in time are milliseconds, which the source stores as ISO strings.
\<close>

unbundle bit_operations_syntax

section \<open>Constant-time comparison\<close>

definition diffBytes :: "8 word list \<Rightarrow> 8 word list \<Rightarrow> 8 word" where
  "diffBytes a b = foldl (\<lambda>diff (x, y). diff OR (x XOR y)) 0 (zip a b)"

definition secureCompareBytes :: "8 word list \<Rightarrow> 8 word list \<Rightarrow> bool" where
  "secureCompareBytes a b = (if length a \<noteq> length b then False else diffBytes a b = 0)"

definition secureCompare :: "(string \<Rightarrow> 8 word list) \<Rightarrow> string option \<Rightarrow> string option \<Rightarrow> bool" where
  "secureCompare mac a b =
    (let text = (\<lambda>o'. case o' of None \<Rightarrow> [] | Some s \<Rightarrow> s)
     in secureCompareBytes (mac (text a)) (mac (text b)) \<and> a \<noteq> None \<and> b \<noteq> None)"

section \<open>The session service\<close>

record session =
  s_id :: string
  s_userId :: string
  s_role :: string
  s_createdAt :: int
  s_expiresAt :: int
  s_lastSeen :: int
  s_csrfToken :: string

type_synonym session_store = "(string, session) kv"

text \<open>\<open>save\<close> and \<open>delete\<close> of the repository when no other client interferes; \<open>ro\<close> is the read-only mode.\<close>

definition saveSession :: "bool \<Rightarrow> session \<Rightarrow> session_store \<Rightarrow> unit result \<times> session_store" where
  "saveSession ro ss s = repo_set ro ''session'' (\<lambda>_ s. s) (s_id ss) ss s"

definition deleteSession :: "bool \<Rightarrow> string \<Rightarrow> session_store \<Rightarrow> unit result \<times> session_store" where
  "deleteSession ro i s = repo_delete ro ''session'' (\<lambda>_ s. s) i s"

definition createSession :: "bool \<Rightarrow> string \<Rightarrow> string \<Rightarrow> string \<Rightarrow> string \<Rightarrow> int \<Rightarrow> int \<Rightarrow> session_store
    \<Rightarrow> session result \<times> session_store" where
  "createSession ro i csrf userId role ttlHours now s =
    (let ss = \<lparr>s_id = i, s_userId = userId, s_role = role, s_createdAt = now,
           s_expiresAt = now + ttlHours * 60 * 60 * 1000, s_lastSeen = now, s_csrfToken = csrf\<rparr>
     in case saveSession ro ss s of (Inl e, s') \<Rightarrow> (Inl e, s') | (Inr _, s') \<Rightarrow> (Inr ss, s'))"

text \<open>\<open>validateSession\<close> reads, decides and writes; the write is a separate step because other requests
  may run while the read is awaited.\<close>

definition validateRead :: "string \<Rightarrow> int \<Rightarrow> session_store \<Rightarrow> session result" where
  "validateRead i now s = (case repo_get i s of
     None \<Rightarrow> Inl ''Session not found''
   | Some ss \<Rightarrow> if s_expiresAt ss < now then Inl ''Session expired'' else Inr (ss\<lparr>s_lastSeen := now\<rparr>))"

definition validateWrite :: "bool \<Rightarrow> string \<Rightarrow> session result \<Rightarrow> session_store \<Rightarrow> session result \<times> session_store" where
  "validateWrite ro i decision s = (case decision of
     Inl e \<Rightarrow> (if e = ''Session expired''
               then (case deleteSession ro i s of (Inl err, s') \<Rightarrow> (Inl err, s') | (Inr _, s') \<Rightarrow> (Inl e, s'))
               else (Inl e, s))
   | Inr ss \<Rightarrow> (case saveSession ro ss s of (Inl err, s') \<Rightarrow> (Inl err, s') | (Inr _, s') \<Rightarrow> (Inr ss, s')))"

definition validateSession :: "bool \<Rightarrow> string \<Rightarrow> int \<Rightarrow> session_store \<Rightarrow> session result \<times> session_store" where
  "validateSession ro i now s = validateWrite ro i (validateRead i now s) s"

definition validateCsrf :: "(string \<Rightarrow> 8 word list) \<Rightarrow> string \<Rightarrow> string \<Rightarrow> session_store \<Rightarrow> bool" where
  "validateCsrf mac i token s = (case repo_get i s of
     None \<Rightarrow> False
   | Some ss \<Rightarrow> if token = [] then False else secureCompare mac (Some (s_csrfToken ss)) (Some token))"

definition revokeSession :: "bool \<Rightarrow> string \<Rightarrow> session_store \<Rightarrow> unit result \<times> session_store" where
  "revokeSession ro i s = deleteSession ro i s"

fun cleanupLoop :: "bool \<Rightarrow> int \<Rightarrow> session list \<Rightarrow> nat \<Rightarrow> session_store \<Rightarrow> nat result \<times> session_store" where
  "cleanupLoop ro now [] n s = (Inr n, s)"
| "cleanupLoop ro now (ss # rest) n s =
    (if s_expiresAt ss < now then
       (case deleteSession ro (s_id ss) s of (Inl e, s') \<Rightarrow> (Inl e, s') | (Inr _, s') \<Rightarrow> cleanupLoop ro now rest (n + 1) s')
     else cleanupLoop ro now rest n s)"

definition cleanupExpired :: "bool \<Rightarrow> int \<Rightarrow> session_store \<Rightarrow> nat result \<times> session_store" where
  "cleanupExpired ro now s = cleanupLoop ro now (repo_list s) 0 s"

section \<open>The comparison compares\<close>

lemma diffBytes_zero: "length a = length b \<Longrightarrow> diffBytes a b = 0 \<longleftrightarrow> a = b"
proof -
  have acc: "foldl (\<lambda>diff (x, y). diff OR (x XOR y)) d (zip a b) = 0 \<longleftrightarrow> d = 0 \<and> a = b"
    if "length a = length b" for d :: "8 word" and a b
    using that
  proof (induction a b arbitrary: d rule: list_induct2)
    case (Cons x xs y ys)
    have "d OR (x XOR y) = 0 \<longleftrightarrow> d = 0 \<and> x = y"
      by (metis or_eq_0_iff xor_self_eq xor.left_neutral xor.assoc xor.right_neutral)
    then show ?case using Cons by simp
  qed simp
  then show "length a = length b \<Longrightarrow> diffBytes a b = 0 \<longleftrightarrow> a = b" by (simp add: diffBytes_def)
qed

lemma secureCompareBytes_eq: "secureCompareBytes a b \<longleftrightarrow> a = b"
  using diffBytes_zero by (auto simp: secureCompareBytes_def)

lemma secureCompare_eq:
  "inj_on mac {a, b} \<Longrightarrow> secureCompare mac (Some a) (Some b) \<longleftrightarrow> a = b"
  by (auto simp: secureCompare_def secureCompareBytes_eq inj_on_def)

section \<open>Refinement of a table of sessions\<close>

lemma quiet_occLoop: "occLoop (\<lambda>_ s. s) write k 0 s = (True, write s)"
  by (simp add: occLoop.simps kv_check_def)

lemma saveSession_quiet: "saveSession False ss s = (Inr (), kv_set (s_id ss) ss s)"
  by (simp add: saveSession_def repo_set_def checkWritePermission_def quiet_occLoop)

lemma deleteSession_quiet: "deleteSession False i s = (Inr (), kv_delete i s)"
  by (simp add: deleteSession_def repo_delete_def checkWritePermission_def quiet_occLoop)

lemma repo_get_set [simp]: "repo_get k (kv_set k' v s) = (if k = k' then Some v else repo_get k s)"
  by (simp add: repo_get_def)

lemma repo_get_delete [simp]: "repo_get k (kv_delete k' s) = (if k = k' then None else repo_get k s)"
  by (simp add: repo_get_def)

datatype session_op = Create string string string string int | Validate string | Revoke string | Cleanup

text \<open>The operations outside read-only mode, at the given time.\<close>

fun session_step :: "int \<Rightarrow> session_op \<Rightarrow> session_store \<Rightarrow> session_store" where
  "session_step now (Create i csrf u role ttl) s = snd (createSession False i csrf u role ttl now s)"
| "session_step now (Validate i) s = snd (validateSession False i now s)"
| "session_step now (Revoke i) s = snd (revokeSession False i s)"
| "session_step now Cleanup s = snd (cleanupExpired False now s)"

record grant =
  g_user :: string
  g_role :: string
  g_csrf :: string
  g_expires :: int

fun grant_step :: "int \<Rightarrow> session_op \<Rightarrow> (string \<Rightarrow> grant option) \<Rightarrow> string \<Rightarrow> grant option" where
  "grant_step now (Create i csrf u role ttl) g =
     g(i \<mapsto> \<lparr>g_user = u, g_role = role, g_csrf = csrf, g_expires = now + ttl * 60 * 60 * 1000\<rparr>)"
| "grant_step now (Validate i) g = (if (\<exists>x. g i = Some x \<and> g_expires x < now) then g(i := None) else g)"
| "grant_step now (Revoke i) g = g(i := None)"
| "grant_step now Cleanup g = (\<lambda>i. case g i of None \<Rightarrow> None | Some x \<Rightarrow> if g_expires x < now then None else Some x)"

definition grants :: "session_store \<Rightarrow> string \<Rightarrow> grant option" where
  "grants s i = map_option (\<lambda>ss. \<lparr>g_user = s_userId ss, g_role = s_role ss, g_csrf = s_csrfToken ss, g_expires = s_expiresAt ss\<rparr>)
     (repo_get i s)"

definition session_wf :: "session_store \<Rightarrow> bool" where
  "session_wf s \<longleftrightarrow> kv_wf s \<and> (\<forall>i ss. repo_get i s = Some ss \<longrightarrow> s_id ss = i)"

lemma cleanupLoop_get:
  "repo_get i (snd (cleanupLoop False now xs n s)) =
    (if \<exists>ss \<in> set xs. s_id ss = i \<and> s_expiresAt ss < now then None else repo_get i s)"
  by (induction xs arbitrary: n s) (auto simp: deleteSession_quiet)

lemma cleanupLoop_wf: "kv_wf s \<Longrightarrow> kv_wf (snd (cleanupLoop False now xs n s))"
  by (induction xs arbitrary: n s) (auto simp: deleteSession_quiet intro: kv_wf_delete)

lemma repo_list_get: "kv_wf s \<Longrightarrow> v \<in> set (repo_list s) \<longleftrightarrow> (\<exists>k. repo_get k s = Some v)"
proof -
  assume wf: "kv_wf s"
  have "v \<in> set (repo_list s) \<longleftrightarrow> (\<exists>k. (k, v) \<in> set (kv_list s))"
    by (force simp: repo_list_all)
  then show ?thesis using kv_list_mem [OF wf] by (simp add: repo_get_def)
qed

lemma session_step_wf: "session_wf s \<Longrightarrow> session_wf (session_step now op s)"
proof (cases op)
  case Cleanup
  assume wf: "session_wf s"
  then have "kv_wf s" by (simp add: session_wf_def)
  then show ?thesis
    using wf Cleanup by (auto simp: session_wf_def cleanupExpired_def cleanupLoop_get intro: cleanupLoop_wf split: if_splits)
qed (auto simp: session_wf_def createSession_def validateSession_def validateRead_def validateWrite_def revokeSession_def
    saveSession_quiet deleteSession_quiet Let_def split: option.splits if_splits intro: kv_wf_set kv_wf_delete)

lemma session_step_grants:
  assumes "session_wf s"
  shows "grants (session_step now op s) = grant_step now op (grants s)"
proof (cases op)
  case Cleanup
  have mem: "ss \<in> set (repo_list s) \<longleftrightarrow> (\<exists>k. repo_get k s = Some ss)" for ss
    using assms by (simp add: repo_list_get session_wf_def)
  have "repo_get i (session_step now op s) = (case repo_get i s of None \<Rightarrow> None
      | Some ss \<Rightarrow> if s_expiresAt ss < now then None else Some ss)" for i
  proof -
    have "(\<exists>ss \<in> set (repo_list s). s_id ss = i \<and> s_expiresAt ss < now) \<longleftrightarrow> (\<exists>ss. repo_get i s = Some ss \<and> s_expiresAt ss < now)"
      using assms mem unfolding session_wf_def by metis
    then show ?thesis using Cleanup by (simp add: cleanupExpired_def cleanupLoop_get split: option.splits)
  qed
  then show ?thesis using Cleanup by (auto simp: grants_def fun_eq_iff split: option.splits)
qed (use assms in \<open>auto simp: grants_def createSession_def validateSession_def validateRead_def validateWrite_def
    revokeSession_def saveSession_quiet deleteSession_quiet session_wf_def Let_def fun_eq_iff split: option.splits\<close>)

text \<open>Operations one after the other, each at its own time, from the empty store.\<close>

definition session_run :: "(int \<times> session_op) list \<Rightarrow> session_store" where
  "session_run ops = foldl (\<lambda>s (now, op). session_step now op s) \<lparr>kv_entries = [], kv_clock = 0\<rparr> ops"

definition grant_run :: "(int \<times> session_op) list \<Rightarrow> string \<Rightarrow> grant option" where
  "grant_run ops = foldl (\<lambda>g (now, op). grant_step now op g) (\<lambda>_. None) ops"

lemma session_run_refines: "session_wf (session_run ops) \<and> grants (session_run ops) = grant_run ops"
proof (induction ops rule: rev_induct)
  case Nil
  show ?case by (simp add: session_run_def grant_run_def session_wf_def kv_wf_def repo_get_def kv_get_def grants_def fun_eq_iff)
next
  case (snoc x ops)
  then show ?case
    by (cases x) (simp add: session_run_def grant_run_def session_step_wf session_step_grants)
qed


text \<open>
  A revocation can be undone by a validation that overlaps it. If a request has read a valid
  session, the session is then revoked, and the request goes on to record the time it was last
  seen, the session is stored again and validates until it expires.
\<close>

lemma revoked_session_returns:
  assumes "validateRead i now s = Inr ss" and "session_wf s" and "later \<le> s_expiresAt ss"
  shows "repo_get i (snd (revokeSession False i s)) = None \<and>
    (\<exists>x. fst (validateSession False i later (snd (validateWrite False i (Inr ss) (snd (revokeSession False i s))))) = Inr x)"
proof -
  obtain old where old: "repo_get i s = Some old" "ss = old\<lparr>s_lastSeen := now\<rparr>"
    using assms(1) by (auto simp: validateRead_def split: option.splits if_splits)
  then have sid: "s_id ss = i" using assms(2) by (simp add: session_wf_def)
  have again: "snd (validateWrite False i (Inr ss) (snd (revokeSession False i s))) = kv_set i ss (kv_delete i s)"
    by (simp add: validateWrite_def saveSession_quiet revokeSession_def deleteSession_quiet sid)
  have "validateRead i later (kv_set i ss (kv_delete i s)) = Inr (ss\<lparr>s_lastSeen := later\<rparr>)"
    using assms(3) by (simp add: validateRead_def)
  then have "fst (validateSession False i later (kv_set i ss (kv_delete i s))) = Inr (ss\<lparr>s_lastSeen := later\<rparr>)"
    by (simp add: validateSession_def validateWrite_def saveSession_quiet)
  then show ?thesis unfolding again by (simp add: revokeSession_def deleteSession_quiet)
qed

end
