(* ===== verification/Api_Keys.thy ===== *)
theory Api_Keys
  imports Session
begin

text \<open>
  API keys, domain/identity/api_keys.ts: a key \<open>ct_role_id_secret\<close> is found by its id and checked
  against a salted hash. The SHA-256 digest and the HMAC of the comparison are parameters, as are
  the random id, salt and secret. The telemetry wrapper turns exceptions into error results.
\<close>

record api_meta =
  k_id :: string
  k_name :: string
  k_role :: string
  k_salt :: string
  k_createdAt :: int
  k_lastUsed :: "int option"

record api_public =
  pk_id :: string
  pk_name :: string
  pk_role :: string
  pk_createdAt :: int
  pk_lastUsed :: "int option"

record api_keys =
  hashRepo :: "(string, api_meta) kv"
  idRepo :: "(string, string) kv"

section \<open>Operations\<close>

definition hashKey :: "(string \<Rightarrow> string) \<Rightarrow> string \<Rightarrow> string \<Rightarrow> string" where
  "hashKey digest rawKey salt = digest (rawKey @ salt)"

definition rawKeyOf :: "string \<Rightarrow> string \<Rightarrow> string \<Rightarrow> string" where
  "rawKeyOf role i secret = ''ct_'' @ role @ ''_'' @ i @ ''_'' @ secret"

definition createApiKey :: "(string \<Rightarrow> string) \<Rightarrow> bool \<Rightarrow> string \<Rightarrow> string \<Rightarrow> string \<Rightarrow> string \<Rightarrow> string \<Rightarrow> int
    \<Rightarrow> api_keys \<Rightarrow> (string \<times> string) result \<times> api_keys" where
  "createApiKey digest ro i salt secret name role now st =
    (if role = ''admin'' \<or> role = ''mesh_peer'' then (Inl ''Cannot create API keys for internal or admin roles'', st)
     else
       (let rawKey = rawKeyOf role i secret; h = hashKey digest rawKey salt;
            meta = \<lparr>k_id = i, k_name = name, k_role = role, k_salt = salt, k_createdAt = now, k_lastUsed = None\<rparr>
        in case repo_set ro ''api_keys_id'' (\<lambda>_ s. s) i h (idRepo st) of
             (Inl e, ids) \<Rightarrow> (Inl e, st\<lparr>idRepo := ids\<rparr>)
           | (Inr _, ids) \<Rightarrow>
              (case repo_set ro ''api_keys_hash'' (\<lambda>_ s. s) h meta (hashRepo st) of
                 (Inl e, hs) \<Rightarrow> (Inl e, st\<lparr>idRepo := ids, hashRepo := hs\<rparr>)
               | (Inr _, hs) \<Rightarrow> (Inr (rawKey, i), st\<lparr>idRepo := ids, hashRepo := hs\<rparr>))))"

text \<open>An empty string is falsy. The time of use is recorded in the background.\<close>

definition validateApiKey :: "(string \<Rightarrow> string) \<Rightarrow> (string \<Rightarrow> 8 word list) \<Rightarrow> bool \<Rightarrow> string option \<Rightarrow> int
    \<Rightarrow> api_keys \<Rightarrow> string option \<times> api_keys" where
  "validateApiKey digest mac ro rawKey now st = (case rawKey of
     None \<Rightarrow> (None, st)
   | Some raw \<Rightarrow>
      (let parts = split_char (CHR ''_'') raw in
       if raw = [] \<or> length parts < 4 \<or> hd parts \<noteq> ''ct'' then (None, st)
       else case repo_get (parts ! 2) (idRepo st) of
         None \<Rightarrow> (None, st)
       | Some expected \<Rightarrow>
          (if expected = [] then (None, st)
           else case repo_get expected (hashRepo st) of
             None \<Rightarrow> (None, st)
           | Some meta \<Rightarrow>
              (if k_salt meta = [] then (None, st)
               else if secureCompare mac (Some (hashKey digest raw (k_salt meta))) (Some expected)
                 then (Some (k_role meta), st\<lparr>hashRepo :=
                    snd (repo_set ro ''api_keys_hash'' (\<lambda>_ s. s) expected (meta\<lparr>k_lastUsed := Some now\<rparr>) (hashRepo st))\<rparr>)
                 else (None, st)))))"

definition listApiKeys :: "api_keys \<Rightarrow> api_public list" where
  "listApiKeys st = map (\<lambda>m. \<lparr>pk_id = k_id m, pk_name = k_name m, pk_role = k_role m, pk_createdAt = k_createdAt m,
     pk_lastUsed = k_lastUsed m\<rparr>) (repo_list (hashRepo st))"

definition revokeApiKey :: "bool \<Rightarrow> string \<Rightarrow> api_keys \<Rightarrow> unit result \<times> api_keys" where
  "revokeApiKey ro i st = (case repo_get i (idRepo st) of
     None \<Rightarrow> (Inr (), st)
   | Some h \<Rightarrow>
      (if h = [] then (Inr (), st)
       else case repo_delete ro ''api_keys_hash'' (\<lambda>_ s. s) h (hashRepo st) of
         (Inl e, hs) \<Rightarrow> (Inl e, st\<lparr>hashRepo := hs\<rparr>)
       | (Inr _, hs) \<Rightarrow>
          (case repo_delete ro ''api_keys_id'' (\<lambda>_ s. s) i (idRepo st) of
             (Inl e, ids) \<Rightarrow> (Inl e, st\<lparr>hashRepo := hs, idRepo := ids\<rparr>)
           | (Inr _, ids) \<Rightarrow> (Inr (), st\<lparr>hashRepo := hs, idRepo := ids\<rparr>))))"

section \<open>Reachable states\<close>

datatype api_op = CreateKey string string string string string int bool | ValidateKey string int bool | RevokeKey string bool

fun api_step :: "(string \<Rightarrow> string) \<Rightarrow> (string \<Rightarrow> 8 word list) \<Rightarrow> api_op \<Rightarrow> api_keys \<Rightarrow> api_keys" where
  "api_step digest mac (CreateKey i salt secret name role now ro) st = snd (createApiKey digest ro i salt secret name role now st)"
| "api_step digest mac (ValidateKey raw now ro) st = snd (validateApiKey digest mac ro (Some raw) now st)"
| "api_step digest mac (RevokeKey i ro) st = snd (revokeApiKey ro i st)"

definition api_run :: "(string \<Rightarrow> string) \<Rightarrow> (string \<Rightarrow> 8 word list) \<Rightarrow> api_op list \<Rightarrow> api_keys" where
  "api_run digest mac ops = foldl (\<lambda>st op. api_step digest mac op st)
     \<lparr>hashRepo = \<lparr>kv_entries = [], kv_clock = 0\<rparr>, idRepo = \<lparr>kv_entries = [], kv_clock = 0\<rparr>\<rparr> ops"

definition unprivileged :: "api_keys \<Rightarrow> bool" where
  "unprivileged st \<longleftrightarrow> (\<forall>h m. repo_get h (hashRepo st) = Some m \<longrightarrow> k_role m \<notin> {''admin'', ''mesh_peer''})"

lemma quiet_repo_set:
  "repo_set ro p (\<lambda>_ s. s) k v s = (case checkWritePermission ro p of Inl e \<Rightarrow> (Inl e, s) | Inr _ \<Rightarrow> (Inr (), kv_set k v s))"
  by (simp add: repo_set_def quiet_occLoop split: sum.split)

lemma quiet_repo_delete:
  "repo_delete ro p (\<lambda>_ s. s) k s = (case checkWritePermission ro p of Inl e \<Rightarrow> (Inl e, s) | Inr _ \<Rightarrow> (Inr (), kv_delete k s))"
  by (simp add: repo_delete_def quiet_occLoop split: sum.split)

lemma api_step_unprivileged: "unprivileged st \<Longrightarrow> unprivileged (api_step digest mac op st)"
proof (cases op)
  case (CreateKey i salt secret name role now ro)
  assume "unprivileged st"
  then show ?thesis
    by (auto simp: CreateKey createApiKey_def unprivileged_def quiet_repo_set Let_def split: sum.split)
next
  case (ValidateKey raw now ro)
  assume "unprivileged st"
  then show ?thesis
    by (auto simp: ValidateKey validateApiKey_def unprivileged_def quiet_repo_set Let_def split: option.split sum.split)
next
  case (RevokeKey i ro)
  assume "unprivileged st"
  then show ?thesis
    by (auto simp: RevokeKey revokeApiKey_def unprivileged_def quiet_repo_delete split: option.split sum.split)
qed

lemma api_run_unprivileged: "unprivileged (api_run digest mac ops)"
  unfolding api_run_def
  by (rule foldl_invariant [of unprivileged])
    (auto intro: api_step_unprivileged, simp add: unprivileged_def repo_get_def kv_get_def)

lemma validateApiKey_Some:
  assumes "fst (validateApiKey digest mac ro (Some raw) now st) = Some role"
  shows "\<exists>h m. repo_get (split_char (CHR ''_'') raw ! 2) (idRepo st) = Some h \<and> repo_get h (hashRepo st) = Some m
    \<and> role = k_role m \<and> secureCompare mac (Some (hashKey digest raw (k_salt m))) (Some h)"
  using assms by (auto simp: validateApiKey_def Let_def split: option.splits if_splits)

text \<open>
  C27: no API key carries a privileged role, and a revoked key is dead. In every state reached by
  creations, validations and revocations, in read-only mode or not, a key that validates is
  registered under the id in its third part, its salted hash compares equal to the registered hash,
  and its role is neither admin nor mesh peer; and once the id has been revoked outside
  read-only mode, no key with that id validates.
\<close>

theorem api_keys_sound:
  assumes "st = api_run digest mac ops"
  shows "(fst (validateApiKey digest mac ro (Some raw) now st) = Some role \<longrightarrow> role \<notin> {''admin'', ''mesh_peer''} \<and>
      (\<exists>h m. repo_get (split_char (CHR ''_'') raw ! 2) (idRepo st) = Some h \<and> repo_get h (hashRepo st) = Some m
        \<and> role = k_role m \<and> secureCompare mac (Some (hashKey digest raw (k_salt m))) (Some h))) \<and>
    (split_char (CHR ''_'') raw ! 2 = i \<longrightarrow> fst (validateApiKey digest mac ro (Some raw) now (snd (revokeApiKey False i st))) = None)"
proof -
  have unp: "unprivileged st" using api_run_unprivileged assms by blast
  have dead: "fst (validateApiKey digest mac ro (Some raw) now (snd (revokeApiKey False i st))) = None"
    if "split_char (CHR ''_'') raw ! 2 = i"
    using that by (cases "repo_get i (idRepo st)")
      (auto simp: revokeApiKey_def validateApiKey_def quiet_repo_delete checkWritePermission_def Let_def)
  have role: "k_role m \<notin> {''admin'', ''mesh_peer''}" if "repo_get h (hashRepo st) = Some m" for h m
    using unp that unfolding unprivileged_def by blast
  show ?thesis using validateApiKey_Some [of digest mac ro raw now st role] role dead by metis
qed

theorem api_keys_sound_witness:
  "fst (validateApiKey (\<lambda>s. s) (map (\<lambda>c. of_char c)) False (Some ''ct_viewer_1_s'') 5
     (snd (revokeApiKey False ''1'' (api_run (\<lambda>s. s) (map (\<lambda>c. of_char c)) [CreateKey ''1'' ''x'' ''s'' ''n'' ''viewer'' 0 False])))) = None"
  using api_keys_sound [OF refl, where raw = "''ct_viewer_1_s''" and i = "''1''"] by simp

text \<open>
  A created key works. The key that \<open>createApiKey\<close> returns validates at once to the role it was
  created for, provided the role, the id and the secret have no underscore, the salt is not empty
  and the digest is not empty on the key.
\<close>

lemma api_key_roundtrip:
  assumes "createApiKey digest ro i salt secret name role now st = (Inr (raw, i'), st')"
    and "CHR ''_'' \<notin> set role" and "CHR ''_'' \<notin> set i" and "CHR ''_'' \<notin> set secret" and "salt \<noteq> []"
    and "hashKey digest raw salt \<noteq> []"
  shows "raw = rawKeyOf role i secret \<and> i' = i \<and> fst (validateApiKey digest mac ro' (Some raw) later st') = Some role"
proof -
  have raw: "raw = rawKeyOf role i secret" "i' = i"
    and ids: "repo_get i (idRepo st') = Some (hashKey digest raw salt)"
    and hs: "repo_get (hashKey digest raw salt) (hashRepo st')
      = Some \<lparr>k_id = i, k_name = name, k_role = role, k_salt = salt, k_createdAt = now, k_lastUsed = None\<rparr>"
    using assms(1) by (auto simp: createApiKey_def quiet_repo_set Let_def split: if_splits sum.splits)
  have "split_char (CHR ''_'') raw = [''ct'', role, i, secret]"
    using assms(2-4) split_char_append [of "CHR ''_''" "''ct''" "role @ ''_'' @ i @ ''_'' @ secret"]
      split_char_append [of "CHR ''_''" role "i @ ''_'' @ secret"] split_char_append [of "CHR ''_''" i secret]
    by (simp add: raw(1) rawKeyOf_def split_char_id)
  then show ?thesis
    using raw ids hs assms(5,6) by (simp add: validateApiKey_def Let_def secureCompare_def secureCompareBytes_eq rawKeyOf_def)
qed

end
