(* ===== verification/Consensus.thy ===== *)
theory Consensus
  imports Kv_Repository
begin

text \<open>
  The quorum of the mesh, domain/orchestration/mesh/consensus_manager.ts. A command is a saga record in
  the key-value store; every peer that answers with a valid signature adds itself to the
  record by an optimistic transaction, and a watcher resolves the command. The peers' tasks, the
  watcher and the timeout interleave, which is the step relation below. Signature
  verification and the peers' replies are parameters.
\<close>

record mesh_node =
  n_id :: string
  n_hostname :: string
  n_address :: string
  n_port :: int
  n_lastSeen :: int
  n_verified :: bool

datatype saga_status = PENDING | APPROVED | DENIED

record saga =
  sg_action :: string
  sg_approvals :: "string list"
  sg_threshold :: nat
  sg_total :: nat
  sg_status :: saga_status
  sg_createdAt :: int

record 'p reply =
  r_approved :: bool
  r_signature :: "string option"
  r_payload :: 'p

section \<open>Who takes part and how many must agree\<close>

definition verifiedNodes :: "int \<Rightarrow> mesh_node list \<Rightarrow> mesh_node list" where
  "verifiedNodes now nodes = filter (\<lambda>n. n_verified n \<and> now - n_lastSeen n < 600000) nodes"

definition autoApproved :: "bool \<Rightarrow> nat \<Rightarrow> bool" where
  "autoApproved singleNode N \<longleftrightarrow> singleNode \<or> N = 1"

definition quorumThreshold :: "bool \<Rightarrow> nat \<Rightarrow> nat" where
  "quorumThreshold allowSmall N =
    (if N = 2 \<and> allowSmall then 1 else if N \<ge> 4 then (2 * N) div 3 + 1 else N div 2 + 1)"

text \<open>A reply counts when it approves and its signature is verified; \<^const>\<open>None\<close> is a failed request.\<close>

definition peerVote :: "('p \<Rightarrow> string \<Rightarrow> string \<Rightarrow> bool) \<Rightarrow> mesh_node \<Rightarrow> 'p reply option \<Rightarrow> bool" where
  "peerVote verify node res = (case res of
     None \<Rightarrow> False
   | Some r \<Rightarrow> r_approved r \<and> (case r_signature r of None \<Rightarrow> False | Some s \<Rightarrow> verify (r_payload r) s (n_id node)))"

text \<open>Without a store the votes are counted.\<close>

definition countQuorum :: "('p \<Rightarrow> string \<Rightarrow> string \<Rightarrow> bool) \<Rightarrow> bool \<Rightarrow> (mesh_node \<times> 'p reply option) list \<Rightarrow> bool" where
  "countQuorum verify allowSmall votes =
    (1 + length (filter (\<lambda>(n, r). peerVote verify n r) votes) \<ge> quorumThreshold allowSmall (length votes + 1))"

section \<open>The saga\<close>

text \<open>A peer's task waits for the reply, is about to read, holds an entry it read, or has ended. The
  number counts the failed attempts.\<close>

datatype vote_task = Sent | Trying nat | HasRead nat saga nat | Ended

record consensus =
  cs_kv :: "(string, saga) kv"
  cs_tasks :: "vote_task list"
  cs_outcome :: "bool option"

definition startSaga :: "string \<Rightarrow> string \<Rightarrow> string \<Rightarrow> int \<Rightarrow> nat \<Rightarrow> mesh_node list \<Rightarrow> (string, saga) kv \<Rightarrow> consensus" where
  "startSaga sagaId action nodeId now threshold peers s =
    \<lparr>cs_kv = kv_set sagaId \<lparr>sg_action = action, sg_approvals = [nodeId], sg_threshold = threshold,
        sg_total = length peers + 1, sg_status = PENDING, sg_createdAt = now\<rparr> s,
     cs_tasks = replicate (length peers) Sent, cs_outcome = None\<rparr>"

definition readVote :: "string \<Rightarrow> nat \<Rightarrow> (string, saga) kv \<Rightarrow> vote_task" where
  "readVote sagaId attempts s =
    (if attempts < 5 then
       (case kv_get sagaId s of
          None \<Rightarrow> Ended
        | Some (sg, v) \<Rightarrow> (if sg_status sg \<noteq> PENDING then Ended else HasRead attempts sg v))
     else Ended)"

definition addApproval :: "nat \<Rightarrow> string \<Rightarrow> saga \<Rightarrow> saga" where
  "addApproval threshold voter sg =
    (let newApprovals = (if voter \<in> set (sg_approvals sg) then sg_approvals sg else sg_approvals sg @ [voter])
     in sg\<lparr>sg_approvals := newApprovals, sg_status := (if length newApprovals \<ge> threshold then APPROVED else PENDING)\<rparr>)"

definition commitVote :: "string \<Rightarrow> nat \<Rightarrow> string \<Rightarrow> nat \<Rightarrow> saga \<Rightarrow> nat \<Rightarrow> (string, saga) kv \<Rightarrow> vote_task \<times> (string, saga) kv" where
  "commitVote sagaId threshold voter attempts sg v s =
    (if kv_check sagaId (Some (sg, v)) s then (Ended, kv_set sagaId (addApproval threshold voter sg) s)
     else (Trying (attempts + 1), s))"

definition watchSaga :: "string \<Rightarrow> (string, saga) kv \<Rightarrow> bool option" where
  "watchSaga sagaId s = (case kv_get sagaId s of
     None \<Rightarrow> None
   | Some (sg, _) \<Rightarrow> (case sg_status sg of APPROVED \<Rightarrow> Some True | DENIED \<Rightarrow> Some False | PENDING \<Rightarrow> None))"

text \<open>A promise keeps the first value it is resolved with.\<close>

definition resolve :: "bool option \<Rightarrow> bool option \<Rightarrow> bool option" where
  "resolve new old = (case old of None \<Rightarrow> new | Some b \<Rightarrow> Some b)"

inductive cs_step :: "('p \<Rightarrow> string \<Rightarrow> string \<Rightarrow> bool) \<Rightarrow> string \<Rightarrow> nat \<Rightarrow> mesh_node list \<Rightarrow> (nat \<Rightarrow> 'p reply option)
    \<Rightarrow> consensus \<Rightarrow> consensus \<Rightarrow> bool" for verify sagaId threshold peers replies where
  Reply: "i < length peers \<Longrightarrow> cs_tasks s ! i = Sent \<Longrightarrow>
    cs_step verify sagaId threshold peers replies s
      (s\<lparr>cs_tasks := (cs_tasks s)[i := (if peerVote verify (peers ! i) (replies i) then Trying 0 else Ended)]\<rparr>)"
| ReadEntry: "i < length peers \<Longrightarrow> cs_tasks s ! i = Trying a \<Longrightarrow>
    cs_step verify sagaId threshold peers replies s (s\<lparr>cs_tasks := (cs_tasks s)[i := readVote sagaId a (cs_kv s)]\<rparr>)"
| CommitEntry: "i < length peers \<Longrightarrow> cs_tasks s ! i = HasRead a sg v \<Longrightarrow>
    commitVote sagaId threshold (n_id (peers ! i)) a sg v (cs_kv s) = (t, s') \<Longrightarrow>
    cs_step verify sagaId threshold peers replies s (s\<lparr>cs_tasks := (cs_tasks s)[i := t], cs_kv := s'\<rparr>)"
| Watch: "cs_step verify sagaId threshold peers replies s (s\<lparr>cs_outcome := resolve (watchSaga sagaId (cs_kv s)) (cs_outcome s)\<rparr>)"
| Timeout: "cs_step verify sagaId threshold peers replies s (s\<lparr>cs_outcome := resolve (Some False) (cs_outcome s)\<rparr>)"

inductive cs_run :: "('p \<Rightarrow> string \<Rightarrow> string \<Rightarrow> bool) \<Rightarrow> string \<Rightarrow> nat \<Rightarrow> mesh_node list \<Rightarrow> (nat \<Rightarrow> 'p reply option)
    \<Rightarrow> consensus \<Rightarrow> consensus \<Rightarrow> bool" for verify sagaId threshold peers replies s0 where
  cs_start: "cs_run verify sagaId threshold peers replies s0 s0"
| cs_next: "cs_run verify sagaId threshold peers replies s0 s \<Longrightarrow> cs_step verify sagaId threshold peers replies s s' \<Longrightarrow>
    cs_run verify sagaId threshold peers replies s0 s'"

section \<open>Invariant\<close>

text \<open>The peers whose vote counts, by position.\<close>

definition approvers :: "('p \<Rightarrow> string \<Rightarrow> string \<Rightarrow> bool) \<Rightarrow> mesh_node list \<Rightarrow> (nat \<Rightarrow> 'p reply option) \<Rightarrow> nat set" where
  "approvers verify peers replies = {i. i < length peers \<and> peerVote verify (peers ! i) (replies i)}"

definition sagaGood :: "string \<Rightarrow> nat \<Rightarrow> string set \<Rightarrow> saga \<Rightarrow> bool" where
  "sagaGood nodeId threshold voters sg \<longleftrightarrow> distinct (sg_approvals sg) \<and> nodeId \<in> set (sg_approvals sg)
    \<and> set (sg_approvals sg) \<subseteq> insert nodeId voters \<and> sg_status sg \<noteq> DENIED
    \<and> (sg_status sg = APPROVED \<longrightarrow> threshold \<le> length (sg_approvals sg))"

fun taskGood :: "string \<Rightarrow> nat \<Rightarrow> string set \<Rightarrow> nat \<Rightarrow> nat \<Rightarrow> saga \<Rightarrow> nat set \<Rightarrow> nat \<Rightarrow> vote_task \<Rightarrow> bool" where
  "taskGood nodeId threshold voters base clock cur A i Sent = True"
| "taskGood nodeId threshold voters base clock cur A i (Trying a) = (i \<in> A \<and> base + a \<le> clock)"
| "taskGood nodeId threshold voters base clock cur A i (HasRead a sg v) =
    (i \<in> A \<and> a < 5 \<and> base + a \<le> v \<and> v \<le> clock \<and> sagaGood nodeId threshold voters sg \<and> sg_status sg = PENDING \<and> (v = clock \<longrightarrow> sg = cur))"
| "taskGood nodeId threshold voters base clock cur A i Ended = True"

text \<open>The number of commits is bounded by the number of voters whose task has ended; with at most five
  voters no vote is lost.\<close>

definition cs_inv :: "string \<Rightarrow> string \<Rightarrow> nat \<Rightarrow> string set \<Rightarrow> nat \<Rightarrow> nat set \<Rightarrow> mesh_node list \<Rightarrow> consensus \<Rightarrow> bool" where
  "cs_inv sagaId nodeId threshold voters base A peers s \<longleftrightarrow>
    length (cs_tasks s) = length peers \<and> base \<le> kv_clock (cs_kv s) \<and>
    (\<exists>cur. kv_get sagaId (cs_kv s) = Some (cur, kv_clock (cs_kv s)) \<and> sagaGood nodeId threshold voters cur \<and>
      (\<forall>i < length peers. taskGood nodeId threshold voters base (kv_clock (cs_kv s)) cur A i (cs_tasks s ! i)) \<and>
      kv_clock (cs_kv s) \<le> base + card {i \<in> A. cs_tasks s ! i = Ended} \<and>
      (cs_outcome s = Some True \<longrightarrow> sg_status cur = APPROVED) \<and>
      (kv_clock (cs_kv s) = base \<longrightarrow> sg_status cur = PENDING) \<and>
      (card A \<le> 5 \<longrightarrow> (\<forall>i \<in> A. cs_tasks s ! i = Ended \<longrightarrow> sg_status cur = APPROVED \<or>
          (n_id (peers ! i) \<in> set (sg_approvals cur) \<and> length (sg_approvals cur) < threshold))))"

lemma ended_mono:
  assumes "finite A" and "ts ! i \<noteq> Ended"
  shows "card {j \<in> A. ts ! j = Ended} \<le> card {j \<in> A. ts[i := t] ! j = Ended}"
proof (rule card_mono)
  show "{j \<in> A. ts ! j = Ended} \<subseteq> {j \<in> A. ts[i := t] ! j = Ended}"
  proof
    fix j assume "j \<in> {j \<in> A. ts ! j = Ended}"
    then show "j \<in> {j \<in> A. ts[i := t] ! j = Ended}" using assms(2) by (cases "i = j") auto
  qed
qed (use assms(1) in simp)

lemma ended_Suc:
  assumes "finite A" and "i \<in> A" and "i < length ts" and "ts ! i \<noteq> Ended"
  shows "card {j \<in> A. ts[i := Ended] ! j = Ended} = Suc (card {j \<in> A. ts ! j = Ended})"
proof -
  have "{j \<in> A. ts[i := Ended] ! j = Ended} = insert i {j \<in> A. ts ! j = Ended}"
    using assms by (auto simp: nth_list_update)
  then show ?thesis using assms by simp
qed

lemma ended_less:
  assumes "finite A" and "i \<in> A" and "ts ! i \<noteq> Ended"
  shows "card {j \<in> A. ts ! j = Ended} < card A"
  using assms by (intro psubset_card_mono) auto

lemma addApproval_good:
  assumes "sagaGood nodeId threshold voters sg" and "voter \<in> voters"
  shows "sagaGood nodeId threshold voters (addApproval threshold voter sg)"
  using assms by (auto simp: sagaGood_def addApproval_def Let_def)

lemma addApproval_keeps:
  "insert voter (set (sg_approvals sg)) \<subseteq> set (sg_approvals (addApproval threshold voter sg)) \<and>
   (sg_status (addApproval threshold voter sg) = APPROVED \<or> length (sg_approvals (addApproval threshold voter sg)) < threshold)"
  by (auto simp: addApproval_def Let_def)

lemma kv_clock_set [simp]: "kv_clock (kv_set k v s) = Suc (kv_clock s)"
  by (simp add: kv_set_def)

lemma kv_get_set_clock: "kv_get k (kv_set k v s) = Some (v, Suc (kv_clock s))"
  by (simp add: kv_get_def kv_set_def)

section \<open>Every step keeps the invariant\<close>

text \<open>A task that moves without a commit: only its own slot changes.\<close>

lemma cs_inv_task:
  assumes inv: "cs_inv sagaId nodeId threshold voters base A peers s" and fin: "finite A"
    and i: "i < length peers" and open': "cs_tasks s ! i \<noteq> Ended"
    and cur: "kv_get sagaId (cs_kv s) = Some (cur, kv_clock (cs_kv s))"
    and good: "taskGood nodeId threshold voters base (kv_clock (cs_kv s)) cur A i t"
    and lost: "t = Ended \<Longrightarrow> i \<in> A \<Longrightarrow> card A \<le> 5 \<Longrightarrow> sg_status cur = APPROVED"
  shows "cs_inv sagaId nodeId threshold voters base A peers (s\<lparr>cs_tasks := (cs_tasks s)[i := t]\<rparr>)"
proof -
  have "card {j \<in> A. cs_tasks s ! j = Ended} \<le> card {j \<in> A. (cs_tasks s)[i := t] ! j = Ended}"
    by (rule ended_mono [OF fin open'])
  then show ?thesis
    using inv i good lost unfolding cs_inv_def by (auto simp: cur nth_list_update)
qed

lemma cs_inv_Reply:
  assumes inv: "cs_inv sagaId nodeId threshold voters base (approvers verify peers replies) peers s"
    and i: "i < length peers" and sent: "cs_tasks s ! i = Sent"
  shows "cs_inv sagaId nodeId threshold voters base (approvers verify peers replies) peers
    (s\<lparr>cs_tasks := (cs_tasks s)[i := (if peerVote verify (peers ! i) (replies i) then Trying 0 else Ended)]\<rparr>)"
proof -
  obtain cur where cur: "kv_get sagaId (cs_kv s) = Some (cur, kv_clock (cs_kv s))" and base: "base \<le> kv_clock (cs_kv s)"
    using inv unfolding cs_inv_def by blast
  show ?thesis
    by (rule cs_inv_task [OF inv _ i _ cur]) (use i sent base in \<open>auto simp: approvers_def split: if_splits\<close>)
qed

lemma cs_inv_Read:
  assumes inv: "cs_inv sagaId nodeId threshold voters base A peers s" and fin: "finite A"
    and i: "i < length peers" and trying: "cs_tasks s ! i = Trying a"
  shows "cs_inv sagaId nodeId threshold voters base A peers (s\<lparr>cs_tasks := (cs_tasks s)[i := readVote sagaId a (cs_kv s)]\<rparr>)"
proof -
  obtain cur where cur: "kv_get sagaId (cs_kv s) = Some (cur, kv_clock (cs_kv s))" and sg: "sagaGood nodeId threshold voters cur"
    and task: "taskGood nodeId threshold voters base (kv_clock (cs_kv s)) cur A i (cs_tasks s ! i)"
    and clock: "kv_clock (cs_kv s) \<le> base + card {j \<in> A. cs_tasks s ! j = Ended}"
    using inv i unfolding cs_inv_def by blast
  have a: "a < 5" if "card A \<le> 5"
    using ended_less [OF fin, of i "cs_tasks s"] task clock trying that by simp
  have t: "readVote sagaId a (cs_kv s) = (if a < 5 \<and> sg_status cur = PENDING then HasRead a cur (kv_clock (cs_kv s)) else Ended)"
    by (simp add: readVote_def cur)
  show ?thesis unfolding t
  proof (rule cs_inv_task [OF inv fin i _ cur])
    show "cs_tasks s ! i \<noteq> Ended" using trying by simp
    show "taskGood nodeId threshold voters base (kv_clock (cs_kv s)) cur A i
      (if a < 5 \<and> sg_status cur = PENDING then HasRead a cur (kv_clock (cs_kv s)) else Ended)"
      using sg task trying by simp
    show "sg_status cur = APPROVED" if "(if a < 5 \<and> sg_status cur = PENDING then HasRead a cur (kv_clock (cs_kv s)) else Ended) = Ended"
      and "card A \<le> 5"
      using that a sg by (cases "sg_status cur") (auto simp: sagaGood_def split: if_splits)
  qed
qed

lemma cs_inv_Commit_ok:
  assumes inv: "cs_inv sagaId nodeId threshold voters base A peers s" and fin: "finite A" and vot: "\<And>j. j \<in> A \<Longrightarrow> n_id (peers ! j) \<in> voters"
    and A: "A \<subseteq> {..<length peers}"
    and i: "i < length peers" and has: "cs_tasks s ! i = HasRead a sg v" and ok: "kv_check sagaId (Some (sg, v)) (cs_kv s)"
  shows "cs_inv sagaId nodeId threshold voters base A peers (s\<lparr>cs_tasks := (cs_tasks s)[i := Ended],
    cs_kv := kv_set sagaId (addApproval threshold (n_id (peers ! i)) sg) (cs_kv s)\<rparr>)"
proof -
  let ?c = "kv_clock (cs_kv s)" let ?new = "addApproval threshold (n_id (peers ! i)) sg"
  obtain cur where cur: "kv_get sagaId (cs_kv s) = Some (cur, ?c)" and len: "length (cs_tasks s) = length peers" "base \<le> ?c"
    and tasks: "\<forall>j < length peers. taskGood nodeId threshold voters base ?c cur A j (cs_tasks s ! j)"
    and clock: "?c \<le> base + card {j \<in> A. cs_tasks s ! j = Ended}"
    and out: "cs_outcome s = Some True \<longrightarrow> sg_status cur = APPROVED"
    and kept: "card A \<le> 5 \<longrightarrow> (\<forall>j \<in> A. cs_tasks s ! j = Ended \<longrightarrow> sg_status cur = APPROVED \<or>
        (n_id (peers ! j) \<in> set (sg_approvals cur) \<and> length (sg_approvals cur) < threshold))"
    using inv unfolding cs_inv_def by blast
  have iA: "i \<in> A" and sg: "sagaGood nodeId threshold voters sg" "sg_status sg = PENDING" "sg = cur"
    using tasks i has ok by (auto simp: kv_check_def cur)
  have newGood: "sagaGood nodeId threshold voters ?new" by (rule addApproval_good [OF sg(1) vot [OF iA]])
  have "taskGood nodeId threshold voters base (Suc ?c) ?new A j (cs_tasks s ! j)" if "j < length peers" for j
    using tasks [rule_format, OF that] by (cases "cs_tasks s ! j") auto
  then have tasks': "\<forall>j < length peers. taskGood nodeId threshold voters base (Suc ?c) ?new A j ((cs_tasks s)[i := Ended] ! j)"
    by (simp add: nth_list_update len i)
  have clock': "Suc ?c \<le> base + card {j \<in> A. (cs_tasks s)[i := Ended] ! j = Ended}"
    using ended_Suc [OF fin iA, of "cs_tasks s"] len i has clock by simp
  have kept': "sg_status ?new = APPROVED \<or> (n_id (peers ! j) \<in> set (sg_approvals ?new) \<and> length (sg_approvals ?new) < threshold)"
    if "card A \<le> 5" "j \<in> A" "(cs_tasks s)[i := Ended] ! j = Ended" for j
  proof (cases "i = j")
    case True
    then show ?thesis using addApproval_keeps [of "n_id (peers ! i)" sg threshold] by auto
  next
    case False
    then show ?thesis using that kept sg addApproval_keeps [of "n_id (peers ! i)" sg threshold] by auto
  qed
  show ?thesis unfolding cs_inv_def
    using len newGood tasks' clock' kept' out sg(2,3) by (simp add: kv_get_set_clock)
qed

lemma cs_inv_Commit:
  assumes inv: "cs_inv sagaId nodeId threshold voters base A peers s" and fin: "finite A" and vot: "\<And>j. j \<in> A \<Longrightarrow> n_id (peers ! j) \<in> voters"
    and A: "A \<subseteq> {..<length peers}" and i: "i < length peers" and has: "cs_tasks s ! i = HasRead a sg v"
    and commit: "commitVote sagaId threshold (n_id (peers ! i)) a sg v (cs_kv s) = (t, s')"
  shows "cs_inv sagaId nodeId threshold voters base A peers (s\<lparr>cs_tasks := (cs_tasks s)[i := t], cs_kv := s'\<rparr>)"
proof (cases "kv_check sagaId (Some (sg, v)) (cs_kv s)")
  case True
  then show ?thesis using cs_inv_Commit_ok [OF inv fin vot A i has True] commit by (auto simp: commitVote_def)
next
  case False
  then have t: "t = Trying (a + 1)" "s' = cs_kv s" using commit by (auto simp: commitVote_def)
  obtain cur where cur: "kv_get sagaId (cs_kv s) = Some (cur, kv_clock (cs_kv s))"
    and task: "taskGood nodeId threshold voters base (kv_clock (cs_kv s)) cur A i (cs_tasks s ! i)"
    using inv i unfolding cs_inv_def by blast
  have "cs_inv sagaId nodeId threshold voters base A peers (s\<lparr>cs_tasks := (cs_tasks s)[i := Trying (a + 1)]\<rparr>)"
    by (rule cs_inv_task [OF inv fin i _ cur]) (use False task has in \<open>auto simp: kv_check_def cur\<close>)
  then show ?thesis by (simp add: t)
qed

lemma approvers_finite [simp]: "finite (approvers verify peers replies)"
  by (simp add: approvers_def)

definition voterIds :: "('p \<Rightarrow> string \<Rightarrow> string \<Rightarrow> bool) \<Rightarrow> mesh_node list \<Rightarrow> (nat \<Rightarrow> 'p reply option) \<Rightarrow> string set" where
  "voterIds verify peers replies = (\<lambda>i. n_id (peers ! i)) ` approvers verify peers replies"

lemma cs_step_inv:
  assumes "cs_step verify sagaId threshold peers replies s s'"
    and "cs_inv sagaId nodeId threshold (voterIds verify peers replies) base (approvers verify peers replies) peers s"
  shows "cs_inv sagaId nodeId threshold (voterIds verify peers replies) base (approvers verify peers replies) peers s'"
  using assms
proof cases
  case (Reply i)
  then show ?thesis using cs_inv_Reply [OF assms(2)] by blast
next
  case (ReadEntry i a)
  then show ?thesis using cs_inv_Read [OF assms(2)] by simp
next
  case (CommitEntry i a sg v t s'')
  have "approvers verify peers replies \<subseteq> {..<length peers}" by (auto simp: approvers_def)
  then show ?thesis using cs_inv_Commit [OF assms(2) approvers_finite _ _ CommitEntry(2,3,4)] CommitEntry(1)
    by (simp add: voterIds_def)
next
  case Watch
  then show ?thesis using assms(2)
    by (auto simp: cs_inv_def watchSaga_def resolve_def split: option.splits saga_status.splits)
next
  case Timeout
  then show ?thesis using assms(2) by (auto simp: cs_inv_def resolve_def split: option.splits)
qed

lemma cs_run_inv:
  assumes "cs_run verify sagaId threshold peers replies (startSaga sagaId action nodeId now threshold peers store) s"
  shows "cs_inv sagaId nodeId threshold (voterIds verify peers replies) (Suc (kv_clock store)) (approvers verify peers replies) peers s"
  using assms
proof induction
  case cs_start
  show ?case
    by (auto simp: cs_inv_def startSaga_def sagaGood_def kv_get_set_clock approvers_def)
next
  case (cs_next s s')
  then show ?case using cs_step_inv by blast
qed

section \<open>Quorum\<close>


text \<open>
  No vote is lost among five. When all peers' tasks have ended and at most five peers sent an approval
  with a valid signature, every one of them has been counted: the record is approved exactly when
  there is such a peer and the requester and these peers together reach the threshold,
  whatever transactions collided on the way.
\<close>

lemma quorum_counts_votes:
  assumes "cs_run verify sagaId threshold peers replies (startSaga sagaId action nodeId now threshold peers store) s"
    and "\<forall>i < length peers. cs_tasks s ! i = Ended"
    and "card (approvers verify peers replies) \<le> 5"
  shows "watchSaga sagaId (cs_kv s) =
    (if approvers verify peers replies \<noteq> {} \<and> threshold \<le> card (insert nodeId (voterIds verify peers replies))
     then Some True else None)"
proof -
  let ?A = "approvers verify peers replies" and ?V = "insert nodeId (voterIds verify peers replies)"
  obtain cur where cur: "kv_get sagaId (cs_kv s) = Some (cur, kv_clock (cs_kv s))"
    and good: "sagaGood nodeId threshold (voterIds verify peers replies) cur"
    and clock: "kv_clock (cs_kv s) \<le> Suc (kv_clock store) + card {i \<in> ?A. cs_tasks s ! i = Ended}"
      "kv_clock (cs_kv s) = Suc (kv_clock store) \<longrightarrow> sg_status cur = PENDING" "Suc (kv_clock store) \<le> kv_clock (cs_kv s)"
    and kept: "\<forall>i \<in> ?A. cs_tasks s ! i = Ended \<longrightarrow> sg_status cur = APPROVED \<or>
        (n_id (peers ! i) \<in> set (sg_approvals cur) \<and> length (sg_approvals cur) < threshold)"
    using cs_run_inv [OF assms(1)] assms(3) unfolding cs_inv_def by blast
  have fin: "finite ?V" by (simp add: voterIds_def)
  have le: "length (sg_approvals cur) \<le> card ?V"
    using good card_mono [OF fin, of "set (sg_approvals cur)"] by (simp add: sagaGood_def distinct_card)
  have ended: "\<forall>i \<in> ?A. cs_tasks s ! i = Ended" using assms(2) by (simp add: approvers_def)
  have "sg_status cur = APPROVED \<longleftrightarrow> ?A \<noteq> {} \<and> threshold \<le> card ?V"
  proof
    assume ap: "sg_status cur = APPROVED"
    then have "?A \<noteq> {}" using clock by auto
    then show "?A \<noteq> {} \<and> threshold \<le> card ?V" using ap good le by (simp add: sagaGood_def)
  next
    assume q: "?A \<noteq> {} \<and> threshold \<le> card ?V"
    show "sg_status cur = APPROVED"
    proof (rule ccontr)
      assume no: "sg_status cur \<noteq> APPROVED"
      then have "?V \<subseteq> set (sg_approvals cur)" using kept ended good by (auto simp: sagaGood_def voterIds_def)
      then have "card ?V \<le> length (sg_approvals cur)" using card_mono card_length le_trans by (metis List.finite_set)
      moreover have "length (sg_approvals cur) < threshold" using kept ended no q by auto
      ultimately show False using q by simp
    qed
  qed
  then show ?thesis using good by (cases "sg_status cur") (auto simp: watchSaga_def cur sagaGood_def)
qed

section \<open>A command with one peer\<close>

definition samplePeer :: mesh_node where
  "samplePeer = \<lparr>n_id = ''p'', n_hostname = ''h'', n_address = ''a'', n_port = 1, n_lastSeen = 0, n_verified = True\<rparr>"

definition sampleReply :: "unit reply option" where
  "sampleReply = Some \<lparr>r_approved = True, r_signature = Some ''s'', r_payload = ()\<rparr>"

definition sampleEnd :: consensus where
  "sampleEnd = (let s0 = startSaga ''q'' ''lock'' ''me'' 0 2 [samplePeer] \<lparr>kv_entries = [], kv_clock = 0\<rparr>;
       sg = \<lparr>sg_action = ''lock'', sg_approvals = [''me''], sg_threshold = 2, sg_total = 2, sg_status = PENDING, sg_createdAt = 0\<rparr>
     in s0\<lparr>cs_tasks := [Ended], cs_kv := kv_set ''q'' (addApproval 2 ''p'' sg) (cs_kv s0)\<rparr>\<lparr>cs_outcome := Some True\<rparr>)"

lemma sampleEnd_outcome: "cs_outcome sampleEnd = Some True"
  by (simp add: sampleEnd_def Let_def)

lemma sample_run:
  defines "s0 \<equiv> startSaga ''q'' ''lock'' ''me'' 0 2 [samplePeer] \<lparr>kv_entries = [], kv_clock = 0\<rparr>"
  defines "sg \<equiv> \<lparr>sg_action = ''lock'', sg_approvals = [''me''], sg_threshold = 2, sg_total = 2, sg_status = PENDING, sg_createdAt = 0\<rparr>"
  defines "s3 \<equiv> s0\<lparr>cs_tasks := [Ended], cs_kv := kv_set ''q'' (addApproval 2 ''p'' sg) (cs_kv s0)\<rparr>"
  shows "cs_run (\<lambda>p s n. True) ''q'' 2 [samplePeer] (\<lambda>_. sampleReply) s0 s3"
    and "cs_run (\<lambda>p s n. True) ''q'' 2 [samplePeer] (\<lambda>_. sampleReply) s0 (s3\<lparr>cs_outcome := Some True\<rparr>)"
proof -
  let ?step = "cs_step (\<lambda>p s n. True) ''q'' 2 [samplePeer] (\<lambda>_. sampleReply)"
  have vote: "peerVote (\<lambda>p s n. True) samplePeer sampleReply" by (simp add: peerVote_def sampleReply_def)
  have kv: "kv_get ''q'' (cs_kv s0) = Some (sg, 1)" and ts: "cs_tasks s0 = [Sent]" and out: "cs_outcome s0 = None"
    by (simp_all add: s0_def sg_def startSaga_def kv_get_set_clock)
  have 1: "?step s0 (s0\<lparr>cs_tasks := [Trying 0]\<rparr>)"
    using cs_step.Reply [where i = 0 and s = s0 and verify = "\<lambda>p s n. True" and peers = "[samplePeer]" and replies = "\<lambda>_. sampleReply"]
    by (simp add: ts vote)
  have 2: "?step (s0\<lparr>cs_tasks := [Trying 0]\<rparr>) (s0\<lparr>cs_tasks := [HasRead 0 sg 1]\<rparr>)"
    using cs_step.ReadEntry [where i = 0 and s = "s0\<lparr>cs_tasks := [Trying 0]\<rparr>" and peers = "[samplePeer]" and sagaId = "''q''" and a = 0]
    by (simp add: readVote_def kv sg_def)
  have 3: "?step (s0\<lparr>cs_tasks := [HasRead 0 sg 1]\<rparr>) s3"
    using cs_step.CommitEntry [where i = 0 and s = "s0\<lparr>cs_tasks := [HasRead 0 sg 1]\<rparr>" and peers = "[samplePeer]" and sagaId = "''q''" and a = 0
        and sg = sg and v = 1 and threshold = 2 and t = Ended and s' = "kv_set ''q'' (addApproval 2 ''p'' sg) (cs_kv s0)"]
    by (simp add: commitVote_def kv kv_check_def s3_def samplePeer_def)
  have 4: "?step s3 (s3\<lparr>cs_outcome := Some True\<rparr>)"
    using cs_step.Watch [where s = s3 and sagaId = "''q''"]
    by (simp add: watchSaga_def resolve_def s3_def out kv_get_set_clock addApproval_def sg_def Let_def)
  show r: "cs_run (\<lambda>p s n. True) ''q'' 2 [samplePeer] (\<lambda>_. sampleReply) s0 s3"
    by (rule cs_next [OF cs_next [OF cs_next [OF cs_start 1] 2] 3])
  show "cs_run (\<lambda>p s n. True) ''q'' 2 [samplePeer] (\<lambda>_. sampleReply) s0 (s3\<lparr>cs_outcome := Some True\<rparr>)"
    by (rule cs_next [OF r 4])
qed

lemma samplePeer_verified: "[samplePeer] = verifiedNodes 0 [samplePeer]"
  by (simp add: verifiedNodes_def samplePeer_def)


end
