(* ===== verification/Persistent_Queue.thy ===== *)
theory Persistent_Queue
  imports Kv_Repository
begin

text \<open>
  The durable queue of core/utils/persistent_queue.ts. A key \<open>["queue", name, id]\<close> is represented by
  \<open>[id]\<close>, the dead letter key \<open>["queue", name, "dlq", id]\<close> by \<open>["dlq", id]\<close>. A call of \<open>process\<close>
  lists one batch and then handles its entries one by one; enqueueing interleaves with it. A batch of
  at most a hundred entries, as by default, is read by one request, hence a snapshot.
\<close>

record 'a queue_entry =
  q_item :: 'a
  q_attempts :: nat
  q_timestamp :: int

text \<open>\<open>q_batch\<close> is the rest of the batch of the running call, \<^const>\<open>None\<close> when \<open>isProcessing\<close> is
  false.\<close>

record 'a queue =
  q_kv :: "(string list, 'a queue_entry) kv"
  q_batch :: "(string list \<times> 'a queue_entry) list option"

definition isProcessing :: "'a queue \<Rightarrow> bool" where
  "isProcessing st \<longleftrightarrow> q_batch st \<noteq> None"

definition new_queue :: "'a queue" where
  "new_queue = \<lparr>q_kv = \<lparr>kv_entries = [], kv_clock = 0\<rparr>, q_batch = None\<rparr>"

definition enqueue :: "string \<Rightarrow> 'a \<Rightarrow> int \<Rightarrow> 'a queue \<Rightarrow> 'a queue" where
  "enqueue i item now st = st\<lparr>q_kv := kv_set [i] \<lparr>q_item = item, q_attempts = 0, q_timestamp = now\<rparr> (q_kv st)\<rparr>"

definition processBegin :: "nat \<Rightarrow> 'a queue \<Rightarrow> 'a queue" where
  "processBegin batchSize st =
    (if isProcessing st then st else st\<lparr>q_batch := Some (take batchSize (kv_list (q_kv st)))\<rparr>)"

definition dlqKey :: "string list \<Rightarrow> string list" where
  "dlqKey key = [''dlq'', last key]"

definition handleFailure :: "string list \<Rightarrow> 'a \<Rightarrow> nat \<Rightarrow> nat \<Rightarrow> int \<Rightarrow> (string list, 'a queue_entry) kv
    \<Rightarrow> (string list, 'a queue_entry) kv" where
  "handleFailure key item attempts maxAttempts now s =
    (if attempts \<ge> maxAttempts
     then kv_set (dlqKey key) \<lparr>q_item = item, q_attempts = attempts, q_timestamp = now\<rparr> (kv_delete key s)
     else kv_set key \<lparr>q_item = item, q_attempts = attempts, q_timestamp = now\<rparr> s)"

text \<open>One round of the loop; \<open>success\<close> is what the handler returned, a handler that throws counts as a
  failure.\<close>

definition processEntry :: "nat \<Rightarrow> int \<Rightarrow> bool \<Rightarrow> 'a queue \<Rightarrow> 'a queue" where
  "processEntry maxAttempts now success st = (case q_batch st of
     Some ((key, e) # rest) \<Rightarrow>
       st\<lparr>q_kv := (if success then kv_delete key (q_kv st)
                   else handleFailure key (q_item e) (q_attempts e + 1) maxAttempts now (q_kv st)),
          q_batch := Some rest\<rparr>
   | _ \<Rightarrow> st)"

definition processEnd :: "'a queue \<Rightarrow> 'a queue" where
  "processEnd st = (if q_batch st = Some [] then st\<lparr>q_batch := None\<rparr> else st)"

section \<open>Interleaving\<close>

text \<open>The history keeps the enqueued items and those the handler accepted, with their ids. An id is a
  fresh UUID.\<close>

record 'a queue_history =
  h_enqueued :: "(string \<times> 'a) list"
  h_delivered :: "(string \<times> 'a) list"

inductive queue_step :: "nat \<Rightarrow> nat \<Rightarrow> 'a queue \<times> 'a queue_history \<Rightarrow> 'a queue \<times> 'a queue_history \<Rightarrow> bool"
  for maxAttempts batchSize where
  Enqueue: "i \<notin> fst ` set (h_enqueued h) \<Longrightarrow>
    queue_step maxAttempts batchSize (st, h) (enqueue i x now st, h\<lparr>h_enqueued := (i, x) # h_enqueued h\<rparr>)"
| Begin: "queue_step maxAttempts batchSize (st, h) (processBegin batchSize st, h)"
| Deliver: "q_batch st = Some ((key, e) # rest) \<Longrightarrow>
    queue_step maxAttempts batchSize (st, h)
      (processEntry maxAttempts now True st, h\<lparr>h_delivered := (last key, q_item e) # h_delivered h\<rparr>)"
| Fail: "q_batch st = Some ((key, e) # rest) \<Longrightarrow>
    queue_step maxAttempts batchSize (st, h) (processEntry maxAttempts now False st, h)"
| Finish: "queue_step maxAttempts batchSize (st, h) (processEnd st, h)"

section \<open>Invariant\<close>

definition keysOf :: "string \<Rightarrow> string list set" where
  "keysOf i = {[i], [''dlq'', i]}"

definition otherKey :: "string list \<Rightarrow> string list" where
  "otherKey k = (if length k = 1 then [''dlq'', last k] else [last k])"

lemma keysOf_last: "k \<in> keysOf i \<Longrightarrow> last k = i"
  by (auto simp: keysOf_def)

lemma dlqKey_keysOf: "k \<in> keysOf i \<Longrightarrow> dlqKey k = [''dlq'', i]"
  by (auto simp: keysOf_def dlqKey_def)

text \<open>The entry of an id, live or dead letter.\<close>

definition slot :: "string \<Rightarrow> (string list, 'e) kv \<Rightarrow> 'e option" where
  "slot i s = (case kv_value [i] s of Some e \<Rightarrow> Some e | None \<Rightarrow> kv_value [''dlq'', i] s)"

text \<open>Every key belongs to an id, and an id has at most one key.\<close>

definition keys_wf :: "(string list, 'e) kv \<Rightarrow> bool" where
  "keys_wf s \<longleftrightarrow> kv_wf s \<and> (\<forall>k e. kv_value k s = Some e \<longrightarrow> (\<exists>i. k \<in> keysOf i) \<and> kv_value (otherKey k) s = None)"

lemma otherKey_simps [simp]: "otherKey [i] = [''dlq'', i]" "otherKey [''dlq'', i] = [i]"
  by (simp_all add: otherKey_def)

lemma kv_value_delete [simp]: "kv_value k (kv_delete k' s) = (if k = k' then None else kv_value k s)"
  by (simp add: kv_value_def)

lemma keys_wfD:
  assumes "keys_wf s" and "kv_value k s = Some e"
  obtains i where "k \<in> keysOf i" and "kv_value (otherKey k) s = None"
  using assms by (auto simp: keys_wf_def)

lemma slot_key:
  assumes "keys_wf s" and "kv_value k s = Some e"
  shows "slot (last k) s = Some e"
proof -
  obtain i where "k \<in> keysOf i" "kv_value (otherKey k) s = None" using keys_wfD [OF assms] by blast
  then show ?thesis using assms(2) by (auto simp: keysOf_def slot_def)
qed

lemma keys_wf_set:
  assumes "keys_wf s" and "k \<in> keysOf i" and "kv_value (otherKey k) s = None"
  shows "keys_wf (kv_set k e s)" and "slot j (kv_set k e s) = (if j = i then Some e else slot j s)"
proof -
  have "(\<exists>i. k' \<in> keysOf i) \<and> kv_value (otherKey k') (kv_set k e s) = None" if "kv_value k' (kv_set k e s) = Some e'" for k' e'
  proof (cases "k' = k")
    case True
    then show ?thesis using assms(2,3) by (auto simp: keysOf_def)
  next
    case False
    then have "kv_value k' s = Some e'" using that by simp
    then show ?thesis using assms by (auto simp: keysOf_def elim!: keys_wfD split: if_splits)
  qed
  then show "keys_wf (kv_set k e s)" using assms(1) by (auto simp: keys_wf_def intro: kv_wf_set)
  show "slot j (kv_set k e s) = (if j = i then Some e else slot j s)"
    using assms(2,3) by (auto simp: keysOf_def slot_def split: option.split)
qed

lemma keys_wf_delete:
  assumes "keys_wf s" and "k \<in> keysOf i" and "kv_value (otherKey k) s = None"
  shows "keys_wf (kv_delete k s)" and "slot j (kv_delete k s) = (if j = i then None else slot j s)"
proof -
  show "keys_wf (kv_delete k s)" using assms(1) by (auto simp: keys_wf_def intro: kv_wf_delete)
  show "slot j (kv_delete k s) = (if j = i then None else slot j s)"
    using assms(2,3) by (auto simp: keysOf_def slot_def split: option.split)
qed

lemma handleFailure_keeps:
  assumes wf: "keys_wf s" and k: "k \<in> keysOf i" and other: "kv_value (otherKey k) s = None"
    and e: "kv_value k s = Some e"
  shows "keys_wf (handleFailure k x n m now s)"
    and "map_option q_item (slot j (handleFailure k x n m now s)) = (if j = i then Some x else map_option q_item (slot j s))"
    and "k' \<notin> keysOf i \<Longrightarrow> kv_value k' (handleFailure k x n m now s) = kv_value k' s"
proof -
  note del = keys_wf_delete [OF wf k other]
  have free: "kv_value (otherKey (dlqKey k)) (kv_delete k s) = None"
    using k other by (auto simp: dlqKey_keysOf [OF k] keysOf_def)
  have dlq: "dlqKey k \<in> keysOf i" by (simp add: dlqKey_keysOf [OF k] keysOf_def)
  show "keys_wf (handleFailure k x n m now s)"
    using keys_wf_set(1) [OF del(1) dlq free] keys_wf_set(1) [OF wf k other] by (simp add: handleFailure_def)
  show "map_option q_item (slot j (handleFailure k x n m now s)) = (if j = i then Some x else map_option q_item (slot j s))"
    by (simp add: handleFailure_def keys_wf_set(2) [OF del(1) dlq free] keys_wf_set(2) [OF wf k other] del(2))
  show "k' \<notin> keysOf i \<Longrightarrow> kv_value k' (handleFailure k x n m now s) = kv_value k' s"
    using k by (auto simp: handleFailure_def dlqKey_keysOf [OF k] keysOf_def)
qed

text \<open>The items that should be in the queue.\<close>

definition outstanding :: "'a queue_history \<Rightarrow> string \<Rightarrow> 'a option" where
  "outstanding h i = (if i \<in> fst ` set (h_delivered h) then None else map_of (h_enqueued h) i)"

definition batch_ok :: "'a queue \<Rightarrow> bool" where
  "batch_ok st = (case q_batch st of None \<Rightarrow> True | Some b \<Rightarrow> distinct (map (\<lambda>(k, e). last k) b) \<and> (\<forall>(k, e) \<in> set b. kv_value k (q_kv st) = Some e))"

definition queue_inv :: "'a queue \<times> 'a queue_history \<Rightarrow> bool" where
  "queue_inv = (\<lambda>(st, h). keys_wf (q_kv st) \<and> batch_ok st \<and> distinct (map fst (h_enqueued h)) \<and>
    distinct (map fst (h_delivered h)) \<and> set (h_delivered h) \<subseteq> set (h_enqueued h) \<and>
    (\<forall>i. map_option q_item (slot i (q_kv st)) = outstanding h i))"

lemma batch_keys:
  assumes "keys_wf s" and "distinct (map fst b)" and "\<And>k e. (k, e) \<in> set b \<Longrightarrow> kv_value k s = Some e"
  shows "distinct (map (\<lambda>(k, e). last k) b)"
  using assms(2,3)
proof (induction b)
  case (Cons p b)
  obtain k e where p: "p = (k, e)" by force
  have "last k' \<noteq> last k" if "(k', e') \<in> set b" for k' e'
  proof
    assume eq: "last k' = last k"
    have k: "kv_value k s = Some e" "kv_value k' s = Some e'" and ne: "k' \<noteq> k"
      using Cons.prems that p by (auto simp: rev_image_eqI)
    obtain i where i: "k \<in> keysOf i" "kv_value (otherKey k) s = None" using keys_wfD [OF assms(1) k(1)] by blast
    obtain j where "k' \<in> keysOf j" using keys_wfD [OF assms(1) k(2)] by blast
    then show False using i k eq ne by (auto simp: keysOf_def)
  qed
  moreover have "distinct (map (\<lambda>(k, e). last k) b)" using Cons by auto
  ultimately show ?case by (force simp: p)
qed simp

lemma entry_facts:
  assumes inv: "queue_inv (st, h)" and b: "q_batch st = Some ((key, e) # rest)"
  obtains i where "key \<in> keysOf i" "last key = i" "kv_value (otherKey key) (q_kv st) = None" "kv_value key (q_kv st) = Some e"
    "outstanding h i = Some (q_item e)" "\<And>k e. (k, e) \<in> set rest \<Longrightarrow> k \<notin> keysOf i \<and> kv_value k (q_kv st) = Some e"
    "distinct (map (\<lambda>(k, e). last k) rest)"
proof -
  have wf: "keys_wf (q_kv st)" and v: "kv_value key (q_kv st) = Some e" and out: "\<forall>i. map_option q_item (slot i (q_kv st)) = outstanding h i"
    and rest: "\<forall>(k, e) \<in> set rest. kv_value k (q_kv st) = Some e" "last key \<notin> (\<lambda>(k, e). last k) ` set rest" "distinct (map (\<lambda>(k, e). last k) rest)"
    using inv b by (auto simp: queue_inv_def batch_ok_def)
  obtain i where i: "key \<in> keysOf i" "kv_value (otherKey key) (q_kv st) = None" using keys_wfD [OF wf v] by blast
  have "k \<notin> keysOf i \<and> kv_value k (q_kv st) = Some e" if "(k, e) \<in> set rest" for k e
    using rest that keysOf_last [of k i] keysOf_last [OF i(1)] by force
  moreover have "outstanding h i = Some (q_item e)"
    using out slot_key [OF wf v] keysOf_last [OF i(1)] by (metis option.simps(9))
  ultimately show thesis using that [of i] i v keysOf_last [OF i(1)] rest(3) by blast
qed

lemma queue_inv_Enqueue:
  assumes "queue_inv (st, h)" and "i \<notin> fst ` set (h_enqueued h)"
  shows "queue_inv (enqueue i x now st, h\<lparr>h_enqueued := (i, x) # h_enqueued h\<rparr>)"
proof -
  let ?s = "q_kv st"
  have wf: "keys_wf ?s" and out: "\<And>j. map_option q_item (slot j ?s) = outstanding h j"
    using assms(1) by (auto simp: queue_inv_def)
  have new: "i \<notin> fst ` set (h_delivered h)" using assms by (auto simp: queue_inv_def)
  then have none: "slot i ?s = None" using out [of i] assms(2) map_of_eq_None_iff [of "h_enqueued h" i] by (simp add: outstanding_def)
  then have free: "kv_value [i] ?s = None" "kv_value (otherKey [i]) ?s = None" by (auto simp: slot_def split: option.splits)
  have i: "[i] \<in> keysOf i" by (simp add: keysOf_def)
  have batch: "batch_ok (enqueue i x now st)"
  proof (cases "q_batch st")
    case (Some b)
    have "kv_value k (q_kv (enqueue i x now st)) = Some e" if "(k, e) \<in> set b" for k e
      using assms(1) Some that free(1) by (fastforce simp: queue_inv_def batch_ok_def enqueue_def)
    then show ?thesis using assms(1) Some by (auto simp: queue_inv_def batch_ok_def enqueue_def)
  qed (simp add: batch_ok_def enqueue_def)
  have "map_option q_item (slot j (q_kv (enqueue i x now st))) = outstanding (h\<lparr>h_enqueued := (i, x) # h_enqueued h\<rparr>) j" for j
    using out [of j] new by (simp add: enqueue_def keys_wf_set(2) [OF wf i free(2)] outstanding_def split: if_splits)
  moreover have "keys_wf (q_kv (enqueue i x now st))" using keys_wf_set(1) [OF wf i free(2)] by (simp add: enqueue_def)
  ultimately show ?thesis using assms batch by (auto simp: queue_inv_def)
qed

lemma queue_inv_Begin:
  assumes "queue_inv (st, h)"
  shows "queue_inv (processBegin n st, h)"
proof (cases "isProcessing st")
  case False
  let ?b = "take n (kv_list (q_kv st))"
  have wf: "keys_wf (q_kv st)" "kv_wf (q_kv st)" using assms by (auto simp: queue_inv_def keys_wf_def)
  have vals: "kv_value k (q_kv st) = Some e" if "(k, e) \<in> set ?b" for k e
    using in_set_takeD [OF that] by (simp add: kv_list_mem [OF wf(2)] kv_value_def)
  have "distinct (map fst ?b)" using kv_list_distinct [OF wf(2)] by (simp add: take_map [symmetric])
  then have "distinct (map (\<lambda>(k, e). last k) ?b)" using batch_keys [OF wf(1)] vals by blast
  then show ?thesis using assms vals False by (auto simp: queue_inv_def batch_ok_def processBegin_def)
qed (use assms in \<open>simp add: processBegin_def\<close>)

lemma queue_inv_Deliver:
  assumes inv: "queue_inv (st, h)" and b: "q_batch st = Some ((key, e) # rest)"
  shows "queue_inv (processEntry m now True st, h\<lparr>h_delivered := (last key, q_item e) # h_delivered h\<rparr>)"
proof -
  obtain i where i: "key \<in> keysOf i" "last key = i" "kv_value (otherKey key) (q_kv st) = None" "outstanding h i = Some (q_item e)"
    and rest: "\<And>k e. (k, e) \<in> set rest \<Longrightarrow> k \<notin> keysOf i \<and> kv_value k (q_kv st) = Some e" "distinct (map (\<lambda>(k, e). last k) rest)"
    using entry_facts [OF inv b] by metis
  have wf: "keys_wf (q_kv st)" using inv by (simp add: queue_inv_def)
  have new: "i \<notin> fst ` set (h_delivered h)" "(i, q_item e) \<in> set (h_enqueued h)"
    using i(4) by (auto simp: outstanding_def split: if_splits dest: map_of_SomeD)
  have batch: "batch_ok (processEntry m now True st)"
    using rest i(1) by (auto simp: batch_ok_def processEntry_def b)
  have "map_option q_item (slot j (kv_delete key (q_kv st))) = outstanding (h\<lparr>h_delivered := (i, q_item e) # h_delivered h\<rparr>) j" for j
  proof -
    have "map_option q_item (slot j (q_kv st)) = outstanding h j" using inv by (simp add: queue_inv_def)
    then show ?thesis by (simp add: keys_wf_delete(2) [OF wf i(1,3)] outstanding_def split: if_splits)
  qed
  then show ?thesis using inv new i(2) batch keys_wf_delete(1) [OF wf i(1,3)]
    by (simp add: queue_inv_def processEntry_def b)
qed

lemma queue_inv_Fail:
  assumes inv: "queue_inv (st, h)" and b: "q_batch st = Some ((key, e) # rest)"
  shows "queue_inv (processEntry m now False st, h)"
proof -
  obtain i where i: "key \<in> keysOf i" "kv_value (otherKey key) (q_kv st) = None" "kv_value key (q_kv st) = Some e"
      "outstanding h i = Some (q_item e)"
    and rest: "\<And>k e. (k, e) \<in> set rest \<Longrightarrow> k \<notin> keysOf i \<and> kv_value k (q_kv st) = Some e" "distinct (map (\<lambda>(k, e). last k) rest)"
    using entry_facts [OF inv b] by metis
  have wf: "keys_wf (q_kv st)" using inv by (simp add: queue_inv_def)
  note keeps = handleFailure_keeps [OF wf i(1,2,3)]
  have "batch_ok (processEntry m now False st)"
    using rest keeps(3) by (auto simp: batch_ok_def processEntry_def b)
  then show ?thesis using inv i(4) keeps(1,2) by (auto simp: queue_inv_def processEntry_def b)
qed

lemma queue_inv_Finish: "queue_inv (st, h) \<Longrightarrow> queue_inv (processEnd st, h)"
  by (simp add: queue_inv_def processEnd_def batch_ok_def)

lemma queue_step_inv: "queue_inv s \<Longrightarrow> queue_step m n s s' \<Longrightarrow> queue_inv s'"
  by (erule queue_step.cases)
    (simp_all add: queue_inv_Enqueue queue_inv_Begin queue_inv_Deliver queue_inv_Fail queue_inv_Finish)

definition queue_start :: "'a queue \<times> 'a queue_history" where
  "queue_start = (new_queue, \<lparr>h_enqueued = [], h_delivered = []\<rparr>)"

lemma queue_start_inv: "queue_inv queue_start"
  by (simp add: queue_inv_def queue_start_def new_queue_def keys_wf_def kv_wf_def batch_ok_def
      kv_value_def kv_get_def slot_def outstanding_def)

lemma queue_reach_inv: "reach queue_start (queue_step m n) s \<Longrightarrow> queue_inv s"
  by (erule reach_invariant, rule queue_start_inv, rule queue_step_inv)


lemma sample_queue_run:
  "reach queue_start (queue_step 1 100) (enqueue ''a'' (7::nat) 0 new_queue, \<lparr>h_enqueued = [(''a'', 7)], h_delivered = []\<rparr>)"
proof (rule reach_step [OF reach_init])
  show "queue_step 1 100 queue_start (enqueue ''a'' (7::nat) 0 new_queue, \<lparr>h_enqueued = [(''a'', 7)], h_delivered = []\<rparr>)"
    using Enqueue [of "''a''" "\<lparr>h_enqueued = [], h_delivered = []\<rparr>" 1 100 new_queue "7::nat" 0] by (simp add: queue_start_def)
qed


text \<open>
  Dead letters are processed again. The listing of the queue covers the dead letter keys: if the only
  entry is a dead letter, the next call of \<open>process\<close> hands it to the handler, and on
  another failure it stays a dead letter with one attempt more than the maximum.
\<close>

lemma dead_letter_retried:
  assumes "1 \<le> maxAttempts" and "1 \<le> batchSize"
  shows "let st = \<lparr>q_kv = \<lparr>kv_entries = [([''dlq'', i], \<lparr>q_item = x, q_attempts = maxAttempts, q_timestamp = t\<rparr>, n)], kv_clock = n\<rparr>, q_batch = None\<rparr>;
      st1 = processBegin batchSize st
    in q_batch st1 = Some [([''dlq'', i], \<lparr>q_item = x, q_attempts = maxAttempts, q_timestamp = t\<rparr>)] \<and>
       kv_value [''dlq'', i] (q_kv (processEntry maxAttempts now False st1)) = Some \<lparr>q_item = x, q_attempts = maxAttempts + 1, q_timestamp = now\<rparr> \<and>
       kv_value [''dlq'', i] (q_kv (processEntry maxAttempts now True st1)) = None"
  using assms by (cases batchSize)
    (auto simp: Let_def processBegin_def isProcessing_def kv_list_def processEntry_def handleFailure_def dlqKey_def)

end
