(* ===== verification/Gossip.thy ===== *)
theory Gossip
  imports Bloom_Filter Resilience Consensus
begin

text \<open>
  Gossip of the mesh, domain/orchestration/mesh/gossip_manager.ts: duplicate suppression by a Bloom
  filter, a hop limit, batches of sixteen peers, and a retry inside a circuit breaker per peer.
  The digest of the serialised payload is a parameter, as is the outcome of each sending attempt.
  The calls of one batch concern different peers, so they are taken in order.
\<close>

record 'p payload =
  pl_body :: 'p
  pl_hops :: "int option"

record gossip =
  gossipCache :: bloom
  circuitBreakers :: "(string \<times> breaker) list"

text \<open>What reaches the outside: a payload to a node after a delay, with the result of the retries, and
  the warnings that are logged.\<close>

record 'p sending =
  sd_node :: mesh_node
  sd_payload :: "'p payload"
  sd_jitter :: nat
  sd_result :: "unit result"

definition new_gossip :: gossip where
  "new_gossip = \<lparr>gossipCache = new_bloom 10000 4, circuitBreakers = []\<rparr>"

text \<open>The loop over \<open>i += MAX_GOSSIP_CONCURRENCY\<close>.\<close>

function batches :: "'a list \<Rightarrow> 'a list list" where
  "batches nodes = (if nodes = [] then [] else take 16 nodes # batches (drop 16 nodes))"
  by pat_completeness auto
termination
  by (relation "measure length") auto

declare batches.simps [simp del]

definition gossipRetry :: "bool \<Rightarrow> retry_options" where
  "gossipRetry priority = \<lparr>maxAttempts = (if priority then 3 else 1), baseDelayMs = 200, maxDelayMs = None, factor = None\<rparr>"

text \<open>One peer. The action of the breaker is the call of \<open>retry\<close>, whose promise never rejects: the action
  succeeds with the result of the retries as its value.\<close>

definition gossipNode :: "(mesh_node \<Rightarrow> nat \<Rightarrow> unit result) \<Rightarrow> (nat \<Rightarrow> nat) \<Rightarrow> nat \<Rightarrow> bool \<Rightarrow> 'p payload \<Rightarrow> nat \<Rightarrow> mesh_node \<Rightarrow> gossip
    \<Rightarrow> 'p sending list \<times> string list \<times> gossip" where
  "gossipNode send rnd now priority pl index node st =
    (let b = (case map_of (circuitBreakers st) (n_id node) of None \<Rightarrow> new_breaker 3 60000 | Some b \<Rightarrow> b);
         inner = fst (retry (send node) (gossipRetry priority) rnd);
         (res, b', called) = execute b now now (Inr inner);
         st' = st\<lparr>circuitBreakers := AList.update (n_id node) b' (circuitBreakers st)\<rparr>;
         sent = (if called then [\<lparr>sd_node = node, sd_payload = pl, sd_jitter = (if priority then 0 else index * 100), sd_result = inner\<rparr>] else []);
         logged = (case res of Inl e \<Rightarrow> [''Gossip failure to '' @ n_hostname node @ '': '' @ e] | Inr _ \<Rightarrow> [])
     in (sent, logged, st'))"

fun gossipBatch :: "(mesh_node \<Rightarrow> nat \<Rightarrow> unit result) \<Rightarrow> (nat \<Rightarrow> nat) \<Rightarrow> nat \<Rightarrow> bool \<Rightarrow> 'p payload \<Rightarrow> nat \<Rightarrow> mesh_node list \<Rightarrow> gossip
    \<Rightarrow> 'p sending list \<times> string list \<times> gossip" where
  "gossipBatch send rnd now priority pl index [] st = ([], [], st)"
| "gossipBatch send rnd now priority pl index (node # rest) st =
    (let (s1, l1, st1) = gossipNode send rnd now priority pl index node st;
         (s2, l2, st2) = gossipBatch send rnd now priority pl (index + 1) rest st1
     in (s1 @ s2, l1 @ l2, st2))"

fun gossipBatches :: "(mesh_node \<Rightarrow> nat \<Rightarrow> unit result) \<Rightarrow> (nat \<Rightarrow> nat) \<Rightarrow> nat \<Rightarrow> bool \<Rightarrow> 'p payload \<Rightarrow> nat \<Rightarrow> mesh_node list list \<Rightarrow> gossip
    \<Rightarrow> 'p sending list \<times> string list \<times> gossip" where
  "gossipBatches send rnd now priority pl batchIndex [] st = ([], [], st)"
| "gossipBatches send rnd now priority pl batchIndex (batch # rest) st =
    (let (s1, l1, st1) = gossipBatch send rnd now priority pl (batchIndex * 16) batch st;
         (s2, l2, st2) = gossipBatches send rnd now priority pl (batchIndex + 1) rest st1
     in (s1 @ s2, l1 @ l2, st2))"

definition broadcast :: "('p payload \<Rightarrow> string) \<Rightarrow> (mesh_node \<Rightarrow> nat \<Rightarrow> unit result) \<Rightarrow> (nat \<Rightarrow> nat) \<Rightarrow> nat \<Rightarrow> 'p payload \<Rightarrow> mesh_node list
    \<Rightarrow> bool \<Rightarrow> gossip \<Rightarrow> 'p sending list \<times> string list \<times> gossip" where
  "broadcast digest send rnd now pl nodes priority st =
    (let payloadHash = digest pl in
     if has (gossipCache st) payloadHash then ([], [], st)
     else
       (let st1 = st\<lparr>gossipCache := add (gossipCache st) payloadHash\<rparr>;
            hops = (case pl_hops pl of None \<Rightarrow> 0 | Some h \<Rightarrow> h) + 1;
            pl1 = pl\<lparr>pl_hops := Some hops\<rparr>
        in if hops > 5 then ([], [], st1)
           else gossipBatches send rnd now priority pl1 0 (batches (filter n_verified nodes)) st1))"

record 'p broadcast_call =
  bc_payload :: "'p payload"
  bc_nodes :: "mesh_node list"
  bc_priority :: bool
  bc_now :: nat
  bc_send :: "mesh_node \<Rightarrow> nat \<Rightarrow> unit result"
  bc_rnd :: "nat \<Rightarrow> nat"

definition call :: "('p payload \<Rightarrow> string) \<Rightarrow> 'p broadcast_call \<Rightarrow> gossip \<Rightarrow> 'p sending list \<times> string list \<times> gossip" where
  "call digest c st = broadcast digest (bc_send c) (bc_rnd c) (bc_now c) (bc_payload c) (bc_nodes c) (bc_priority c) st"

definition gossip_run :: "('p payload \<Rightarrow> string) \<Rightarrow> 'p broadcast_call list \<Rightarrow> gossip" where
  "gossip_run digest cs = foldl (\<lambda>st c. snd (snd (call digest c st))) new_gossip cs"

section \<open>Invariant: no breaker ever counts a failure\<close>

lemma concat_batches: "concat (batches xs) = xs"
proof (induction xs rule: batches.induct)
  case (1 xs)
  then show ?case by (cases "xs = []") (simp_all add: batches.simps [of xs] batches.simps [of "[]"])
qed

lemma batches_size: "b \<in> set (batches xs) \<Longrightarrow> length b \<le> 16"
proof (induction xs rule: batches.induct)
  case (1 xs)
  then show ?case by (cases "xs = []") (auto simp add: batches.simps [of xs] batches.simps [of "[]"])
qed

definition idle :: "breaker \<Rightarrow> bool" where
  "idle b \<longleftrightarrow> cstate b = CLOSED \<and> failureCount b = 0"

definition gossip_inv :: "gossip \<Rightarrow> bool" where
  "gossip_inv st \<longleftrightarrow> bloom_wf (gossipCache st) \<and> (\<forall>i b. map_of (circuitBreakers st) i = Some b \<longrightarrow> idle b)"

lemma gossipNode_sends:
  assumes "gossip_inv st"
  shows "\<exists>st'. gossipNode send rnd now priority pl index node st =
      ([\<lparr>sd_node = node, sd_payload = pl, sd_jitter = (if priority then 0 else index * 100),
         sd_result = fst (retry (send node) (gossipRetry priority) rnd)\<rparr>], [], st')
    \<and> gossip_inv st' \<and> gossipCache st' = gossipCache st"
proof -
  define b where "b = (case map_of (circuitBreakers st) (n_id node) of None \<Rightarrow> new_breaker 3 60000 | Some b \<Rightarrow> b)"
  have "idle b" using assms by (auto simp: b_def gossip_inv_def idle_def new_breaker_def split: option.split)
  then have "execute b now now (Inr x) = (Inr x, onSuccess b, True)" "idle (onSuccess b)" for x :: "unit result"
    by (auto simp: execute_def admit_def idle_def onSuccess_def)
  then show ?thesis using assms by (auto simp: gossipNode_def Let_def b_def [symmetric] gossip_inv_def)
qed

lemma gossipBatch_sends:
  assumes "gossip_inv st"
  shows "\<exists>sent st'. gossipBatch send rnd now priority pl index nodes st = (sent, [], st') \<and> map sd_node sent = nodes \<and>
    (\<forall>s \<in> set sent. sd_payload s = pl) \<and> gossip_inv st' \<and> gossipCache st' = gossipCache st"
  using assms
proof (induction nodes arbitrary: index st)
  case (Cons node rest)
  obtain st1 where 1: "gossipNode send rnd now priority pl index node st =
      ([\<lparr>sd_node = node, sd_payload = pl, sd_jitter = (if priority then 0 else index * 100),
         sd_result = fst (retry (send node) (gossipRetry priority) rnd)\<rparr>], [], st1)" "gossip_inv st1" "gossipCache st1 = gossipCache st"
    using gossipNode_sends [OF Cons.prems] by blast
  obtain sent st2 where 2: "gossipBatch send rnd now priority pl (index + 1) rest st1 = (sent, [], st2)" "map sd_node sent = rest"
      "\<forall>s \<in> set sent. sd_payload s = pl" "gossip_inv st2" "gossipCache st2 = gossipCache st1"
    using Cons.IH [OF 1(2)] by blast
  show ?case using 1 2 by (auto simp: Let_def)
qed simp

lemma gossipBatches_sends:
  assumes "gossip_inv st"
  shows "\<exists>sent st'. gossipBatches send rnd now priority pl i bs st = (sent, [], st') \<and> map sd_node sent = concat bs \<and>
    (\<forall>s \<in> set sent. sd_payload s = pl) \<and> gossip_inv st' \<and> gossipCache st' = gossipCache st"
  using assms
proof (induction bs arbitrary: i st)
  case (Cons b rest)
  obtain s1 st1 where 1: "gossipBatch send rnd now priority pl (i * 16) b st = (s1, [], st1)" "map sd_node s1 = b"
      "\<forall>s \<in> set s1. sd_payload s = pl" "gossip_inv st1" "gossipCache st1 = gossipCache st"
    using gossipBatch_sends [OF Cons.prems] by blast
  obtain s2 st2 where 2: "gossipBatches send rnd now priority pl (i + 1) rest st1 = (s2, [], st2)" "map sd_node s2 = concat rest"
      "\<forall>s \<in> set s2. sd_payload s = pl" "gossip_inv st2" "gossipCache st2 = gossipCache st1"
    using Cons.IH [OF 1(4)] by blast
  show ?case using 1 2 by (auto simp: Let_def)
qed simp

lemma broadcast_sends:
  assumes "gossip_inv st"
  shows "\<exists>sent st'. broadcast digest send rnd now pl nodes priority st = (sent, [], st') \<and> gossip_inv st' \<and>
    gossipCache st' = (if has (gossipCache st) (digest pl) then gossipCache st else add (gossipCache st) (digest pl)) \<and>
    map sd_node sent = (if has (gossipCache st) (digest pl) \<or> (case pl_hops pl of None \<Rightarrow> 0 | Some h \<Rightarrow> h) \<ge> 5 then [] else filter n_verified nodes) \<and>
    (\<forall>s \<in> set sent. sd_payload s = pl\<lparr>pl_hops := Some ((case pl_hops pl of None \<Rightarrow> 0 | Some h \<Rightarrow> h) + 1)\<rparr>)"
proof (cases "has (gossipCache st) (digest pl)")
  case False
  let ?st = "st\<lparr>gossipCache := add (gossipCache st) (digest pl)\<rparr>"
  let ?pl = "pl\<lparr>pl_hops := Some ((case pl_hops pl of None \<Rightarrow> 0 | Some h \<Rightarrow> h) + 1)\<rparr>"
  have "gossip_inv ?st" using assms by (simp add: gossip_inv_def bloom_set.inv_ins)
  from gossipBatches_sends [OF this, of send rnd now priority ?pl 0 "batches (filter n_verified nodes)"] show ?thesis
    using False \<open>gossip_inv ?st\<close> by (auto simp: broadcast_def Let_def concat_batches)
qed (use assms in \<open>auto simp: broadcast_def\<close>)

lemma gossip_run_inv: "gossip_inv (gossip_run digest cs)"
  unfolding gossip_run_def
proof (rule foldl_invariant [of gossip_inv])
  show "gossip_inv new_gossip" by (simp add: gossip_inv_def new_gossip_def new_bloom_wf)
  show "gossip_inv (snd (snd (call digest c st)))" if "gossip_inv st" for st c
    using broadcast_sends [OF that, of digest "bc_send c" "bc_rnd c" "bc_now c" "bc_payload c" "bc_nodes c" "bc_priority c"]
    by (auto simp: call_def)
qed

lemma gossip_run_seen: "c \<in> set cs \<Longrightarrow> has (gossipCache (gossip_run digest cs)) (digest (bc_payload c))"
proof (induction cs rule: rev_induct)
  case (snoc d cs)
  let ?st = "gossip_run digest cs"
  have cache: "gossipCache (gossip_run digest (cs @ [d])) =
      (if has (gossipCache ?st) (digest (bc_payload d)) then gossipCache ?st else add (gossipCache ?st) (digest (bc_payload d)))"
    using broadcast_sends [OF gossip_run_inv, of digest "bc_send d" "bc_rnd d" "bc_now d" "bc_payload d" "bc_nodes d" "bc_priority d" digest cs]
    by (auto simp: gossip_run_def call_def)
  have wf: "bloom_wf (gossipCache ?st)" using gossip_run_inv by (auto simp: gossip_inv_def)
  show ?case using snoc bloom_set.mem_ins_same [OF wf] bloom_set.mem_ins_mono unfolding cache by auto
qed simp

section \<open>Properties\<close>

text \<open>
  Gossip does not storm. In a state reached by any broadcasts, a broadcast of a payload whose digest was
  broadcast before, or whose hop count has reached five, sends nothing; otherwise it sends to
  verified peers only, at most once each per entry of the peer list, the payload with the hop
  count one higher and at most five.
\<close>

lemma gossip_bounded:
  assumes "broadcast digest send rnd now pl nodes priority (gossip_run digest cs) = (sent, logged, st')"
    and "hops = (case pl_hops pl of None \<Rightarrow> 0 | Some h \<Rightarrow> h)"
  shows "((\<exists>c \<in> set cs. digest (bc_payload c) = digest pl) \<or> hops \<ge> 5 \<longrightarrow> sent = []) \<and>
    (sent \<noteq> [] \<longrightarrow> map sd_node sent = filter n_verified nodes) \<and>
    (\<forall>s \<in> set sent. sd_payload s = pl\<lparr>pl_hops := Some (hops + 1)\<rparr> \<and> hops + 1 \<le> 5)"
proof -
  note sends = broadcast_sends [OF gossip_run_inv, of digest send rnd now pl nodes priority digest cs]
  have seen: "has (gossipCache (gossip_run digest cs)) (digest pl)" if "\<exists>c \<in> set cs. digest (bc_payload c) = digest pl"
    using that gossip_run_seen by (metis)
  show ?thesis using sends seen assms by (auto split: if_splits)
qed

text \<open>
  The circuit breakers of gossip never open. Whatever broadcasts happened and however often sending
  to a peer failed, every breaker is closed with no failure counted, every verified peer is tried
  at the next broadcast that is not suppressed, and no failure is ever logged.
\<close>

lemma gossip_breaker_never_opens:
  "(\<forall>i b. map_of (circuitBreakers (gossip_run digest cs)) i = Some b \<longrightarrow> cstate b = CLOSED \<and> failureCount b = 0) \<and>
   fst (snd (broadcast digest send rnd now pl nodes priority (gossip_run digest cs))) = []"
  using gossip_run_inv [of digest cs] broadcast_sends [OF gossip_run_inv, of digest send rnd now pl nodes priority digest cs]
  by (auto simp: gossip_inv_def idle_def)

text \<open>
  The hop count is part of the payload that is hashed: a copy that arrives over a longer path has
  another digest, unless the digest ignores it.
\<close>

lemma hops_defeat_dedup:
  assumes "inj digest" and "pl_hops pl \<noteq> pl_hops pl'"
  shows "digest pl \<noteq> digest pl'"
  using assms by (auto dest: injD)

end
