(* ===== verification/Policy_Engine.thy ===== *)
theory Policy_Engine
  imports Prelude "HOL-Library.List_Lexorder" "HOL-Library.Char_ord"
begin

text \<open>
  domain/orchestration/policy_engine.ts and policy_dsl.ts: a threat score and a context of facts are
  mapped to a remediation action, by prioritised rules first and by score thresholds otherwise.
  Numbers are any linearly ordered ring without NaN. The engine of regular expressions built from rule text
  is a parameter, \<^const>\<open>None\<close> when the text is not an expression. A comparison that
  would convert an operand to another type is outside the model, and is the error \<open>Conversion\<close>.
\<close>

section \<open>Rules\<close>

datatype 'n fact = FNum 'n | FStr string | FBool bool | FNull | FArr "'n fact list"

datatype operator = Eq | Neq | Gt | Lt | Ge | Le | Contains | Matches

datatype action = LOG | WATCH | SHADOW | BLOCK | ISOLATE | LOCKDOWN

datatype conjunction = AND_RULE | OR_RULE

datatype dsl_error = Conversion | SyntaxError

record 'n condition =
  c_field :: string
  c_operator :: operator
  c_value :: "'n fact"

record 'n rule =
  ru_id :: string
  ru_name :: string
  ru_description :: string
  ru_conditions :: "'n condition list"
  ru_conjunction :: conjunction
  ru_action :: action
  ru_priority :: 'n

text \<open>\<open>===\<close>: arrays are compared by identity, and a fact and a rule never share one.\<close>

fun strictEq :: "'n fact \<Rightarrow> 'n fact \<Rightarrow> bool" where
  "strictEq (FNum a) (FNum b) = (a = b)"
| "strictEq (FStr a) (FStr b) = (a = b)"
| "strictEq (FBool a) (FBool b) = (a = b)"
| "strictEq FNull FNull = True"
| "strictEq _ _ = False"

fun compareFacts :: "('n \<Rightarrow> 'n \<Rightarrow> bool) \<Rightarrow> (nat list \<Rightarrow> nat list \<Rightarrow> bool) \<Rightarrow> 'n fact \<Rightarrow> 'n fact \<Rightarrow> dsl_error + bool" where
  "compareFacts num str (FNum a) (FNum b) = Inr (num a b)"
| "compareFacts num str (FStr a) (FStr b) = Inr (str (char_codes a) (char_codes b))"
| "compareFacts num str _ _ = Inl Conversion"

definition evaluateCondition :: "(string \<Rightarrow> string \<Rightarrow> bool option) \<Rightarrow> 'n::linordered_idom condition \<Rightarrow> (string \<times> 'n fact) list \<Rightarrow> dsl_error + bool" where
  "evaluateCondition regex c facts = (case map_of facts (c_field c) of
     None \<Rightarrow> Inr False
   | Some v \<Rightarrow> (case c_operator c of
       Eq \<Rightarrow> Inr (strictEq v (c_value c))
     | Neq \<Rightarrow> Inr (\<not> strictEq v (c_value c))
     | Gt \<Rightarrow> compareFacts (>) (>) v (c_value c)
     | Lt \<Rightarrow> compareFacts (<) (<) v (c_value c)
     | Ge \<Rightarrow> compareFacts (\<ge>) (\<ge>) v (c_value c)
     | Le \<Rightarrow> compareFacts (\<le>) (\<le>) v (c_value c)
     | Contains \<Rightarrow> (case v of
         FArr xs \<Rightarrow> Inr (list_ex (\<lambda>x. strictEq x (c_value c)) xs)
       | FStr s \<Rightarrow> (case c_value c of FStr t \<Rightarrow> Inr (js_includes s t) | _ \<Rightarrow> Inl Conversion)
       | _ \<Rightarrow> Inr False)
     | Matches \<Rightarrow> (case v of
         FStr s \<Rightarrow> (case c_value c of
           FStr pat \<Rightarrow> (case regex pat s of None \<Rightarrow> Inl SyntaxError | Some b \<Rightarrow> Inr b)
         | _ \<Rightarrow> Inl Conversion)
       | _ \<Rightarrow> Inr False)))"

text \<open>\<open>every\<close> and \<open>some\<close> stop at the first condition that decides.\<close>

fun everyCond :: "('c \<Rightarrow> 'e + bool) \<Rightarrow> 'c list \<Rightarrow> 'e + bool" where
  "everyCond f [] = Inr True"
| "everyCond f (c # cs) = (case f c of Inl e \<Rightarrow> Inl e | Inr False \<Rightarrow> Inr False | Inr True \<Rightarrow> everyCond f cs)"

fun someCond :: "('c \<Rightarrow> 'e + bool) \<Rightarrow> 'c list \<Rightarrow> 'e + bool" where
  "someCond f [] = Inr False"
| "someCond f (c # cs) = (case f c of Inl e \<Rightarrow> Inl e | Inr True \<Rightarrow> Inr True | Inr False \<Rightarrow> someCond f cs)"

definition evaluateRule :: "(string \<Rightarrow> string \<Rightarrow> bool option) \<Rightarrow> 'n::linordered_idom rule \<Rightarrow> (string \<times> 'n fact) list \<Rightarrow> dsl_error + bool" where
  "evaluateRule regex r facts = (case ru_conjunction r of
     AND_RULE \<Rightarrow> everyCond (\<lambda>c. evaluateCondition regex c facts) (ru_conditions r)
   | OR_RULE \<Rightarrow> someCond (\<lambda>c. evaluateCondition regex c facts) (ru_conditions r))"

fun filterRules :: "('r \<Rightarrow> 'e + bool) \<Rightarrow> 'r list \<Rightarrow> 'e + 'r list" where
  "filterRules f [] = Inr []"
| "filterRules f (r # rs) = (case f r of Inl e \<Rightarrow> Inl e | Inr b \<Rightarrow>
     (case filterRules f rs of Inl e \<Rightarrow> Inl e | Inr xs \<Rightarrow> Inr (if b then r # xs else xs)))"

definition dsl_evaluate :: "(string \<Rightarrow> string \<Rightarrow> bool option) \<Rightarrow> 'n::linordered_idom rule list \<Rightarrow> (string \<times> 'n fact) list \<Rightarrow> dsl_error + 'n rule option" where
  "dsl_evaluate regex rules facts = (case filterRules (\<lambda>r. evaluateRule regex r facts) rules of
     Inl e \<Rightarrow> Inl e
   | Inr ms \<Rightarrow> (case sort_key (\<lambda>r. - ru_priority r) ms of [] \<Rightarrow> Inr None | r # _ \<Rightarrow> Inr (Some r)))"

section \<open>The engine\<close>

record 'n threshold_rule =
  t_score :: 'n
  t_action :: action
  t_description :: string

record 'n policy =
  p_version :: string
  p_thresholds :: "'n threshold_rule list"
  p_rules :: "'n rule list"
  p_defaultAction :: action
  p_strictMode :: bool
  p_shadowMode :: bool
  p_publicKey :: "string option"

text \<open>\<open>Partial<SecurityPolicy>\<close>: absent fields keep their value.\<close>

record 'n policy_update =
  u_version :: "string option"
  u_thresholds :: "'n threshold_rule list option"
  u_rules :: "'n rule list option"
  u_defaultAction :: "action option"
  u_strictMode :: "bool option"
  u_shadowMode :: "bool option"
  u_publicKey :: "string option"

definition keepOr :: "'a \<Rightarrow> 'a option \<Rightarrow> 'a" where
  "keepOr old new = (case new of None \<Rightarrow> old | Some v \<Rightarrow> v)"

definition mergePolicy :: "'n::linordered_idom policy \<Rightarrow> 'n policy_update \<Rightarrow> 'n policy" where
  "mergePolicy p u = \<lparr>p_version = keepOr (p_version p) (u_version u),
     p_thresholds = sort_key (\<lambda>t. - t_score t) (keepOr (p_thresholds p) (u_thresholds u)),
     p_rules = keepOr (p_rules p) (u_rules u), p_defaultAction = keepOr (p_defaultAction p) (u_defaultAction u),
     p_strictMode = keepOr (p_strictMode p) (u_strictMode u), p_shadowMode = keepOr (p_shadowMode p) (u_shadowMode u),
     p_publicKey = (case u_publicKey u of None \<Rightarrow> p_publicKey p | Some k \<Rightarrow> Some k)\<rparr>"

definition defaultPolicy :: "string option \<Rightarrow> string option \<Rightarrow> 'n::linordered_idom policy" where
  "defaultPolicy strictEnv shadowEnv = \<lparr>p_version = ''1.2.0'',
     p_thresholds = [\<lparr>t_score = 10, t_action = WATCH, t_description = ''Increase forensic sampling rate''\<rparr>,
       \<lparr>t_score = 30, t_action = SHADOW, t_description = ''Redirect to deceptive mirror world''\<rparr>,
       \<lparr>t_score = 60, t_action = BLOCK, t_description = ''Local firewall IP rejection''\<rparr>,
       \<lparr>t_score = 90, t_action = ISOLATE, t_description = ''Full node network isolation''\<rparr>,
       \<lparr>t_score = 100, t_action = LOCKDOWN, t_description = ''Mesh-wide quorum lockdown''\<rparr>],
     p_rules = [], p_defaultAction = LOG, p_strictMode = (strictEnv = Some ''true''), p_shadowMode = (shadowEnv \<noteq> Some ''false''),
     p_publicKey = None\<rparr>"

definition newEngine :: "string option \<Rightarrow> string option \<Rightarrow> 'n::linordered_idom policy_update \<Rightarrow> 'n policy" where
  "newEngine strictEnv shadowEnv initial = mergePolicy (defaultPolicy strictEnv shadowEnv) initial"

definition setShadowMode :: "bool \<Rightarrow> 'n policy \<Rightarrow> 'n policy" where
  "setShadowMode v p = p\<lparr>p_shadowMode := v\<rparr>"

definition updatePolicy :: "'n::linordered_idom policy_update \<Rightarrow> 'n policy \<Rightarrow> 'n policy" where
  "updatePolicy u p = mergePolicy p u"

fun firstThreshold :: "'n::linordered_idom \<Rightarrow> 'n threshold_rule list \<Rightarrow> 'n threshold_rule option" where
  "firstThreshold score [] = None"
| "firstThreshold score (t # ts) = (if score \<ge> t_score t then Some t else firstThreshold score ts)"

definition dslVerdict :: "'n rule \<Rightarrow> 'n threshold_rule" where
  "dslVerdict r = \<lparr>t_score = ru_priority r, t_action = ru_action r,
     t_description = ''DSL Match: '' @ ru_name r @ '' - '' @ ru_description r\<rparr>"

definition thresholdVerdict :: "'n::linordered_idom \<Rightarrow> 'n policy \<Rightarrow> 'n threshold_rule" where
  "thresholdVerdict score p = (case firstThreshold score (p_thresholds p) of
     Some t \<Rightarrow> t
   | None \<Rightarrow> \<lparr>t_score = 0, t_action = p_defaultAction p, t_description = ''Baseline operational state''\<rparr>)"

definition policy_evaluate :: "(string \<Rightarrow> string \<Rightarrow> bool option) \<Rightarrow> 'n::linordered_idom \<Rightarrow> (string \<times> 'n fact) list option \<Rightarrow> 'n policy
    \<Rightarrow> dsl_error + 'n threshold_rule" where
  "policy_evaluate regex score ctx p = (case ctx of
     Some facts \<Rightarrow>
       (if p_rules p \<noteq> [] then
          (case dsl_evaluate regex (p_rules p) (AList.update ''score'' (FNum score) facts) of
             Inl e \<Rightarrow> Inl e
           | Inr (Some r) \<Rightarrow> Inr (dslVerdict r)
           | Inr None \<Rightarrow> Inr (thresholdVerdict score p))
        else Inr (thresholdVerdict score p))
   | None \<Rightarrow> Inr (thresholdVerdict score p))"

section \<open>Reachable policies\<close>

datatype 'n policy_op = SetShadow bool | Update "'n policy_update"

fun policy_step :: "'n::linordered_idom policy \<Rightarrow> 'n policy_op \<Rightarrow> 'n policy" where
  "policy_step p (SetShadow v) = setShadowMode v p"
| "policy_step p (Update u) = updatePolicy u p"

abbreviation descending :: "'n::linordered_idom threshold_rule list \<Rightarrow> bool" where
  "descending ts \<equiv> sorted (map (\<lambda>t. - t_score t) ts)"

lemma mergePolicy_descending: "descending (p_thresholds (mergePolicy p u))"
  by (simp add: mergePolicy_def)

lemma policy_run_descending: "descending (p_thresholds (foldl policy_step (newEngine a b u) ops))"
proof (rule foldl_invariant [where P = "\<lambda>p. descending (p_thresholds p)"])
  show "descending (p_thresholds (newEngine a b u))" by (simp add: newEngine_def mergePolicy_descending)
  show "descending (p_thresholds (policy_step p x))" if "descending (p_thresholds p)" for p :: "'a policy" and x
    using that by (cases x) (simp_all add: updatePolicy_def mergePolicy_descending setShadowMode_def)
qed

lemma firstThreshold_max:
  "descending ts \<Longrightarrow> firstThreshold score ts = Some t \<Longrightarrow>
    t \<in> set ts \<and> t_score t \<le> score \<and> (\<forall>t' \<in> set ts. t_score t' \<le> score \<longrightarrow> t_score t' \<le> t_score t)"
  by (induction ts) (auto split: if_splits)

lemma firstThreshold_None: "firstThreshold score ts = None \<longleftrightarrow> (\<forall>t \<in> set ts. score < t_score t)"
  by (induction ts) (auto simp: not_le)

lemma filterRules_Inr: "filterRules f rs = Inr ms \<Longrightarrow> ms = filter (\<lambda>r. f r = Inr True) rs \<and> (\<forall>r \<in> set rs. \<exists>b. f r = Inr b)"
  by (induction rs arbitrary: ms) (auto split: sum.splits if_splits)

lemma dsl_evaluate_max:
  assumes "dsl_evaluate regex rules facts = Inr (Some r)"
  shows "r \<in> set rules \<and> evaluateRule regex r facts = Inr True \<and>
    (\<forall>r' \<in> set rules. evaluateRule regex r' facts = Inr True \<longrightarrow> ru_priority r' \<le> ru_priority r)"
proof -
  obtain ms rest where ms: "filterRules (\<lambda>r. evaluateRule regex r facts) rules = Inr ms" and s: "sort_key (\<lambda>r. - ru_priority r) ms = r # rest"
    using assms by (auto simp: dsl_evaluate_def split: sum.splits list.splits)
  have set_eq: "set ms = set (r # rest)" using arg_cong [OF s, of set] by simp
  have "sorted (map (\<lambda>r. - ru_priority r) (r # rest))" using sorted_sort_key [of "\<lambda>r. - ru_priority r" ms] s by simp
  then have "\<forall>r' \<in> set ms. ru_priority r' \<le> ru_priority r" using set_eq by auto
  then show ?thesis using filterRules_Inr [OF ms] set_eq by auto
qed

lemma dsl_evaluate_None:
  assumes "dsl_evaluate regex rules facts = Inr None" and "r \<in> set rules"
  shows "evaluateRule regex r facts = Inr False"
proof -
  obtain ms where ms: "filterRules (\<lambda>r. evaluateRule regex r facts) rules = Inr ms" and s: "sort_key (\<lambda>r. - ru_priority r) ms = []"
    using assms(1) by (auto simp: dsl_evaluate_def split: sum.splits list.splits)
  have "ms = []" using arg_cong [OF s, of length] by simp
  then show ?thesis using filterRules_Inr [OF ms] assms(2) by (auto simp: filter_empty_conv) (metis)
qed

text \<open>The decision as a relation: the matching rule of greatest priority, else the greatest threshold the
  score has reached, else the default.\<close>

definition decides :: "(string \<Rightarrow> string \<Rightarrow> bool option) \<Rightarrow> 'n::linordered_idom \<Rightarrow> (string \<times> 'n fact) list option \<Rightarrow> 'n policy \<Rightarrow> 'n threshold_rule \<Rightarrow> bool" where
  "decides regex score ctx p v \<longleftrightarrow>
    (let matching = (case ctx of None \<Rightarrow> {} | Some facts \<Rightarrow>
        {r \<in> set (p_rules p). evaluateRule regex r (AList.update ''score'' (FNum score) facts) = Inr True}) in
     if matching \<noteq> {} then \<exists>r \<in> matching. v = dslVerdict r \<and> (\<forall>r' \<in> matching. ru_priority r' \<le> ru_priority r)
     else if \<exists>t \<in> set (p_thresholds p). t_score t \<le> score
       then v \<in> set (p_thresholds p) \<and> t_score v \<le> score \<and> (\<forall>t \<in> set (p_thresholds p). t_score t \<le> score \<longrightarrow> t_score t \<le> t_score v)
     else v = \<lparr>t_score = 0, t_action = p_defaultAction p, t_description = ''Baseline operational state''\<rparr>)"

lemma thresholdVerdict_decides:
  assumes "descending (p_thresholds p)"
  shows "if \<exists>t \<in> set (p_thresholds p). t_score t \<le> score
       then thresholdVerdict score p \<in> set (p_thresholds p) \<and> t_score (thresholdVerdict score p) \<le> score \<and>
         (\<forall>t \<in> set (p_thresholds p). t_score t \<le> score \<longrightarrow> t_score t \<le> t_score (thresholdVerdict score p))
     else thresholdVerdict score p = \<lparr>t_score = 0, t_action = p_defaultAction p, t_description = ''Baseline operational state''\<rparr>"
proof (cases "firstThreshold score (p_thresholds p)")
  case None
  moreover have "\<not> (\<exists>t \<in> set (p_thresholds p). t_score t \<le> score)"
    using None by (auto simp: firstThreshold_None not_le [symmetric])
  ultimately show ?thesis by (simp add: thresholdVerdict_def)
next
  case (Some t)
  then show ?thesis using firstThreshold_max [OF assms Some] by (auto simp: thresholdVerdict_def)
qed

text \<open>
  C29: the engine decides by priority, then by the highest threshold. After any sequence of policy updates and
  changes of the shadow mode, an evaluation that does not fail returns the action of a
  matching rule of greatest priority when one matches, otherwise the threshold rule with the greatest
  score that the threat score has reached, otherwise the default action.
\<close>

theorem policy_decides:
  assumes "p = foldl policy_step (newEngine strictEnv shadowEnv u) ops"
    and "policy_evaluate regex score ctx p = Inr v"
  shows "decides regex score ctx p v"
proof -
  have "descending (p_thresholds p)" unfolding assms(1) by (rule policy_run_descending)
  note th = thresholdVerdict_decides [OF this, of score]
  show ?thesis
  proof (cases "\<exists>facts. ctx = Some facts \<and> p_rules p \<noteq> []")
    case False
    then have "v = thresholdVerdict score p" using assms(2) by (auto simp: policy_evaluate_def split: option.splits)
    then show ?thesis using False th by (auto simp: decides_def Let_def split: option.splits)
  next
    case True
    then obtain facts where f: "ctx = Some facts" "p_rules p \<noteq> []" by blast
    let ?facts = "AList.update ''score'' (FNum score) facts"
    consider r where "dsl_evaluate regex (p_rules p) ?facts = Inr (Some r)" "v = dslVerdict r"
      | "dsl_evaluate regex (p_rules p) ?facts = Inr None" "v = thresholdVerdict score p"
      using assms(2) f by (auto simp: policy_evaluate_def split: sum.splits option.splits)
    then show ?thesis
    proof cases
      case (1 r)
      then show ?thesis using dsl_evaluate_max [OF 1(1)] f by (auto simp: decides_def)
    next
      case 2
      then have "{r \<in> set (p_rules p). evaluateRule regex r ?facts = Inr True} = {}" using dsl_evaluate_None [OF 2(1)] by auto
      then show ?thesis using 2(2) th f by (simp add: decides_def)
    qed
  qed
qed

definition noUpdate :: "'n policy_update" where
  "noUpdate = \<lparr>u_version = None, u_thresholds = None, u_rules = None, u_defaultAction = None, u_strictMode = None, u_shadowMode = None, u_publicKey = None\<rparr>"

lemma default_evaluate: "policy_evaluate (\<lambda>_ _. None) 75 None (newEngine None None noUpdate :: int policy)
    = Inr \<lparr>t_score = 60, t_action = BLOCK, t_description = ''Local firewall IP rejection''\<rparr>"
  by (simp add: policy_evaluate_def newEngine_def mergePolicy_def defaultPolicy_def noUpdate_def keepOr_def thresholdVerdict_def)

theorem policy_decides_witness:
  "decides (\<lambda>_ _. None) 75 None (newEngine None None noUpdate :: int policy)
     \<lparr>t_score = 60, t_action = BLOCK, t_description = ''Local firewall IP rejection''\<rparr>"
  by (rule policy_decides [where ops = "[]", OF _ default_evaluate]) simp

end
