(* ===== verification/Regex.thy ===== *)
theory Regex
  imports Prelude
begin

text \<open>
  The fragment of JavaScript regular expressions the sources use, over the bytes of a string: literals,
  character classes, alternatives, sequences and repetition, matched as a whole (\<open>^...$\<close>) or
  anywhere in the text. The semantics is a set of strings; the matcher computes derivatives and is
  proved to decide it. A negated class and the dot are only used under a repetition,
  where matching the bytes of a character one by one makes no difference.
\<close>

datatype rx = RNone | REmpty | RCls bool "(char \<times> char) list" | RSeq rx rx | RAlt rx rx | RStar rx

section \<open>Semantics\<close>

definition in_cls :: "bool \<Rightarrow> (char \<times> char) list \<Rightarrow> char \<Rightarrow> bool" where
  "in_cls negated rs c = (negated \<noteq> list_ex (\<lambda>(a, b). byte a \<le> byte c \<and> byte c \<le> byte b) rs)"

definition star :: "'a list set \<Rightarrow> 'a list set" where
  "star A = {concat ws | ws. set ws \<subseteq> A}"

primrec lang :: "rx \<Rightarrow> string set" where
  "lang RNone = {}"
| "lang REmpty = {[]}"
| "lang (RCls n rs) = {[c] | c. in_cls n rs c}"
| "lang (RSeq r s) = {u @ v | u v. u \<in> lang r \<and> v \<in> lang s}"
| "lang (RAlt r s) = lang r \<union> lang s"
| "lang (RStar r) = star (lang r)"

section \<open>The matcher\<close>

primrec nullable :: "rx \<Rightarrow> bool" where
  "nullable RNone = False"
| "nullable REmpty = True"
| "nullable (RCls n rs) = False"
| "nullable (RSeq r s) = (nullable r \<and> nullable s)"
| "nullable (RAlt r s) = (nullable r \<or> nullable s)"
| "nullable (RStar r) = True"

definition mkSeq :: "rx \<Rightarrow> rx \<Rightarrow> rx" where
  "mkSeq r s = (if r = RNone \<or> s = RNone then RNone else if r = REmpty then s else RSeq r s)"

definition mkAlt :: "rx \<Rightarrow> rx \<Rightarrow> rx" where
  "mkAlt r s = (if r = RNone then s else if s = RNone then r else if r = s then r else RAlt r s)"

primrec deriv :: "char \<Rightarrow> rx \<Rightarrow> rx" where
  "deriv c RNone = RNone"
| "deriv c REmpty = RNone"
| "deriv c (RCls n rs) = (if in_cls n rs c then REmpty else RNone)"
| "deriv c (RSeq r s) = (if nullable r then mkAlt (mkSeq (deriv c r) s) (deriv c s) else mkSeq (deriv c r) s)"
| "deriv c (RAlt r s) = mkAlt (deriv c r) (deriv c s)"
| "deriv c (RStar r) = mkSeq (deriv c r) (RStar r)"

fun fullmatch :: "rx \<Rightarrow> string \<Rightarrow> bool" where
  "fullmatch r [] = nullable r"
| "fullmatch r (c # s) = fullmatch (deriv c r) s"

text \<open>\<open>/r/.test(s)\<close> without anchors.\<close>

definition anyText :: rx where
  "anyText = RStar (RCls True [])"

definition searchmatch :: "rx \<Rightarrow> string \<Rightarrow> bool" where
  "searchmatch r s = fullmatch (RSeq anyText (RSeq r anyText)) s"

section \<open>Correctness of the matcher\<close>

lemma star_Nil [simp]: "[] \<in> star A"
  unfolding star_def by (intro CollectI exI [of _ "[]"]) simp

lemma star_append: "u \<in> A \<Longrightarrow> v \<in> star A \<Longrightarrow> u @ v \<in> star A"
  by (force simp: star_def intro: exI [of _ "u # _"])

lemma star_ConsD: "c # s \<in> star A \<Longrightarrow> \<exists>u v. c # u \<in> A \<and> v \<in> star A \<and> s = u @ v"
proof -
  have "\<exists>u v. c # u \<in> A \<and> v \<in> star A \<and> s = u @ v" if "c # s = concat ws" "set ws \<subseteq> A" for ws
    using that
  proof (induction ws)
    case (Cons w ws)
    then show ?case by (cases w) (auto simp: star_def)
  qed simp
  then show "c # s \<in> star A \<Longrightarrow> ?thesis" by (auto simp: star_def)
qed

lemma star_Cons: "c # s \<in> star A \<longleftrightarrow> (\<exists>u v. c # u \<in> A \<and> v \<in> star A \<and> s = u @ v)"
  using star_ConsD star_append by (metis append_Cons)

lemma nullable_lang: "nullable r \<longleftrightarrow> [] \<in> lang r"
  by (induction r) auto

lemma lang_mkSeq [simp]: "lang (mkSeq r s) = lang (RSeq r s)"
  by (auto simp: mkSeq_def)

lemma lang_mkAlt [simp]: "lang (mkAlt r s) = lang (RAlt r s)"
  by (auto simp: mkAlt_def)

lemma lang_deriv: "s \<in> lang (deriv c r) \<longleftrightarrow> c # s \<in> lang r"
proof (induction r arbitrary: s)
  case (RSeq r1 r2)
  then show ?case by (auto simp: nullable_lang Cons_eq_append_conv)
next
  case (RStar r)
  then show ?case by (auto simp: star_Cons)
qed auto

theorem fullmatch_lang: "fullmatch r s \<longleftrightarrow> s \<in> lang r"
  by (induction s arbitrary: r) (simp_all add: nullable_lang lang_deriv)

lemma lang_anyText: "lang anyText = UNIV"
proof -
  have "s \<in> star {[c] | c. True}" for s :: string
    by (induction s) (auto simp: star_Cons)
  then show ?thesis by (auto simp: anyText_def in_cls_def)
qed

theorem searchmatch_lang: "searchmatch r s \<longleftrightarrow> (\<exists>u v w. s = u @ v @ w \<and> v \<in> lang r)"
  by (simp add: searchmatch_def fullmatch_lang lang_anyText) blast

section \<open>Derived forms\<close>

definition chr :: "char \<Rightarrow> rx" where
  "chr c = RCls False [(c, c)]"

primrec lit :: "string \<Rightarrow> rx" where
  "lit [] = REmpty"
| "lit (c # s) = (if s = [] then chr c else RSeq (chr c) (lit s))"

definition plus :: "rx \<Rightarrow> rx" where
  "plus r = RSeq r (RStar r)"

definition opt :: "rx \<Rightarrow> rx" where
  "opt r = RAlt REmpty r"

text \<open>\<open>r{m,m+k}\<close>.\<close>

fun upTo :: "nat \<Rightarrow> rx \<Rightarrow> rx" where
  "upTo 0 r = REmpty"
| "upTo (Suc k) r = RAlt REmpty (RSeq r (upTo k r))"

fun rep :: "nat \<Rightarrow> nat \<Rightarrow> rx \<Rightarrow> rx" where
  "rep 0 k r = upTo k r"
| "rep (Suc m) k r = RSeq r (rep m k r)"

primrec alts :: "rx list \<Rightarrow> rx" where
  "alts [] = RNone"
| "alts (r # rs) = RAlt r (alts rs)"

primrec seqs :: "rx list \<Rightarrow> rx" where
  "seqs [] = REmpty"
| "seqs (r # rs) = RSeq r (seqs rs)"

definition words :: "string list \<Rightarrow> rx" where
  "words ws = alts (map lit ws)"

definition cls :: "(char \<times> char) list \<Rightarrow> string \<Rightarrow> rx" where
  "cls rs cs = RCls False (rs @ map (\<lambda>c. (c, c)) cs)"

definition notIn :: "string \<Rightarrow> rx" where
  "notIn cs = RCls True (map (\<lambda>c. (c, c)) cs)"

text \<open>The dot excludes line feed, carriage return and the separators U+2028 and U+2029, in UTF-8
  \<open>E2 80 A8\<close> and \<open>E2 80 A9\<close>.\<close>

definition dot :: rx where
  "dot = alts [notIn [CHR 0x0A, CHR 0x0D, CHR 0xE2], RSeq (chr (CHR 0xE2)) (notIn [CHR 0x80]),
     seqs [chr (CHR 0xE2), chr (CHR 0x80), notIn [CHR 0xA8, CHR 0xA9]]]"

text \<open>The flag \<open>i\<close>: every range also contains the other case of its letters.\<close>

definition shiftRange :: "nat \<Rightarrow> nat \<Rightarrow> (nat \<Rightarrow> nat) \<Rightarrow> char \<times> char \<Rightarrow> (char \<times> char) list" where
  "shiftRange lo hi f r = (let l = max (byte (fst r)) lo; h = min (byte (snd r)) hi in if l \<le> h then [(char_of (f l), char_of (f h))] else [])"

primrec ignoreCase :: "rx \<Rightarrow> rx" where
  "ignoreCase RNone = RNone"
| "ignoreCase REmpty = REmpty"
| "ignoreCase (RCls n rs) = RCls n (concat (map (\<lambda>r. r # shiftRange 97 122 (\<lambda>b. b - 32) r @ shiftRange 65 90 (\<lambda>b. b + 32) r) rs))"
| "ignoreCase (RSeq r s) = RSeq (ignoreCase r) (ignoreCase s)"
| "ignoreCase (RAlt r s) = RAlt (ignoreCase r) (ignoreCase s)"
| "ignoreCase (RStar r) = RStar (ignoreCase r)"

abbreviation digits :: "(char \<times> char) list" where
  "digits \<equiv> [(CHR ''0'', CHR ''9'')]"

abbreviation lower :: "(char \<times> char) list" where
  "lower \<equiv> [(CHR ''a'', CHR ''z'')]"

abbreviation upper :: "(char \<times> char) list" where
  "upper \<equiv> [(CHR ''A'', CHR ''Z'')]"

lemma lang_chr [simp]: "lang (chr c) = {[c]}"
  by (auto simp: chr_def in_cls_def)

lemma lang_lit [simp]: "lang (lit s) = {s}"
  by (induction s) auto

lemma lang_opt [simp]: "lang (opt r) = insert [] (lang r)"
  by (auto simp: opt_def)

lemma lang_alts [simp]: "lang (alts rs) = (\<Union>r \<in> set rs. lang r)"
  by (induction rs) auto

lemma lang_words [simp]: "lang (words ws) = set ws"
  by (auto simp: words_def)

lemma in_cls_single: "in_cls False (rs @ map (\<lambda>c. (c, c)) cs) c \<longleftrightarrow> in_cls False rs c \<or> c \<in> set cs"
  by (induction rs) (auto simp: in_cls_def list_ex_iff)

section \<open>Which characters can occur\<close>

primrec chars :: "rx \<Rightarrow> char \<Rightarrow> bool" where
  "chars RNone c = False"
| "chars REmpty c = False"
| "chars (RCls n rs) c = in_cls n rs c"
| "chars (RSeq r s) c = (chars r c \<or> chars s c)"
| "chars (RAlt r s) c = (chars r c \<or> chars s c)"
| "chars (RStar r) c = chars r c"

lemma lang_chars: "s \<in> lang r \<Longrightarrow> c \<in> set s \<Longrightarrow> chars r c"
proof (induction r arbitrary: s)
  case (RSeq r1 r2)
  then obtain u v where "s = u @ v" "u \<in> lang r1" "v \<in> lang r2" by auto
  then show ?case using RSeq by auto
next
  case (RStar r)
  then obtain ws where "s = concat ws" "set ws \<subseteq> lang r" by (auto simp: star_def)
  then show ?case using RStar by auto
qed auto

lemma fullmatch_chars: "fullmatch r s \<Longrightarrow> c \<in> set s \<Longrightarrow> chars r c"
  using lang_chars by (simp add: fullmatch_lang)

lemma chars_plus [simp]: "chars (plus r) c = chars r c"
  by (simp add: plus_def)

lemma chars_opt [simp]: "chars (opt r) c = chars r c"
  by (simp add: opt_def)

lemma chars_chr [simp]: "chars (chr d) c = (c = d)"
  by (auto simp: chr_def in_cls_def)

lemma chars_lit [simp]: "chars (lit s) c = (c \<in> set s)"
  by (induction s) auto

lemma chars_alts [simp]: "chars (alts rs) c = list_ex (\<lambda>r. chars r c) rs"
  by (induction rs) auto

lemma chars_seqs [simp]: "chars (seqs rs) c = list_ex (\<lambda>r. chars r c) rs"
  by (induction rs) auto

lemma chars_words [simp]: "chars (words ws) c = list_ex (\<lambda>w. c \<in> set w) ws"
  by (induction ws) (auto simp: words_def)

lemma chars_upTo [simp]: "chars (upTo k r) c \<longleftrightarrow> 0 < k \<and> chars r c"
  by (induction k) auto

lemma chars_rep [simp]: "chars (rep m k r) c \<longleftrightarrow> 0 < m + k \<and> chars r c"
  by (induction m) auto

lemma chars_cls [simp]: "chars (cls rs cs) c = (in_cls False rs c \<or> c \<in> set cs)"
  by (simp add: cls_def in_cls_single)

lemma lang_star_cls: "s \<in> lang (RStar (RCls n rs)) \<longleftrightarrow> list_all (in_cls n rs) s"
  by (induction s) (auto simp: star_Cons)

lemma lang_plus_cls: "s \<in> lang (plus (RCls n rs)) \<longleftrightarrow> s \<noteq> [] \<and> list_all (in_cls n rs) s"
proof -
  have "s \<in> lang (plus (RCls n rs)) \<longleftrightarrow> (\<exists>u v. s = u @ v \<and> u \<in> lang (RCls n rs) \<and> v \<in> lang (RStar (RCls n rs)))"
    unfolding plus_def lang.simps(4) by blast
  also have "\<dots> \<longleftrightarrow> (\<exists>c v. s = c # v \<and> in_cls n rs c \<and> list_all (in_cls n rs) v)"
  proof
    assume "\<exists>c v. s = c # v \<and> in_cls n rs c \<and> list_all (in_cls n rs) v"
    then obtain c v where "s = [c] @ v" "[c] \<in> lang (RCls n rs)" "v \<in> lang (RStar (RCls n rs))" by (auto simp: lang_star_cls simp del: lang.simps(6))
    then show "\<exists>u v. s = u @ v \<and> u \<in> lang (RCls n rs) \<and> v \<in> lang (RStar (RCls n rs))" by blast
  next
    assume "\<exists>u v. s = u @ v \<and> u \<in> lang (RCls n rs) \<and> v \<in> lang (RStar (RCls n rs))"
    then show "\<exists>c v. s = c # v \<and> in_cls n rs c \<and> list_all (in_cls n rs) v" by (auto simp: lang_star_cls simp del: lang.simps(6))
  qed
  also have "\<dots> \<longleftrightarrow> s \<noteq> [] \<and> list_all (in_cls n rs) s" by (cases s) auto
  finally show ?thesis .
qed

lemma in_cls_not: "in_cls True (map (\<lambda>c. (c, c)) cs) c \<longleftrightarrow> c \<notin> set cs"
  using in_cls_single [of "[]" cs c] by (simp add: in_cls_def)

lemma lang_notIn: "lang (notIn cs) = {[c] | c. c \<notin> set cs}"
  by (simp add: notIn_def in_cls_not)

lemma lang_seqs_Cons: "s \<in> lang (seqs (r # rs)) \<longleftrightarrow> (\<exists>u v. s = u @ v \<and> u \<in> lang r \<and> v \<in> lang (seqs rs))"
  by simp

lemma lang_seqs_Nil: "s \<in> lang (seqs []) \<longleftrightarrow> s = []"
  by simp

lemmas lang_seqs = lang_seqs_Cons lang_seqs_Nil lang_lit singleton_iff

end
