(* ===== verification/Net_Validation.thy ===== *)
theory Net_Validation
  imports Regex Bloom_Filter
begin

unbundle bit_operations_syntax

text \<open>
  Addresses and webhook URLs, infrastructure/system/validation.ts. Parsing of URLs and DNS
  resolution are parameters. Lower-casing is modelled on ASCII letters; no other character lower-cases to
  one that an address can contain.
\<close>

section \<open>IP\_REGEX\<close>

definition hexChars :: "(char \<times> char) list" where
  "hexChars = [(CHR ''0'', CHR ''9''), (CHR ''a'', CHR ''f''), (CHR ''A'', CHR ''F'')]"

definition h16 :: rx where
  "h16 = rep 1 3 (RCls False hexChars)"

definition v4octet :: rx where
  "v4octet = alts [RSeq (lit ''25'') (cls [(CHR ''0'', CHR ''5'')] ''''), seqs [lit ''2'', cls [(CHR ''0'', CHR ''4'')] '''', cls digits ''''],
     seqs [opt (cls [] ''01''), cls digits '''', opt (cls digits '''')]]"

definition v4dec :: rx where
  "v4dec = RAlt (RSeq (lit ''25'') (cls [(CHR ''0'', CHR ''5'')] ''''))
     (RSeq (opt (RAlt (RSeq (lit ''2'') (cls [(CHR ''0'', CHR ''4'')] '''')) (RSeq (opt (lit ''1'')) (cls digits '''')))) (cls digits ''''))"

definition dottedOf :: "rx \<Rightarrow> rx" where
  "dottedOf octet = RSeq (rep 3 0 (RSeq octet (lit ''.''))) octet"

definition IP_REGEX :: rx where
  "IP_REGEX = (let hc = RSeq h16 (lit '':''); ch = RSeq (lit '':'') h16 in
     RAlt (dottedOf v4octet) (alts
      [RSeq (rep 7 0 hc) h16, RSeq (rep 1 6 hc) (lit '':''), seqs [rep 1 5 hc, lit '':'', h16],
       RSeq (rep 1 4 hc) (rep 1 1 ch), RSeq (rep 1 3 hc) (rep 1 2 ch), RSeq (rep 1 2 hc) (rep 1 3 ch),
       RSeq (rep 1 1 hc) (rep 1 4 ch), seqs [h16, lit '':'', rep 1 5 ch],
       RSeq (lit '':'') (RAlt (rep 1 6 ch) (lit '':'')),
       seqs [lit ''fe80:'', upTo 4 (RSeq (lit '':'') (upTo 4 (RCls False hexChars))), lit ''%'', plus (cls (digits @ lower @ upper) '''')],
       seqs [lit ''::'', opt (seqs [lit ''ffff'', opt (RSeq (lit '':'') (rep 1 3 (lit ''0''))), lit '':'']), dottedOf v4dec],
       seqs [rep 1 3 hc, lit '':'', dottedOf v4dec]]))"

definition isValidIP :: "string \<Rightarrow> bool" where
  "isValidIP ip = fullmatch IP_REGEX ip"

section \<open>Critical infrastructure\<close>

definition CRITICAL_IPS :: "string list" where
  "CRITICAL_IPS = [''1.1.1.1'', ''8.8.8.8'', ''8.8.4.4'', ''127.0.0.1'', ''::1'']"

definition infrastructureCache :: bloom where
  "infrastructureCache = foldl add (new_bloom 1024 3) CRITICAL_IPS"

definition isCriticalInfrastructure :: "string option \<Rightarrow> string \<Rightarrow> bool" where
  "isCriticalInfrastructure gateway ip =
    (if \<not> has infrastructureCache ip then (case gateway of None \<Rightarrow> False | Some g \<Rightarrow> g \<noteq> [] \<and> ip = g)
     else ip \<in> set (filter (\<lambda>i. i \<noteq> []) (CRITICAL_IPS @ [case gateway of None \<Rightarrow> [] | Some g \<Rightarrow> g])))"

section \<open>Private addresses\<close>

definition lowerCase :: "string \<Rightarrow> string" where
  "lowerCase s = map (\<lambda>c. if 65 \<le> byte c \<and> byte c \<le> 90 then char_of (byte c + 32) else c) s"

definition unbracket :: "string \<Rightarrow> string" where
  "unbracket ip = (if starts_with ip ''['' \<and> ends_with ip '']'' then butlast (tl ip) else ip)"

definition is_digit :: "char \<Rightarrow> bool" where
  "is_digit c \<longleftrightarrow> 48 \<le> byte c \<and> byte c \<le> 57"

definition all_digits :: "string \<Rightarrow> bool" where
  "all_digits s \<longleftrightarrow> s \<noteq> [] \<and> list_all is_digit s"

definition Number :: "string \<Rightarrow> nat" where
  "Number s = foldl (\<lambda>v c. v * 10 + (byte c - 48)) 0 s"

text \<open>\<open>host.match(/^(\d+)\.(\d+)\.(\d+)\.(\d+)$/)\<close>, the groups as numbers.\<close>

definition ipv4Match :: "string \<Rightarrow> nat list option" where
  "ipv4Match host = (let parts = split_char (CHR ''.'') host in
     if length parts = 4 \<and> list_all all_digits parts then Some (map Number parts) else None)"

definition privateOctets :: "nat \<Rightarrow> nat \<Rightarrow> bool" where
  "privateOctets a b \<longleftrightarrow> a = 127 \<or> a = 10 \<or> (a = 172 \<and> b \<ge> 16 \<and> b \<le> 31) \<or> (a = 192 \<and> b = 168)
     \<or> (a = 100 \<and> b \<ge> 64 \<and> b \<le> 127) \<or> (a = 198 \<and> (b = 18 \<or> b = 19)) \<or> a = 0"

text \<open>\<open>isPrivateIp\<close> up to its call of \<open>isPrivateIpv6\<close>.\<close>

definition privateIpWith :: "(string \<Rightarrow> bool) \<Rightarrow> string \<Rightarrow> bool" where
  "privateIpWith v6 ip = (let host = unbracket ip in
     if host = ''localhost'' \<or> host = ''127.0.0.1'' \<or> host = ''0.0.0.0'' then True
     else if starts_with host ''169.254.'' then True
     else case ipv4Match host of
       Some os \<Rightarrow> privateOctets (os ! 0) (os ! 1)
     | None \<Rightarrow> (if CHR '':'' \<notin> set host then False else v6 (lowerCase host)))"

subsection \<open>Expansion of IPv6 text\<close>

fun hexChar :: "nat \<Rightarrow> char" where
  "hexChar n = (if n < 10 then char_of (48 + n) else char_of (87 + n))"

fun nat_hex :: "nat \<Rightarrow> string" where
  "nat_hex n = (if n < 16 then [hexChar n] else nat_hex (n div 16) @ [hexChar (n mod 16)])"

declare nat_hex.simps [simp del]

definition is_hex :: "char \<Rightarrow> bool" where
  "is_hex c \<longleftrightarrow> is_digit c \<or> (97 \<le> byte c \<and> byte c \<le> 102)"

definition parseHex :: "char \<Rightarrow> nat" where
  "parseHex c = (if is_digit c then byte c - 48 else byte c - 87)"

text \<open>\<open>/^[0-9a-f]{1,4}$/\<close> and \<open>parseInt(g, 16)\<close>.\<close>

definition hexGroup :: "string \<Rightarrow> nat option" where
  "hexGroup g = (if 1 \<le> length g \<and> length g \<le> 4 \<and> list_all is_hex g then Some (foldl (\<lambda>v c. v * 16 + parseHex c) 0 g) else None)"

fun parseAll :: "string list \<Rightarrow> nat list option" where
  "parseAll [] = Some []"
| "parseAll (g # gs) = (case hexGroup g of None \<Rightarrow> None | Some n \<Rightarrow> (case parseAll gs of None \<Rightarrow> None | Some ns \<Rightarrow> Some (n # ns)))"

definition parsePart :: "string \<Rightarrow> nat list option" where
  "parsePart part = (if part = [] then Some [] else parseAll (split_char (CHR '':'') part))"

text \<open>\<open>text.split("::")\<close>.\<close>

fun splitDouble :: "string \<Rightarrow> string list" where
  "splitDouble [] = [[]]"
| "splitDouble [c] = [[c]]"
| "splitDouble (c # d # r) = (if c = CHR '':'' \<and> d = CHR '':'' then [] # splitDouble r
     else (case splitDouble (d # r) of [] \<Rightarrow> [[c]] | p # ps \<Rightarrow> (c # p) # ps))"

text \<open>\<open>text.match(/(\d+)\.(\d+)\.(\d+)\.(\d+)$/)\<close>: the text before the match and the four groups. The
  first group takes all digits before its dot.\<close>

definition digitSuffix :: "string \<Rightarrow> string" where
  "digitSuffix s = rev (takeWhile is_digit (rev s))"

definition trailingQuad :: "string \<Rightarrow> (string \<times> nat list) option" where
  "trailingQuad txt = (case rev (split_char (CHR ''.'') txt) of
     d # c # b # a # before \<Rightarrow>
       (let a' = digitSuffix a; gs = [a', b, c, d] in
        if list_all all_digits gs then Some (take (length txt - length (join_with ''.'' gs)) txt, map Number gs) else None)
   | _ \<Rightarrow> None)"

definition expandQuad :: "string \<Rightarrow> string option" where
  "expandQuad txt = (case trailingQuad txt of
     None \<Rightarrow> Some txt
   | Some (before, octets) \<Rightarrow>
      (if list_ex (\<lambda>n. n > 255) octets then None
       else Some (before @ nat_hex (octets ! 0 * 256 + octets ! 1) @ '':'' @ nat_hex (octets ! 2 * 256 + octets ! 3))))"

definition expandIpv6 :: "string \<Rightarrow> nat list option" where
  "expandIpv6 addr = (case expandQuad (takeWhile (\<lambda>c. c \<noteq> CHR ''%'') addr) of
     None \<Rightarrow> None
   | Some txt \<Rightarrow>
      (case splitDouble txt of
         [h] \<Rightarrow> (case parsePart h of None \<Rightarrow> None | Some head \<Rightarrow> (if length head = 8 then Some head else None))
       | [h, t] \<Rightarrow> (case parsePart h of None \<Rightarrow> None | Some head \<Rightarrow>
           (case parsePart t of None \<Rightarrow> None | Some tail \<Rightarrow>
              (if 8 < length head + length tail then None
               else Some (head @ replicate (8 - length head - length tail) 0 @ tail))))
       | _ \<Rightarrow> None))"

definition quad :: "nat \<Rightarrow> nat \<Rightarrow> nat \<Rightarrow> nat \<Rightarrow> string" where
  "quad a b c d = join_with ''.'' [nat_decimal a, nat_decimal b, nat_decimal c, nat_decimal d]"

text \<open>The recursive call is on a dotted quad, which has no colon, so it ends there.\<close>

definition isPrivateIpv6 :: "string \<Rightarrow> bool" where
  "isPrivateIpv6 addr = (case expandIpv6 addr of
     None \<Rightarrow> addr = ''::'' \<or> addr = ''::1'' \<or> starts_with addr ''fc'' \<or> starts_with addr ''fd''
       \<or> list_ex (\<lambda>p. starts_with addr p) [''fe8'', ''fe9'', ''fea'', ''feb'']
   | Some gs \<Rightarrow>
      (if list_all (\<lambda>g. g = 0) gs then True
       else if list_all (\<lambda>g. g = 0) (take 7 gs) \<and> gs ! 7 = 1 then True
       else if gs ! 0 AND 0xfe00 = 0xfc00 then True
       else if gs ! 0 AND 0xffc0 = 0xfe80 then True
       else if list_all (\<lambda>g. g = 0) (take 5 gs) \<and> (gs ! 5 = 0xffff \<or> gs ! 5 = 0) then
         (let a = drop_bit 8 (gs ! 6); b = gs ! 6 AND 0xff; c = drop_bit 8 (gs ! 7); d = gs ! 7 AND 0xff in
          if a \<noteq> 0 \<or> b \<noteq> 0 \<or> c \<noteq> 0 \<or> d \<noteq> 0 then privateIpWith (\<lambda>_. False) (quad a b c d) else False)
       else False))"

definition isPrivateIp :: "string \<Rightarrow> bool" where
  "isPrivateIp ip = privateIpWith isPrivateIpv6 ip"

section \<open>Webhook URLs\<close>

record url =
  u_protocol :: string
  u_hostname :: string

text \<open>\<open>parse\<close> is the URL parser, \<^const>\<open>None\<close> when the constructor throws.\<close>

definition isValidWebhookUrl :: "(string \<Rightarrow> url option) \<Rightarrow> string \<Rightarrow> unit result" where
  "isValidWebhookUrl parse u = (case parse u of
     None \<Rightarrow> Inl ''Invalid URL format''
   | Some parsed \<Rightarrow>
      (if u_protocol parsed \<noteq> ''https:'' then
         Inl (''Scheme '' @ [CHR 0x27] @ u_protocol parsed @ [CHR 0x27] @ '' is not allowed. Only HTTPS is permitted.'')
       else (let hostname = lowerCase (u_hostname parsed) in
         if hostname = ''localhost'' \<or> starts_with hostname ''127.'' \<or> hostname = ''0.0.0.0'' \<or> hostname = ''::1''
            \<or> hostname = ''[::1]'' \<or> hostname = ''[::]'' then Inl ''Loopback and local addresses are not allowed''
         else if hostname = ''169.254.169.254'' \<or> hostname = ''metadata.google.internal'' then Inl ''Cloud metadata endpoints are not allowed''
         else if starts_with hostname ''169.254.'' then Inl ''Link-local addresses are not allowed''
         else if isPrivateIp hostname then Inl ''Unauthorized private or internal IP address''
         else Inr ())))"

text \<open>\<open>dns h\<close> are the A and AAAA records of \<open>h\<close>, a failing lookup giving none. The value is the address
  to connect to.\<close>

fun firstPrivate :: "string list \<Rightarrow> string option" where
  "firstPrivate [] = None"
| "firstPrivate (ip # ips) = (if isPrivateIp ip then Some ip else firstPrivate ips)"

definition validateWebhookUrlAsync :: "(string \<Rightarrow> url option) \<Rightarrow> (string \<Rightarrow> string list) \<Rightarrow> (string \<Rightarrow> string list) \<Rightarrow> string \<Rightarrow> string result" where
  "validateWebhookUrlAsync parse dnsA dnsAAAA u = (case isValidWebhookUrl parse u of
     Inl e \<Rightarrow> Inl e
   | Inr _ \<Rightarrow> (case parse u of
       None \<Rightarrow> Inl ''Invalid URL format''
     | Some parsed \<Rightarrow>
        (let hostname = u_hostname parsed in
         if fullmatch IP_REGEX hostname then Inr hostname
         else (let ips = dnsA hostname @ dnsAAAA hostname in
           case ips of
             [] \<Rightarrow> Inl ''Could not resolve hostname''
           | ip # _ \<Rightarrow> (case firstPrivate ips of
               Some bad \<Rightarrow> Inl (''Hostname resolves to unauthorized IP: '' @ bad)
             | None \<Rightarrow> Inr ip)))))"

section \<open>Numbers in text\<close>

lemma byte_char_of [simp]: "n < 256 \<Longrightarrow> byte (char_of n) = n"
  by simp

lemma nat_decimal_digits: "all_digits (nat_decimal n)"
proof (induction n rule: nat_decimal.induct)
  case (1 n)
  then show ?case by (subst nat_decimal.simps) (auto simp: all_digits_def is_digit_def)
qed

lemma Number_append: "Number (s @ [c]) = Number s * 10 + (byte c - 48)"
  by (simp add: Number_def)

lemma Number_nat_decimal [simp]: "Number (nat_decimal n) = n"
proof (induction n rule: nat_decimal.induct)
  case (1 n)
  show ?case
  proof (cases "n < 10")
    case True
    then show ?thesis by (subst nat_decimal.simps) (simp add: Number_def)
  next
    case False
    then show ?thesis using 1 by (subst nat_decimal.simps) (simp add: Number_append)
  qed
qed

definition hexText :: "string \<Rightarrow> nat" where
  "hexText g = foldl (\<lambda>v c. v * 16 + parseHex c) 0 g"

lemma hexChar_facts: "n < 16 \<Longrightarrow> is_hex (hexChar n) \<and> parseHex (hexChar n) = n"
  by (auto simp: is_hex_def is_digit_def parseHex_def)

lemma nat_hex_facts: "nat_hex n \<noteq> [] \<and> list_all is_hex (nat_hex n) \<and> hexText (nat_hex n) = n"
proof (induction n rule: nat_hex.induct)
  case (1 n)
  show ?case
  proof (cases "n < 16")
    case True
    then show ?thesis using hexChar_facts [of n] by (subst (1 2 3) nat_hex.simps) (simp add: hexText_def del: hexChar.simps)
  next
    case False
    then show ?thesis using 1 hexChar_facts [of "n mod 16"]
      by (subst (1 2 3) nat_hex.simps) (simp add: hexText_def del: hexChar.simps)
  qed
qed

lemma nat_hex_length: "n < 16 ^ Suc k \<Longrightarrow> length (nat_hex n) \<le> Suc k"
proof (induction k arbitrary: n)
  case 0
  then show ?case by (subst nat_hex.simps) simp
next
  case (Suc k)
  then have "n div 16 < 16 ^ Suc k" by (simp add: div_less_iff_less_mult mult.commute)
  then show ?case using Suc.IH [of "n div 16"] by (subst nat_hex.simps) simp
qed

lemma hexGroup_nat_hex: "n < 65536 \<Longrightarrow> hexGroup (nat_hex n) = Some n"
  using nat_hex_facts [of n] nat_hex_length [of n 3] by (auto simp: hexGroup_def hexText_def Suc_le_eq)

lemma is_hex_plain: "is_hex c \<Longrightarrow> c \<noteq> CHR '':'' \<and> c \<noteq> CHR ''%'' \<and> c \<noteq> CHR ''.'' \<and> c \<noteq> CHR ''[''"
  by (auto simp: is_hex_def is_digit_def)

lemma is_digit_plain: "is_digit c \<Longrightarrow> c \<noteq> CHR '':'' \<and> c \<noteq> CHR ''.'' \<and> c \<noteq> CHR ''['' \<and> c \<noteq> CHR ''%'' \<and> is_hex c"
  by (auto simp: is_hex_def is_digit_def)

lemma nat_hex_plain: "CHR '':'' \<notin> set (nat_hex n)" "CHR ''%'' \<notin> set (nat_hex n)" "CHR ''.'' \<notin> set (nat_hex n)" "CHR ''['' \<notin> set (nat_hex n)"
  using nat_hex_facts [of n] is_hex_plain by (auto simp: list_all_iff)

lemma nat_decimal_plain: "CHR '':'' \<notin> set (nat_decimal n)" "CHR ''.'' \<notin> set (nat_decimal n)" "CHR ''%'' \<notin> set (nat_decimal n)" "CHR ''['' \<notin> set (nat_decimal n)"
  using nat_decimal_digits [of n] is_digit_plain by (auto simp: all_digits_def list_all_iff)

section \<open>Dotted quads\<close>

lemma quad_eq: "quad a b c d = nat_decimal a @ CHR ''.'' # nat_decimal b @ CHR ''.'' # nat_decimal c @ CHR ''.'' # nat_decimal d"
  by (simp add: quad_def)

lemma split_quad: "split_char (CHR ''.'') (quad a b c d) = [nat_decimal a, nat_decimal b, nat_decimal c, nat_decimal d]"
  by (simp add: quad_eq split_char_append split_char_id nat_decimal_plain)

lemma ipv4Match_quad [simp]: "ipv4Match (quad a b c d) = Some [a, b, c, d]"
  by (simp add: ipv4Match_def split_quad nat_decimal_digits Let_def)

lemma quad_plain: "CHR '':'' \<notin> set (quad a b c d)" "CHR ''['' \<notin> set (quad a b c d)" "CHR ''%'' \<notin> set (quad a b c d)"
  by (auto simp: quad_eq nat_decimal_plain)

lemma unbracket_plain: "CHR ''['' \<notin> set s \<Longrightarrow> unbracket s = s"
  by (cases s) (auto simp: unbracket_def)

lemma unbracket_bracket: "unbracket (''['' @ s @ '']'') = s"
  by (simp add: unbracket_def suffix_def)

text \<open>The text comparisons agree with the numbers, since the decimal text determines them.\<close>

lemma ipv4Match_prefix:
  assumes "ipv4Match host = Some [a, b, c, d]" and "starts_with host ''169.254.''"
  shows "a = 169 \<and> b = 254"
proof -
  obtain r where h: "host = ''169'' @ CHR ''.'' # ''254'' @ CHR ''.'' # r" using assms(2) by (auto simp: prefix_def)
  have "split_char (CHR ''.'') host = ''169'' # ''254'' # split_char (CHR ''.'') r"
    by (simp add: h split_char_append)
  then show ?thesis using assms(1) by (auto simp: ipv4Match_def Let_def Number_def split: if_splits)
qed

definition private_quad :: "nat \<Rightarrow> nat \<Rightarrow> bool" where
  "private_quad a b \<longleftrightarrow> privateOctets a b \<or> (a = 169 \<and> b = 254)"

lemma nat_decimal_inject: "nat_decimal m = nat_decimal n \<longleftrightarrow> m = n"
  by (metis Number_nat_decimal)

lemma starts_169: "starts_with (quad 169 254 c d) ''169.254.''"
proof -
  have "nat_decimal 169 = ''169''" "nat_decimal 254 = ''254''" by code_simp+
  then show ?thesis by (simp add: quad_eq)
qed

lemma private_quad_text: "privateIpWith v6 (quad a b c d) = private_quad a b"
proof -
  let ?q = "quad a b c d"
  have ub: "unbracket ?q = ?q" by (rule unbracket_plain [OF quad_plain(2)])
  have 1: "?q \<noteq> ''localhost''" using ipv4Match_quad [of a b c d] by (auto simp: ipv4Match_def Let_def split_char_id)
  have 2: "a = 127" if "?q = ''127.0.0.1''"
    using ipv4Match_quad [of a b c d] unfolding that by (auto simp: ipv4Match_def Number_def Let_def split: if_splits)
  have 3: "a = 0" if "?q = ''0.0.0.0''"
    using ipv4Match_quad [of a b c d] unfolding that by (auto simp: ipv4Match_def Number_def Let_def split: if_splits)
  have 4: "starts_with ?q ''169.254.'' \<longleftrightarrow> a = 169 \<and> b = 254"
    using ipv4Match_prefix [OF ipv4Match_quad] starts_169 [of c d] by metis
  show ?thesis
    using 1 2 3 4 by (auto simp: privateIpWith_def ub Let_def private_quad_def privateOctets_def)
qed

section \<open>Groups in text\<close>

definition groupsText :: "nat list \<Rightarrow> string" where
  "groupsText gs = join_with '':'' (map nat_hex gs)"

lemma split_join: "ws \<noteq> [] \<Longrightarrow> \<forall>w \<in> set ws. c \<notin> set w \<Longrightarrow> split_char c (join_with [c] ws) = ws"
  by (induction "[c]" ws rule: join_with.induct) (auto simp: split_char_id split_char_append)

lemma join_plain: "x \<notin> set sep \<Longrightarrow> \<forall>w \<in> set ws. x \<notin> set w \<Longrightarrow> x \<notin> set (join_with sep ws)"
  by (induction sep ws rule: join_with.induct) auto

lemma groupsText_plain: "CHR ''%'' \<notin> set (groupsText gs)" "CHR ''.'' \<notin> set (groupsText gs)" "CHR ''['' \<notin> set (groupsText gs)"
  unfolding groupsText_def by (rule join_plain; simp add: nat_hex_plain)+

lemma parseAll_hex: "list_all (\<lambda>g. g < 65536) gs \<Longrightarrow> parseAll (map nat_hex gs) = Some gs"
  by (induction gs) (simp_all add: hexGroup_nat_hex)

lemma join_Nil: "[] \<notin> set ws \<Longrightarrow> join_with sep ws = [] \<longleftrightarrow> ws = []"
  by (induction sep ws rule: join_with.induct) auto

lemma nat_hex_Nil [simp]: "nat_hex n \<noteq> []"
  using nat_hex_facts by blast

lemma groupsText_Nil [simp]: "groupsText gs = [] \<longleftrightarrow> gs = []"
proof -
  have "[] \<notin> set (map nat_hex gs)" by (auto dest: sym)
  then show ?thesis unfolding groupsText_def by (simp add: join_Nil)
qed

lemma parsePart_groups:
  assumes "list_all (\<lambda>g. g < 65536) gs"
  shows "parsePart (groupsText gs) = Some gs"
proof (cases "gs = []")
  case False
  then have "split_char (CHR '':'') (groupsText gs) = map nat_hex gs"
    unfolding groupsText_def by (intro split_join) (simp_all add: nat_hex_plain)
  then show ?thesis using False parseAll_hex [OF assms] by (simp add: parsePart_def)
qed (simp add: parsePart_def groupsText_def)

fun no_dc :: "string \<Rightarrow> bool" where
  "no_dc [] = True"
| "no_dc [c] = True"
| "no_dc (c # d # r) = (\<not> (c = CHR '':'' \<and> d = CHR '':'') \<and> no_dc (d # r))"

lemma splitDouble_id: "no_dc p \<Longrightarrow> splitDouble p = [p]"
  by (induction p rule: splitDouble.induct) auto

lemma splitDouble_append:
  "no_dc p \<Longrightarrow> p = [] \<or> last p \<noteq> CHR '':'' \<Longrightarrow> splitDouble (p @ CHR '':'' # CHR '':'' # q) = p # splitDouble q"
  by (induction p rule: splitDouble.induct) auto

lemma no_dc_word: "CHR '':'' \<notin> set u \<Longrightarrow> no_dc u"
  by (induction u rule: no_dc.induct) auto

lemma no_dc_Cons: "no_dc v \<Longrightarrow> v = [] \<or> hd v \<noteq> CHR '':'' \<Longrightarrow> no_dc (CHR '':'' # v)"
  by (cases v) auto

lemma no_dc_append: "CHR '':'' \<notin> set u \<Longrightarrow> no_dc v \<Longrightarrow> no_dc (u @ v)"
proof (induction u)
  case (Cons x u)
  then show ?case by (cases "u @ v") auto
qed simp

lemma no_dc_join:
  assumes "\<forall>w \<in> set ws. w \<noteq> [] \<and> CHR '':'' \<notin> set w"
  shows "no_dc (join_with '':'' ws) \<and> (ws \<noteq> [] \<longrightarrow> hd (join_with '':'' ws) \<noteq> CHR '':'' \<and> last (join_with '':'' ws) \<noteq> CHR '':'')"
  using assms
proof (induction "'':''" ws rule: join_with.induct)
  case (2 x)
  then show ?case using no_dc_word [of x] by (auto dest: hd_in_set last_in_set)
next
  case (3 x y xs)
  then have x: "x \<noteq> []" "CHR '':'' \<notin> set x" by auto
  have ih: "no_dc (join_with '':'' (y # xs))" "hd (join_with '':'' (y # xs)) \<noteq> CHR '':''" "last (join_with '':'' (y # xs)) \<noteq> CHR '':''"
    using 3 by auto
  have "[] \<notin> set (y # xs)" using 3(2) by auto
  then have ne: "join_with '':'' (y # xs) \<noteq> []" by (simp add: join_Nil)
  have "hd x \<noteq> CHR '':''" using x hd_in_set [of x] by metis
  then show ?case using no_dc_append [OF x(2) no_dc_Cons [OF ih(1) disjI2 [OF ih(2)]]] x ih(3) ne by simp
qed simp

lemma groupsText_no_dc: "no_dc (groupsText gs)" "gs \<noteq> [] \<Longrightarrow> last (groupsText gs) \<noteq> CHR '':''" "gs \<noteq> [] \<Longrightarrow> hd (groupsText gs) \<noteq> CHR '':''"
proof -
  have "\<forall>w \<in> set (map nat_hex gs). w \<noteq> [] \<and> CHR '':'' \<notin> set w" by (simp add: nat_hex_plain)
  from no_dc_join [OF this] show "no_dc (groupsText gs)" "gs \<noteq> [] \<Longrightarrow> last (groupsText gs) \<noteq> CHR '':''" "gs \<noteq> [] \<Longrightarrow> hd (groupsText gs) \<noteq> CHR '':''"
    by (simp_all add: groupsText_def)
qed

lemma expandQuad_plain: "CHR ''.'' \<notin> set txt \<Longrightarrow> expandQuad txt = Some txt"
  by (simp add: expandQuad_def trailingQuad_def split_char_id)

lemma takeWhile_plain: "x \<notin> set s \<Longrightarrow> takeWhile (\<lambda>c. c \<noteq> x) s = s"
  by (rule takeWhile_eq_all_conv [THEN iffD2]) auto

lemma expand_full: "length gs = 8 \<Longrightarrow> list_all (\<lambda>g. g < 65536) gs \<Longrightarrow> expandIpv6 (groupsText gs) = Some gs"
  by (simp add: expandIpv6_def takeWhile_plain expandQuad_plain groupsText_plain splitDouble_id groupsText_no_dc parsePart_groups)

lemma expand_compressed_text:
  assumes "list_all (\<lambda>g. g < 65536) hs" and "list_all (\<lambda>g. g < 65536) ts" and "length hs + length ts \<le> 8"
  shows "(case splitDouble (groupsText hs @ ''::'' @ groupsText ts) of
       [h] \<Rightarrow> (case parsePart h of None \<Rightarrow> None | Some head \<Rightarrow> (if length head = 8 then Some head else None))
     | [h, t] \<Rightarrow> (case parsePart h of None \<Rightarrow> None | Some head \<Rightarrow>
         (case parsePart t of None \<Rightarrow> None | Some tail \<Rightarrow>
            (if 8 < length head + length tail then None
             else Some (head @ replicate (8 - length head - length tail) 0 @ tail))))
     | _ \<Rightarrow> None) = Some (hs @ replicate (8 - length hs - length ts) 0 @ ts)"
proof -
  have "splitDouble (groupsText hs @ ''::'' @ groupsText ts) = [groupsText hs, groupsText ts]"
    using splitDouble_append [OF groupsText_no_dc(1) [of hs], of "groupsText ts"] groupsText_no_dc(2) [of hs]
    by (cases "hs = []") (auto simp: splitDouble_id groupsText_no_dc(1))
  then show ?thesis using assms by (simp add: parsePart_groups)
qed

lemma expand_compressed:
  assumes "list_all (\<lambda>g. g < 65536) hs" and "list_all (\<lambda>g. g < 65536) ts" and "length hs + length ts \<le> 8"
  shows "expandIpv6 (groupsText hs @ ''::'' @ groupsText ts) = Some (hs @ replicate (8 - length hs - length ts) 0 @ ts)"
proof -
  let ?t = "groupsText hs @ ''::'' @ groupsText ts"
  have "takeWhile (\<lambda>c. c \<noteq> CHR ''%'') ?t = ?t" by (rule takeWhile_plain) (simp add: groupsText_plain)
  moreover have "expandQuad ?t = Some ?t" by (rule expandQuad_plain) (simp add: groupsText_plain)
  ultimately show ?thesis unfolding expandIpv6_def using expand_compressed_text [OF assms] by (simp only: option.case)
qed

lemma digitSuffix_append: "list_all is_digit s \<Longrightarrow> \<not> is_digit x \<Longrightarrow> digitSuffix (p @ x # s) = s"
  using takeWhile_append2 [of "rev s" is_digit "x # rev p"] by (simp add: digitSuffix_def list_all_iff)

lemma trailingQuad_mapped:
  "trailingQuad (''::ffff:'' @ quad a b c d) = Some (''::ffff:'', [a, b, c, d])"
proof -
  have split: "split_char (CHR ''.'') (''::ffff:'' @ quad a b c d) = [''::ffff:'' @ nat_decimal a, nat_decimal b, nat_decimal c, nat_decimal d]"
    using split_char_append [of "CHR ''.''" "''::ffff:'' @ nat_decimal a" "nat_decimal b @ CHR ''.'' # nat_decimal c @ CHR ''.'' # nat_decimal d"]
    by (simp add: quad_eq split_char_append split_char_id nat_decimal_plain)
  have suffix: "digitSuffix (''::ffff:'' @ nat_decimal a) = nat_decimal a"
    using digitSuffix_append [of "nat_decimal a" "CHR '':''" "''::ffff''"] nat_decimal_digits [of a]
    by (simp add: all_digits_def is_digit_def)
  have len: "length (''::ffff:'' @ quad a b c d) - length (join_with ''.'' [nat_decimal a, nat_decimal b, nat_decimal c, nat_decimal d]) = 7"
    by (simp add: quad_eq)
  have rev4: "rev [w, x, y, z] = [z, y, x, w]" for w x y z :: string by simp
  have take7: "take 7 (''::ffff:'' @ r) = ''::ffff:''" for r by (simp add: numeral_eq_Suc)
  show ?thesis unfolding trailingQuad_def split rev4 list.case suffix Let_def len take7
    by (simp add: nat_decimal_digits)
qed

lemma hex_ffff: "nat_hex 65535 = ''ffff''"
proof -
  have "hexChar 15 = CHR ''f''" by code_simp
  then show ?thesis by (simp add: nat_hex.simps del: hexChar.simps)
qed

lemma replicate5: "replicate 5 (0::nat) = [0, 0, 0, 0, 0]"
  by (simp add: numeral_eq_Suc)

lemma expand_mapped:
  assumes "a < 256" "b < 256" "c < 256" "d < 256"
  shows "expandIpv6 (''::ffff:'' @ quad a b c d) = Some [0, 0, 0, 0, 0, 65535, a * 256 + b, c * 256 + d]"
proof -
  have tw: "takeWhile (\<lambda>x. x \<noteq> CHR ''%'') (''::ffff:'' @ quad a b c d) = ''::ffff:'' @ quad a b c d"
    by (rule takeWhile_plain) (simp add: quad_plain)
  have t: "''::ffff:'' @ nat_hex (a * 256 + b) @ '':'' @ nat_hex (c * 256 + d) = groupsText [] @ ''::'' @ groupsText [65535, a * 256 + b, c * 256 + d]"
    by (simp add: groupsText_def hex_ffff)
  have eq: "expandQuad (''::ffff:'' @ quad a b c d) = Some (groupsText [] @ ''::'' @ groupsText [65535, a * 256 + b, c * 256 + d])"
    unfolding expandQuad_def trailingQuad_mapped t [symmetric] using assms by simp
  have "list_all (\<lambda>g. g < 65536) [65535, a * 256 + b, c * 256 + d]" using assms by simp
  from expand_compressed_text [OF _ this, of "[]"] show ?thesis
    unfolding expandIpv6_def tw eq by (simp add: replicate5)
qed

section \<open>Address blocks\<close>

text \<open>The reference: an address is a number, a block fixes its leading bits.\<close>

definition in_block :: "nat \<Rightarrow> nat \<Rightarrow> nat \<Rightarrow> nat \<Rightarrow> bool" where
  "in_block n len net v \<longleftrightarrow> v div 2 ^ (n - len) = net div 2 ^ (n - len)"

definition addr4 :: "nat \<Rightarrow> nat \<Rightarrow> nat \<Rightarrow> nat \<Rightarrow> nat" where
  "addr4 a b c d = ((a * 256 + b) * 256 + c) * 256 + d"

definition private4 :: "nat \<Rightarrow> bool" where
  "private4 w \<longleftrightarrow> in_block 32 8 (addr4 0 0 0 0) w \<or> in_block 32 8 (addr4 10 0 0 0) w \<or> in_block 32 8 (addr4 127 0 0 0) w
     \<or> in_block 32 16 (addr4 169 254 0 0) w \<or> in_block 32 12 (addr4 172 16 0 0) w \<or> in_block 32 16 (addr4 192 168 0 0) w
     \<or> in_block 32 10 (addr4 100 64 0 0) w \<or> in_block 32 15 (addr4 198 18 0 0) w"

definition addr6 :: "nat list \<Rightarrow> nat" where
  "addr6 gs = foldl (\<lambda>v g. v * 65536 + g) 0 gs"

definition private6 :: "nat \<Rightarrow> bool" where
  "private6 v \<longleftrightarrow> v = 0 \<or> v = 1 \<or> in_block 128 7 (addr6 [0xfc00, 0, 0, 0, 0, 0, 0, 0]) v \<or> in_block 128 10 (addr6 [0xfe80, 0, 0, 0, 0, 0, 0, 0]) v
     \<or> ((v div 2 ^ 32 = 0 \<or> v div 2 ^ 32 = 0xffff) \<and> v mod 2 ^ 32 \<noteq> 0 \<and> private4 (v mod 2 ^ 32))"

lemma addr4_div:
  assumes "a < 256" "b < 256" "c < 256" "d < 256"
  shows "addr4 a b c d div 65536 = a * 256 + b" "addr4 a b c d div 16777216 = a"
    "addr4 a b c d div 1048576 = a * 16 + b div 16" "addr4 a b c d div 4194304 = a * 4 + b div 64" "addr4 a b c d div 131072 = a * 128 + b div 2"
proof -
  show h: "addr4 a b c d div 65536 = a * 256 + b" using assms by (simp add: addr4_def)
  have *: "addr4 a b c d div (65536 * k) = (a * 256 + b) div k" for k by (simp add: div_mult2_eq h)
  show "addr4 a b c d div 16777216 = a" using * [of 256] assms by simp
  show "addr4 a b c d div 1048576 = a * 16 + b div 16" using * [of 16] by simp
  show "addr4 a b c d div 4194304 = a * 4 + b div 64" using * [of 64] by simp
  show "addr4 a b c d div 131072 = a * 128 + b div 2" using * [of 2] by simp
qed

lemma digit_eq:
  assumes "x < k" and "y < (k::nat)"
  shows "a * k + x = n * k + y \<longleftrightarrow> a = n \<and> x = y"
proof
  assume eq: "a * k + x = n * k + y"
  have "a = (a * k + x) div k" "n = (n * k + y) div k" using assms by simp_all
  then show "a = n \<and> x = y" using eq by simp
qed simp

lemma private4_quad:
  assumes "a < 256" "b < 256" "c < 256" "d < 256"
  shows "private4 (addr4 a b c d) = private_quad a b"
proof -
  have h: "private4 (addr4 a b c d) \<longleftrightarrow> a = 0 \<or> a = 10 \<or> a = 127 \<or> a * 256 + b = 43518 \<or> a * 16 + b div 16 = 2753 \<or> a * 256 + b = 49320
      \<or> a * 4 + b div 64 = 401 \<or> a * 128 + b div 2 = 25353"
    by (simp add: private4_def in_block_def addr4_div [OF assms] addr4_div [of _ _ 0 0])
  have e: "a * 256 + b = 43518 \<longleftrightarrow> a = 169 \<and> b = 254" "a * 256 + b = 49320 \<longleftrightarrow> a = 192 \<and> b = 168"
    using digit_eq [of b 256 254 a 169] digit_eq [of b 256 168 a 192] assms by simp_all
  have "a * 16 + b div 16 = 2753 \<longleftrightarrow> a = 172 \<and> b \<ge> 16 \<and> b \<le> 31"
    using digit_eq [of "b div 16" 16 1 a 172] assms by simp linarith
  moreover have "a * 4 + b div 64 = 401 \<longleftrightarrow> a = 100 \<and> b \<ge> 64 \<and> b \<le> 127"
    using digit_eq [of "b div 64" 4 1 a 100] assms by simp linarith
  moreover have "a * 128 + b div 2 = 25353 \<longleftrightarrow> a = 198 \<and> (b = 18 \<or> b = 19)"
    using digit_eq [of "b div 2" 128 9 a 198] assms by simp linarith
  ultimately show ?thesis unfolding private_quad_def privateOctets_def h e by (simp only: disj_ac)
qed

lemma and_block: "(x::nat) AND (mask m * 2 ^ n) = (x div 2 ^ n mod 2 ^ m) * 2 ^ n"
proof -
  have "x AND push_bit n (mask m) = push_bit n (take_bit m (drop_bit n x))"
    by (rule bit_eqI) (auto simp: bit_simps)
  then show ?thesis by (simp add: push_bit_eq_mult drop_bit_eq_div take_bit_eq_mod)
qed

lemma and_fe00: "x < 65536 \<Longrightarrow> (x::nat) AND 0xfe00 = 0xfc00 \<longleftrightarrow> x div 512 = 126"
  using and_block [of x 7 9] by (simp add: mask_eq_exp_minus_1)

lemma and_ffc0: "x < 65536 \<Longrightarrow> (x::nat) AND 0xffc0 = 0xfe80 \<longleftrightarrow> x div 64 = 1018"
  using and_block [of x 10 6] by (simp add: mask_eq_exp_minus_1)

lemma and_ff: "(x::nat) AND 0xff = x mod 256"
  using and_block [of x 8 0] by (simp add: mask_eq_exp_minus_1)

lemma addr6_facts:
  assumes "gs = [g0, g1, g2, g3, g4, g5, g6, g7]" and "list_all (\<lambda>g. g < 65536) gs"
  shows "addr6 gs div 2 ^ 32 = addr6 [g0, g1, g2, g3, g4, g5]" "addr6 gs mod 2 ^ 32 = g6 * 65536 + g7" "addr6 gs div 2 ^ 112 = g0"
proof -
  have "addr6 gs = addr6 [g0, g1, g2, g3, g4, g5] * 4294967296 + (g6 * 65536 + g7)" "g6 * 65536 + g7 < 4294967296"
    using assms by (simp_all add: addr6_def)
  then show "addr6 gs div 2 ^ 32 = addr6 [g0, g1, g2, g3, g4, g5]" "addr6 gs mod 2 ^ 32 = g6 * 65536 + g7" by simp_all
  have lt: "addr6 [g1, g2, g3, g4, g5, g6, g7] < 2 ^ 112" using assms by (simp add: addr6_def)
  have "addr6 gs = g0 * 2 ^ 112 + addr6 [g1, g2, g3, g4, g5, g6, g7]" using assms(1) by (simp add: addr6_def)
  then show "addr6 gs div 2 ^ 112 = g0" using lt by simp
qed

lemma addr6_small:
  assumes "list_all (\<lambda>g. g < 65536) [g0, g1, g2, g3, g4, g5]"
  shows "addr6 [g0, g1, g2, g3, g4, g5] = 0 \<longleftrightarrow> g0 = 0 \<and> g1 = 0 \<and> g2 = 0 \<and> g3 = 0 \<and> g4 = 0 \<and> g5 = 0"
    "addr6 [g0, g1, g2, g3, g4, g5] = 65535 \<longleftrightarrow> g0 = 0 \<and> g1 = 0 \<and> g2 = 0 \<and> g3 = 0 \<and> g4 = 0 \<and> g5 = 65535"
proof -
  show "addr6 [g0, g1, g2, g3, g4, g5] = 0 \<longleftrightarrow> g0 = 0 \<and> g1 = 0 \<and> g2 = 0 \<and> g3 = 0 \<and> g4 = 0 \<and> g5 = 0"
    by (auto simp: addr6_def)
  have "addr6 [g0, g1, g2, g3, g4, g5] = addr6 [g0, g1, g2, g3, g4] * 65536 + g5" by (simp add: addr6_def)
  then have "addr6 [g0, g1, g2, g3, g4, g5] = 65535 \<longleftrightarrow> addr6 [g0, g1, g2, g3, g4] = 0 \<and> g5 = 65535"
    using digit_eq [of g5 65536 65535 "addr6 [g0, g1, g2, g3, g4]" 0] assms by simp
  then show "addr6 [g0, g1, g2, g3, g4, g5] = 65535 \<longleftrightarrow> g0 = 0 \<and> g1 = 0 \<and> g2 = 0 \<and> g3 = 0 \<and> g4 = 0 \<and> g5 = 65535"
    by (auto simp: addr6_def)
qed

lemma private6_groups:
  assumes gs: "gs = [g0, g1, g2, g3, g4, g5, g6, g7]" and lim: "list_all (\<lambda>g. g < 65536) gs"
  shows "private6 (addr6 gs) \<longleftrightarrow> list_all (\<lambda>g. g = 0) gs \<or> (list_all (\<lambda>g. g = 0) (take 7 gs) \<and> gs ! 7 = 1)
    \<or> g0 div 512 = 126 \<or> g0 div 64 = 1018
    \<or> (list_all (\<lambda>g. g = 0) (take 5 gs) \<and> (g5 = 65535 \<or> g5 = 0) \<and> g6 * 65536 + g7 \<noteq> 0 \<and> private4 (g6 * 65536 + g7))"
proof -
  note facts = addr6_facts [OF gs lim]
  let ?six = "addr6 [g0, g1, g2, g3, g4, g5]"
  have split: "addr6 gs = ?six * 2 ^ 32 + (g6 * 65536 + g7)"
    using facts(1,2) by (metis div_mult_mod_eq)
  have six: "list_all (\<lambda>g. g < 65536) [g0, g1, g2, g3, g4, g5]" using gs lim by simp
  have z: "addr6 gs = 0 \<longleftrightarrow> list_all (\<lambda>g. g = 0) gs"
    by (auto simp: gs addr6_def)
  have lo: "g6 * 65536 + g7 < 2 ^ 32" using lim gs by simp
  have "addr6 gs = 1 \<longleftrightarrow> ?six = 0 \<and> g6 * 65536 + g7 = 1"
    unfolding split using digit_eq [OF lo, of 1 ?six 0] by simp
  moreover have "g6 * 65536 + g7 = 1 \<longleftrightarrow> g6 = 0 \<and> g7 = 1" by (cases g6) auto
  ultimately have o: "addr6 gs = 1 \<longleftrightarrow> list_all (\<lambda>g. g = 0) (take 7 gs) \<and> gs ! 7 = 1"
    using addr6_small(1) [OF six] by (auto simp: gs)
  have b: "addr6 gs div 2 ^ 121 = g0 div 512" "addr6 gs div 2 ^ 118 = g0 div 64"
    using facts(3) div_mult2_eq [of "addr6 gs" "2 ^ 112" 512] div_mult2_eq [of "addr6 gs" "2 ^ 112" 64] by simp_all
  have n: "addr6 [0xfc00, 0, 0, 0, 0, 0, 0, 0] div 2 ^ 121 = 126" "addr6 [0xfe80, 0, 0, 0, 0, 0, 0, 0] div 2 ^ 118 = 1018"
    by (simp_all add: addr6_def)
  have bl: "in_block 128 7 (addr6 [0xfc00, 0, 0, 0, 0, 0, 0, 0]) (addr6 gs) \<longleftrightarrow> g0 div 512 = 126"
    "in_block 128 10 (addr6 [0xfe80, 0, 0, 0, 0, 0, 0, 0]) (addr6 gs) \<longleftrightarrow> g0 div 64 = 1018"
    unfolding in_block_def using b n by simp_all
  have m: "(?six = 0 \<or> ?six = 65535) \<longleftrightarrow> list_all (\<lambda>g. g = 0) (take 5 gs) \<and> (g5 = 65535 \<or> g5 = 0)"
    using addr6_small [OF six] by (auto simp: gs)
  show ?thesis unfolding private6_def z o bl facts(1,2) m by (simp only: conj_assoc)
qed

text \<open>Spellings of an address: eight groups, groups with a double colon, and the dotted form of a mapped
  IPv4 address; in lower case.\<close>

definition spelling :: "string \<Rightarrow> nat list \<Rightarrow> bool" where
  "spelling host gs \<longleftrightarrow> length gs = 8 \<and> list_all (\<lambda>g. g < 65536) gs \<and>
    (host = groupsText gs \<or>
     (\<exists>hs ts. length hs + length ts \<le> 8 \<and> gs = hs @ replicate (8 - length hs - length ts) 0 @ ts \<and> host = groupsText hs @ ''::'' @ groupsText ts) \<or>
     (\<exists>a b c d. a < 256 \<and> b < 256 \<and> c < 256 \<and> d < 256 \<and> gs = [0, 0, 0, 0, 0, 65535, a * 256 + b, c * 256 + d] \<and> host = ''::ffff:'' @ quad a b c d))"

lemma spelling_expand:
  assumes "spelling host gs"
  shows "expandIpv6 host = Some gs"
proof -
  have lim: "length gs = 8" "list_all (\<lambda>g. g < 65536) gs" using assms by (auto simp: spelling_def)
  consider "host = groupsText gs"
    | hs ts where "length hs + length ts \<le> 8" "gs = hs @ replicate (8 - length hs - length ts) 0 @ ts" "host = groupsText hs @ ''::'' @ groupsText ts"
    | a b c d where "a < 256" "b < 256" "c < 256" "d < 256" "gs = [0, 0, 0, 0, 0, 65535, a * 256 + b, c * 256 + d]" "host = ''::ffff:'' @ quad a b c d"
    using assms unfolding spelling_def by blast
  then show ?thesis
  proof cases
    case 1
    then show ?thesis using expand_full [OF lim] by simp
  next
    case (2 hs ts)
    then have "list_all (\<lambda>g. g < 65536) hs" "list_all (\<lambda>g. g < 65536) ts" using lim(2) by simp_all
    from expand_compressed [OF this 2(1)] show ?thesis using 2(2,3) by (simp only:)
  next
    case (3 a b c d)
    then show ?thesis using expand_mapped [OF 3(1-4)] by (simp only:)
  qed
qed

lemma list8: "length gs = 8 \<Longrightarrow> \<exists>g0 g1 g2 g3 g4 g5 g6 g7. gs = [g0, g1, g2, g3, g4, g5, g6, g7]"
  by (auto simp: numeral_eq_Suc length_Suc_conv)

lemma if_chain:
  "(if A then True else if B then True else if C then True else if D then True else if E then (if F then G else False) else False)
    \<longleftrightarrow> A \<or> B \<or> C \<or> D \<or> (E \<and> F \<and> G)"
  by simp

lemma isPrivateIpv6_groups:
  assumes "expandIpv6 host = Some gs" and len: "length gs = 8" and lim: "list_all (\<lambda>g. g < 65536) gs"
  shows "isPrivateIpv6 host = private6 (addr6 gs)"
proof -
  obtain g0 g1 g2 g3 g4 g5 g6 g7 where gs: "gs = [g0, g1, g2, g3, g4, g5, g6, g7]" using list8 [OF len] by blast
  have lt: "g0 < 65536" "g6 div 256 < 256" "g7 div 256 < 256" using lim gs by auto
  have nth: "gs ! 0 = g0" "gs ! 5 = g5" "gs ! 6 = g6" by (simp_all add: gs)
  have nth7: "gs ! 7 = g7" by (simp add: gs)
  have w: "addr4 (g6 div 256) (g6 mod 256) (g7 div 256) (g7 mod 256) = g6 * 65536 + g7"
    using div_mult_mod_eq [of g6 256] div_mult_mod_eq [of g7 256] by (simp add: addr4_def)
  have nz: "(g6 div 256 \<noteq> 0 \<or> g6 mod 256 \<noteq> 0 \<or> g7 div 256 \<noteq> 0 \<or> g7 mod 256 \<noteq> 0) \<longleftrightarrow> g6 * 65536 + g7 \<noteq> 0"
    using div_mult_mod_eq [of g6 256] div_mult_mod_eq [of g7 256] by auto
  have p4: "private4 (g6 * 65536 + g7) = private_quad (g6 div 256) (g6 mod 256)"
    using private4_quad [OF lt(2) _ lt(3), of "g6 mod 256" "g7 mod 256"] by (simp add: w)
  have "isPrivateIpv6 host \<longleftrightarrow> list_all (\<lambda>g. g = 0) gs \<or> (list_all (\<lambda>g. g = 0) (take 7 gs) \<and> gs ! 7 = 1)
    \<or> g0 div 512 = 126 \<or> g0 div 64 = 1018
    \<or> (list_all (\<lambda>g. g = 0) (take 5 gs) \<and> (g5 = 65535 \<or> g5 = 0) \<and> (g6 div 256 \<noteq> 0 \<or> g6 mod 256 \<noteq> 0 \<or> g7 div 256 \<noteq> 0 \<or> g7 mod 256 \<noteq> 0)
       \<and> private_quad (g6 div 256) (g6 mod 256))"
    unfolding isPrivateIpv6_def assms(1) option.case Let_def if_chain nth nth7 and_fe00 [OF lt(1)] and_ffc0 [OF lt(1)] and_ff drop_bit_eq_div private_quad_text
    by simp
  then show ?thesis unfolding private6_groups [OF gs lim] p4 nz .
qed

lemma groupsText_colon: "2 \<le> length gs \<Longrightarrow> CHR '':'' \<in> set (groupsText gs)"
  by (cases gs; cases "tl gs") (auto simp: groupsText_def)

lemma spelling_shape:
  assumes "spelling host gs"
  shows "CHR '':'' \<in> set host" "CHR ''['' \<notin> set host" "\<not> starts_with host ''169.254.''"
proof -
  have len: "2 \<le> length gs" using assms by (simp add: spelling_def)
  have dot: "CHR ''.'' \<in> set host" if "starts_with host ''169.254.''" using set_mono_prefix [OF that] by simp
  consider "host = groupsText gs" | hs ts where "host = groupsText hs @ ''::'' @ groupsText ts" | a b c d where "host = ''::ffff:'' @ quad a b c d"
    using assms unfolding spelling_def by blast
  then have "CHR '':'' \<in> set host \<and> CHR ''['' \<notin> set host \<and> \<not> starts_with host ''169.254.''"
  proof cases
    case 1
    then show ?thesis using groupsText_colon [OF len] groupsText_plain [of gs] dot by blast
  next
    case (2 hs ts)
    have "CHR ''.'' \<notin> set host" unfolding 2 using groupsText_plain by auto
    moreover have "CHR '':'' \<in> set host" "CHR ''['' \<notin> set host" unfolding 2 using groupsText_plain by auto
    ultimately show ?thesis using dot by blast
  next
    case (3 a b c d)
    then show ?thesis using quad_plain by auto
  qed
  then show "CHR '':'' \<in> set host" "CHR ''['' \<notin> set host" "\<not> starts_with host ''169.254.''" by auto
qed

lemma lowerCase_mem: "byte x < 97 \<Longrightarrow> x \<in> set (lowerCase s) \<Longrightarrow> x \<in> set s"
  by (auto simp: lowerCase_def split: if_splits)

lemma lowerCase_keeps: "byte x < 65 \<or> 90 < byte x \<Longrightarrow> x \<in> set s \<Longrightarrow> x \<in> set (lowerCase s)"
  by (force simp: lowerCase_def image_iff)

lemma lowerCase_prefix: "starts_with s t \<Longrightarrow> starts_with (lowerCase s) (lowerCase t)"
  by (auto simp: lowerCase_def prefix_def)

lemma ipv4Match_no_colon: "CHR '':'' \<in> set host \<Longrightarrow> ipv4Match host = None"
proof (rule ccontr)
  assume c: "CHR '':'' \<in> set host" and "ipv4Match host \<noteq> None"
  then have "list_all all_digits (split_char (CHR ''.'') host)" by (auto simp: ipv4Match_def Let_def split: if_splits)
  then have "\<forall>w \<in> set (split_char (CHR ''.'') host). CHR '':'' \<notin> set w"
    using is_digit_plain by (auto simp: list_all_iff all_digits_def)
  then have "CHR '':'' \<notin> set (join_with ''.'' (split_char (CHR ''.'') host))" by (intro join_plain) auto
  then show False using c by (simp add: join_split_char)
qed

lemma privateIpWith_v6:
  assumes "spelling (lowerCase host) gs" and "unbracket ip = host"
  shows "privateIpWith v6 ip = v6 (lowerCase host)"
proof -
  note shape = spelling_shape [OF assms(1)]
  have c: "CHR '':'' \<in> set host" using lowerCase_mem [OF _ shape(1)] by simp
  have "lowerCase ''169.254.'' = ''169.254.''" by (simp add: lowerCase_def)
  then have p: "\<not> starts_with host ''169.254.''" using shape(3) lowerCase_prefix [where s = host and t = "''169.254.''"] by auto
  have "host \<noteq> ''localhost'' \<and> host \<noteq> ''127.0.0.1'' \<and> host \<noteq> ''0.0.0.0''" using c by auto
  then show ?thesis using c p by (simp add: privateIpWith_def assms(2) ipv4Match_no_colon)
qed

text \<open>
  The private address test decides membership in address blocks. For a dotted quad it agrees with the
  blocks 0/8, 10/8, 127/8, 169.254/16, 172.16/12, 192.168/16, 100.64/10 and 198.18/15 of the 32-bit number; for
  every spelling of an IPv6 address, with or without double colon, in upper or lower case, dotted or
  not, bare or in brackets, it agrees with the unspecified and loopback addresses, fc00::/7, fe80::/10 and the
  blocks above for mapped and compatible addresses, the all-zero IPv4 part excepted.
\<close>

lemma isPrivateIp_blocks:
  "(a < 256 \<and> b < 256 \<and> c < 256 \<and> d < 256 \<longrightarrow> isPrivateIp (quad a b c d) = private4 (addr4 a b c d)) \<and>
   (spelling (lowerCase host) gs \<longrightarrow> isPrivateIp host = private6 (addr6 gs) \<and> isPrivateIp (''['' @ host @ '']'') = private6 (addr6 gs))"
proof (intro conjI impI)
  show "isPrivateIp (quad a b c d) = private4 (addr4 a b c d)" if "a < 256 \<and> b < 256 \<and> c < 256 \<and> d < 256"
    using that private4_quad [of a b c d] by (simp add: isPrivateIp_def private_quad_text)
next
  assume sp: "spelling (lowerCase host) gs"
  have "length gs = 8" "list_all (\<lambda>g. g < 65536) gs" using sp by (auto simp: spelling_def)
  note v6 = isPrivateIpv6_groups [OF spelling_expand [OF sp] this]
  have "CHR ''['' \<notin> set host" using spelling_shape(2) [OF sp] lowerCase_keeps [of "CHR ''[''" host] by auto
  then show "isPrivateIp host = private6 (addr6 gs)"
    using privateIpWith_v6 [OF sp unbracket_plain] v6 by (simp add: isPrivateIp_def)
  show "isPrivateIp (''['' @ host @ '']'') = private6 (addr6 gs)"
    using privateIpWith_v6 [OF sp unbracket_bracket] v6 by (simp add: isPrivateIp_def)
qed

lemma replicate6: "replicate 6 (0::nat) = [0, 0, 0, 0, 0, 0]"
  by (simp add: numeral_eq_Suc)

lemma sample_spelling: "spelling (lowerCase ''FE80::1'') [0xfe80, 0, 0, 0, 0, 0, 0, 1]"
proof -
  have t: "lowerCase ''FE80::1'' = groupsText [0xfe80] @ ''::'' @ groupsText [1]"
    by (simp add: lowerCase_def groupsText_def nat_hex.simps) code_simp
  show ?thesis unfolding spelling_def t
    by (intro conjI disjI2 disjI1 exI [of _ "[0xfe80]"] exI [of _ "[1]"]) (simp_all add: replicate6)
qed

section \<open>Webhooks, critical addresses and the text of addresses\<close>

lemma firstPrivate_None: "firstPrivate ips = None \<longleftrightarrow> (\<forall>ip \<in> set ips. \<not> isPrivateIp ip)"
  by (induction ips) auto

lemma isValidWebhookUrl_ok:
  assumes "isValidWebhookUrl parse u = Inr ()"
  shows "\<exists>url. parse u = Some url \<and> u_protocol url = ''https:'' \<and> \<not> isPrivateIp (lowerCase (u_hostname url))
    \<and> lowerCase (u_hostname url) \<noteq> ''localhost'' \<and> lowerCase (u_hostname url) \<noteq> ''metadata.google.internal''"
  using assms by (auto simp: isValidWebhookUrl_def Let_def split: option.splits if_splits)

text \<open>
  C11: a webhook never goes to a private address. If the URL parser gives host names in lower case, as it is
  specified to, then an accepted URL is an HTTPS URL, and the address to connect to is public: it is the
  literal address of the URL, or one of the resolved addresses of its host name, none of which is private.
\<close>

theorem webhook_public:
  assumes "validateWebhookUrlAsync parse dnsA dnsAAAA u = Inr ip"
    and "\<And>s url. parse s = Some url \<Longrightarrow> lowerCase (u_hostname url) = u_hostname url"
  shows "\<not> isPrivateIp ip \<and> (\<exists>url. parse u = Some url \<and> u_protocol url = ''https:'' \<and> \<not> isPrivateIp (u_hostname url) \<and>
    (ip = u_hostname url \<and> isValidIP ip \<or>
     ip \<in> set (dnsA (u_hostname url) @ dnsAAAA (u_hostname url)) \<and> (\<forall>r \<in> set (dnsA (u_hostname url) @ dnsAAAA (u_hostname url)). \<not> isPrivateIp r)))"
proof -
  have ok: "isValidWebhookUrl parse u = Inr ()" using assms(1) by (auto simp: validateWebhookUrlAsync_def split: sum.splits)
  from isValidWebhookUrl_ok [OF this] obtain url where url: "parse u = Some url" "u_protocol url = ''https:''" "\<not> isPrivateIp (lowerCase (u_hostname url))"
    by blast
  have host: "\<not> isPrivateIp (u_hostname url)" using url(3) assms(2) [OF url(1)] by simp
  show ?thesis
  proof (cases "fullmatch IP_REGEX (u_hostname url)")
    case True
    then have "ip = u_hostname url" using assms(1) by (simp add: validateWebhookUrlAsync_def ok url(1) Let_def)
    then show ?thesis using True url host by (auto simp: isValidIP_def)
  next
    case False
    let ?ips = "dnsA (u_hostname url) @ dnsAAAA (u_hostname url)"
    obtain rest where "?ips = ip # rest" "firstPrivate ?ips = None"
      using assms(1) False by (auto simp: validateWebhookUrlAsync_def ok url(1) Let_def split: list.splits option.splits if_splits)
    then have "ip \<in> set ?ips" "firstPrivate ?ips = None" by (metis list.set_intros(1))+
    then show ?thesis using url host unfolding firstPrivate_None by blast
  qed
qed

theorem webhook_public_witness:
  "validateWebhookUrlAsync (\<lambda>_. Some \<lparr>u_protocol = ''https:'', u_hostname = ''a.b''\<rparr>) (\<lambda>_. [quad 8 8 8 8]) (\<lambda>_. []) ''https://a.b/'' = Inr (quad 8 8 8 8)
   \<and> \<not> isPrivateIp (quad 8 8 8 8)"
proof -
  have p: "\<not> isPrivateIp (quad 8 8 8 8)" by (simp add: isPrivateIp_def private_quad_text private_quad_def privateOctets_def)
  have m: "\<not> fullmatch IP_REGEX ''a.b''" by code_simp
  have h: "\<not> isPrivateIp ''a.b''" by code_simp
  have "lowerCase ''a.b'' = ''a.b''" by (simp add: lowerCase_def)
  then have v: "validateWebhookUrlAsync (\<lambda>_. Some \<lparr>u_protocol = ''https:'', u_hostname = ''a.b''\<rparr>) (\<lambda>_. [quad 8 8 8 8]) (\<lambda>_. []) ''https://a.b/'' = Inr (quad 8 8 8 8)"
    using m h p by (simp add: validateWebhookUrlAsync_def isValidWebhookUrl_def del: fullmatch.simps)
  show ?thesis using v webhook_public [OF v] by (auto simp: lowerCase_def)
qed

lemma critical_exact_list: "isCriticalInfrastructure gateway ip \<longleftrightarrow> ip \<in> set CRITICAL_IPS \<or> (ip \<noteq> [] \<and> gateway = Some ip)"
proof -
  have "has infrastructureCache ip" if "ip \<in> set CRITICAL_IPS"
    unfolding infrastructureCache_def by (rule bloom_set.mem_ins_all [OF new_bloom_wf that]) simp
  moreover have "[] \<notin> set CRITICAL_IPS" by (simp add: CRITICAL_IPS_def)
  ultimately show ?thesis by (auto simp: isCriticalInfrastructure_def split: option.splits)
qed

text \<open>
  The fast path for critical addresses is exact. Although a Bloom filter is asked first, an address counts
  as critical infrastructure exactly when it is on the fixed list or is the configured gateway.
\<close>

lemma critical_exact:
  "isCriticalInfrastructure gateway ip \<longleftrightarrow> ip \<in> set CRITICAL_IPS \<or> (ip \<noteq> [] \<and> gateway = Some ip)"
  by (rule critical_exact_list)

definition address_char :: "char \<Rightarrow> bool" where
  "address_char c \<longleftrightarrow> in_cls False (digits @ lower @ upper) c \<or> c \<in> {CHR ''.'', CHR '':'', CHR ''%''}"

lemma in_cls_ranges: "in_cls False (digits @ lower @ upper) c \<longleftrightarrow>
    (48 \<le> byte c \<and> byte c \<le> 57) \<or> (97 \<le> byte c \<and> byte c \<le> 122) \<or> (65 \<le> byte c \<and> byte c \<le> 90)"
  by (simp add: in_cls_def)

lemma hexChars_address: "in_cls False hexChars c \<Longrightarrow> address_char c"
  unfolding address_char_def in_cls_ranges by (rule disjI1) (simp add: in_cls_def hexChars_def, linarith)

lemma digits_address: "in_cls False [(CHR ''0'', b)] c \<Longrightarrow> byte b \<le> 57 \<Longrightarrow> address_char c"
  unfolding address_char_def in_cls_ranges by (rule disjI1) (simp add: in_cls_def)

lemma literals_address: "list_all address_char ''01258fe:.%''"
  by (simp add: address_char_def in_cls_def)

lemma IP_REGEX_address: "chars IP_REGEX c \<Longrightarrow> address_char c"
proof (rule ccontr)
  assume no: "\<not> address_char c"
  have "\<not> in_cls False [(CHR ''0'', CHR ''9'')] c" by (rule contrapos_nn [OF no]) (simp add: digits_address)
  moreover have "\<not> in_cls False [(CHR ''0'', CHR ''5'')] c" by (rule contrapos_nn [OF no]) (simp add: digits_address)
  moreover have "\<not> in_cls False [(CHR ''0'', CHR ''4'')] c" by (rule contrapos_nn [OF no]) (simp add: digits_address)
  moreover have "\<not> in_cls False hexChars c" by (rule contrapos_nn [OF no hexChars_address])
  moreover have "\<not> in_cls False (digits @ lower @ upper) c" by (rule contrapos_nn [OF no]) (simp add: address_char_def)
  moreover have "\<not> in_cls False [] c" by (simp add: in_cls_def)
  moreover have "c \<notin> set ''01258fe:.%''" using no literals_address unfolding list_all_iff by blast
  moreover assume "chars IP_REGEX c"
  ultimately show False
    unfolding IP_REGEX_def Let_def h16_def dottedOf_def v4octet_def v4dec_def by (simp del: append_Cons append_Nil rep.simps upTo.simps)
qed

text \<open>
  An accepted address is inert text. A string that passes \<open>isValidIP\<close> is not empty and consists of letters,
  digits, dots, colons and percent signs only; in particular it has no space, quote, slash, leading
  dash or shell metacharacter, so it cannot become an option or a second command where it is passed on.
\<close>

lemma valid_ip_inert:
  assumes "isValidIP ip"
  shows "ip \<noteq> [] \<and> list_all address_char ip \<and> (\<forall>c \<in> set '' -/;&|<>`$!()'' \<union> {CHR 0x22, CHR 0x27, CHR 0x5C, CHR 0x0A, CHR 0x0D}. c \<notin> set ip)"
proof -
  have "list_all address_char ip" using fullmatch_chars IP_REGEX_address assms by (auto simp: isValidIP_def list_all_iff)
  moreover have "ip \<noteq> []"
  proof
    assume "ip = []"
    then have "nullable IP_REGEX" using assms by (simp add: isValidIP_def)
    then show False by code_simp
  qed
  moreover have no: "\<not> address_char c" if "c \<in> set '' -/;&|<>`$!()'' \<union> {CHR 0x22, CHR 0x27, CHR 0x5C, CHR 0x0A, CHR 0x0D}" for c
    using that by (auto simp: address_char_def in_cls_def)
  ultimately show ?thesis unfolding list_all_iff by blast
qed

end
