(* ===== verification/Path_Validation.thy ===== *)
theory Path_Validation
  imports Prelude
begin

text \<open>
  \<open>validatePath\<close> of infrastructure/system/validation.ts. The path functions of @std/path and the real path of
  the file system are parameters, collected in a record; \<open>decodeURIComponent\<close> is modelled on the
  UTF-8 bytes of the string.
\<close>

section \<open>decodeURIComponent\<close>

definition hexNibble :: "char \<Rightarrow> nat option" where
  "hexNibble c = (let b = byte c in
     if 48 \<le> b \<and> b \<le> 57 then Some (b - 48) else if 65 \<le> b \<and> b \<le> 70 then Some (b - 55)
     else if 97 \<le> b \<and> b \<le> 102 then Some (b - 87) else None)"

text \<open>Reads \<open>k\<close> escapes.\<close>

fun escapes :: "nat \<Rightarrow> string \<Rightarrow> (nat list \<times> string) option" where
  "escapes 0 s = Some ([], s)"
| "escapes (Suc k) s = (case s of
     c # a # b # r \<Rightarrow> (if c = CHR ''%'' then
        (case (hexNibble a, hexNibble b) of
           (Some h, Some l) \<Rightarrow> (case escapes k r of None \<Rightarrow> None | Some (bs, r') \<Rightarrow> Some ((h * 16 + l) # bs, r'))
         | _ \<Rightarrow> None) else None)
   | _ \<Rightarrow> None)"

definition leadingLength :: "nat \<Rightarrow> nat" where
  "leadingLength b = (if b < 128 then 1 else if 194 \<le> b \<and> b \<le> 223 then 2 else if 224 \<le> b \<and> b \<le> 239 then 3
     else if 240 \<le> b \<and> b \<le> 244 then 4 else 0)"

text \<open>The continuation bytes of a well-formed sequence: no overlong forms, no surrogates, nothing above
  U+10FFFF.\<close>

definition continues :: "nat \<Rightarrow> nat list \<Rightarrow> bool" where
  "continues b cs \<longleftrightarrow> list_all (\<lambda>c. 128 \<le> c \<and> c \<le> 191) cs \<and>
     (b = 224 \<longrightarrow> 160 \<le> hd cs) \<and> (b = 237 \<longrightarrow> hd cs \<le> 159) \<and> (b = 240 \<longrightarrow> 144 \<le> hd cs) \<and> (b = 244 \<longrightarrow> hd cs \<le> 143)"

definition decodeEscape :: "string \<Rightarrow> (string \<times> string) option" where
  "decodeEscape s = (case escapes 1 s of
     Some ([b], _) \<Rightarrow>
       (if leadingLength b = 0 then None
        else case escapes (leadingLength b) s of
          Some (b' # cs, r) \<Rightarrow> (if b < 128 \<or> continues b cs then Some (map char_of (b' # cs), r) else None)
        | _ \<Rightarrow> None)
   | _ \<Rightarrow> None)"

lemma escapes_length: "escapes k s = Some (bs, r) \<Longrightarrow> length bs = k \<and> length s = 3 * k + length r"
  by (induction k s arbitrary: bs r rule: escapes.induct) (auto split: list.splits option.splits if_splits)

lemma decodeEscape_shorter: "decodeEscape s = Some (t, r) \<Longrightarrow> length r < length s"
proof -
  assume "decodeEscape s = Some (t, r)"
  then obtain k bs where "escapes k s = Some (bs, r)" "bs \<noteq> []"
    by (auto simp: decodeEscape_def split: option.splits list.splits if_splits prod.splits)
  then show ?thesis using escapes_length [of k s bs r] by (cases k) auto
qed

function decodeURIComponent :: "string \<Rightarrow> string option" where
  "decodeURIComponent s = (case s of
     [] \<Rightarrow> Some []
   | c # r \<Rightarrow>
      (if c = CHR ''%'' then
         (case decodeEscape s of
            None \<Rightarrow> None
          | Some (t, r') \<Rightarrow> (case decodeURIComponent r' of None \<Rightarrow> None | Some d \<Rightarrow> Some (t @ d)))
       else (case decodeURIComponent r of None \<Rightarrow> None | Some d \<Rightarrow> Some (c # d))))"
  by pat_completeness auto
termination
  by (relation "measure length") (auto dest: decodeEscape_shorter)

declare decodeURIComponent.simps [simp del]

text \<open>The loop: at most three rounds, an exception leaves the last decoded text.\<close>

function decodeLoop :: "nat \<Rightarrow> string \<Rightarrow> string" where
  "decodeLoop iterations decoded = (case decodeURIComponent decoded of
     None \<Rightarrow> decoded
   | Some d \<Rightarrow> (if d \<noteq> decoded \<and> iterations + 1 < 3 then decodeLoop (iterations + 1) d else d))"
  by pat_completeness auto
termination
  by (relation "measure (\<lambda>(n, d). 3 - n)") auto

declare decodeLoop.simps [simp del]

section \<open>validatePath\<close>

record path_env =
  normalize :: "string \<Rightarrow> string option"
  dirname :: "string \<Rightarrow> string"
  join_path :: "string \<Rightarrow> string \<Rightarrow> string"
  resolve_path :: "string \<Rightarrow> string"
  realPathSync :: "string \<Rightarrow> string option"

text \<open>\<open>normalized.split(/[\\/]/).pop()\<close>.\<close>

definition lastComponent :: "string \<Rightarrow> string" where
  "lastComponent s = rev (takeWhile (\<lambda>c. c \<noteq> CHR ''/'' \<and> c \<noteq> CHR 0x5C) (rev s))"

definition realTarget :: "path_env \<Rightarrow> string \<Rightarrow> string" where
  "realTarget env normalized = (case realPathSync env normalized of
     Some r \<Rightarrow> r
   | None \<Rightarrow> (case realPathSync env (dirname env normalized) of
       Some d \<Rightarrow> join_path env d (lastComponent normalized)
     | None \<Rightarrow> resolve_path env normalized))"

definition withSlash :: "string \<Rightarrow> string" where
  "withSlash s = (if ends_with s ''/'' then s else s @ ''/'')"

definition insideJail :: "path_env \<Rightarrow> string \<Rightarrow> string \<Rightarrow> bool" where
  "insideJail env realPath jail = (let normalizedJail = resolve_path env jail; resolvedP = resolve_path env realPath in
     starts_with (withSlash resolvedP) (withSlash normalizedJail) \<or> resolvedP = normalizedJail)"

definition traversal :: "string \<Rightarrow> bool" where
  "traversal s \<longleftrightarrow> js_includes s ''..'' \<or> starts_with s ''//'' \<or> starts_with s [CHR 0x5C, CHR 0x5C]"

definition validatePath :: "path_env \<Rightarrow> string list option \<Rightarrow> string \<Rightarrow> bool" where
  "validatePath env jailPrefixes p =
    (if p = [] then False
     else (let decoded = decodeLoop 0 p in
       if CHR 0x00 \<in> set decoded \<or> CHR 0x00 \<in> set p then False
       else if traversal decoded \<or> traversal p then False
       else case normalize env p of
         None \<Rightarrow> False
       | Some normalized \<Rightarrow>
          (if js_includes normalized ''..'' then False
           else case jailPrefixes of
             None \<Rightarrow> True
           | Some jails \<Rightarrow> jails = [] \<or> list_ex (insideJail env (realTarget env normalized)) jails)))"

section \<open>What the jail guarantees\<close>

text \<open>The components of an absolute path.\<close>

definition components :: "string \<Rightarrow> string list" where
  "components s = split_char (CHR ''/'') (if ends_with s ''/'' then butlast s else s)"

lemma split_char_Cons_append: "split_char c (a @ c # b) = split_char c a @ split_char c b"
proof (induction a)
  case (Cons x a)
  then show ?case by (cases "split_char c a") (auto split: list.splits)
qed simp

lemma withSlash_components: "\<exists>t. withSlash s = t @ ''/'' \<and> components s = split_char (CHR ''/'') t"
  by (cases "ends_with s ''/''") (auto simp: withSlash_def components_def suffix_def)

lemma starts_with_components:
  assumes "starts_with (withSlash r) (withSlash j)"
  shows "prefix (components j) (components r)"
proof -
  obtain t u where t: "withSlash r = t @ ''/''" "components r = split_char (CHR ''/'') t"
    and u: "withSlash j = u @ ''/''" "components j = split_char (CHR ''/'') u"
    using withSlash_components by blast
  obtain x where x: "t @ ''/'' = u @ ''/'' @ x" using assms t(1) u(1) by (auto simp: prefix_def)
  show ?thesis
  proof (cases x rule: rev_cases)
    case Nil
    then show ?thesis using x t u by simp
  next
    case (snoc y c)
    then have "t = u @ CHR ''/'' # y" using x by simp
    then show ?thesis using t(2) u(2) by (simp add: split_char_Cons_append)
  qed
qed

text \<open>The resolved path lies in the resolved jail, compared by components.\<close>

definition within :: "path_env \<Rightarrow> string \<Rightarrow> string \<Rightarrow> bool" where
  "within env jail t \<longleftrightarrow> prefix (components (resolve_path env jail)) (components (resolve_path env t))"

lemma insideJail_within: "insideJail env t jail \<Longrightarrow> within env jail t"
  using starts_with_components by (auto simp: insideJail_def within_def Let_def)


definition plainEnv :: path_env where
  "plainEnv = \<lparr>normalize = Some, dirname = (\<lambda>s. s), join_path = (\<lambda>a b. a @ ''/'' @ b), resolve_path = (\<lambda>s. s), realPathSync = Some\<rparr>"

lemma plain_tmp: "validatePath plainEnv (Some [''/tmp/'']) ''/tmp/a''"
  by code_simp


text \<open>A link two levels above the last component: \<open>/jail/out\<close> points to \<open>/etc\<close>, and \<open>/etc/cts\<close> does not exist yet.
  The path is accepted, and creating it with its parent directories writes below \<open>/etc\<close>.\<close>

definition linkEnv :: path_env where
  "linkEnv = plainEnv\<lparr>dirname := (\<lambda>s. if s = ''/jail/out/cts/a'' then ''/jail/out/cts'' else s),
     realPathSync := (\<lambda>s. if s = ''/jail'' then Some s else if s = ''/jail/out'' then Some ''/etc'' else None)\<rparr>"

lemma link_above_escapes: "validatePath linkEnv (Some [''/jail'']) ''/jail/out/cts/a''"
  by code_simp

text \<open>A jail that names a file prefix and not a directory admits no file with that prefix.\<close>

lemma prefix_jail_ineffective:
  "\<not> validatePath plainEnv (Some [''/etc/systemd/system/cts-'']) ''/etc/systemd/system/cts-a.service''"
  by code_simp

end
