(* ===== verification/Sidecar_Schemas.thy ===== *)
theory Sidecar_Schemas
  imports Net_Validation Path_Validation
begin

text \<open>
  The request schemas of the sidecars, infrastructure/system/validation.ts. A schema is the term the source
  builds with zod; the library itself is a parameter \<open>safeParse\<close>, and \<open>zod\<close> states what its
  documentation says of the combinators used here. Requests are JSON values; a finite number is given by its
  floor and whether it is an integer.
\<close>

datatype val = VNull | VUndef | VBool bool | VNum int bool | VStr string | VArr "val list" | VObj "(string \<times> val) list"

datatype schema = ZString | ZNumber | ZBoolean | ZUnknown | ZEnum "string list"
  | ZInt schema | ZPositive schema | ZMin int schema | ZMax int schema | ZMaxLen nat schema | ZMinLen nat schema
  | ZRefine "val \<Rightarrow> bool" schema | ZOptional schema | ZNullable schema
  | ZArray schema | ZRecord schema | ZObject "(string \<times> schema) list"

section \<open>The library\<close>

definition field :: "string \<Rightarrow> val \<Rightarrow> val" where
  "field k v = (case v of VObj es \<Rightarrow> (case map_of es k of None \<Rightarrow> VUndef | Some w \<Rightarrow> w) | _ \<Rightarrow> VUndef)"

fun lengthOk :: "(nat \<Rightarrow> bool) \<Rightarrow> val \<Rightarrow> bool" where
  "lengthOk P (VStr s) = P (js_length s)"
| "lengthOk P (VArr vs) = P (length vs)"
| "lengthOk P _ = True"

locale zod =
  fixes safeParse :: "schema \<Rightarrow> val \<Rightarrow> bool"
  assumes string: "safeParse ZString v \<longleftrightarrow> (\<exists>s. v = VStr s)"
    and number: "safeParse ZNumber v \<longleftrightarrow> (\<exists>n b. v = VNum n b)"
    and boolean: "safeParse ZBoolean v \<longleftrightarrow> (\<exists>b. v = VBool b)"
    and unknown: "safeParse ZUnknown v"
    and enum: "safeParse (ZEnum ws) v \<longleftrightarrow> (\<exists>s \<in> set ws. v = VStr s)"
    and int: "safeParse (ZInt s) v \<longleftrightarrow> safeParse s v \<and> (case v of VNum _ b \<Rightarrow> b | _ \<Rightarrow> True)"
    and positive: "safeParse (ZPositive s) v \<longleftrightarrow> safeParse s v \<and> (case v of VNum n b \<Rightarrow> 0 < n \<or> (n = 0 \<and> \<not> b) | _ \<Rightarrow> True)"
    and min: "safeParse (ZMin m s) v \<longleftrightarrow> safeParse s v \<and> (case v of VNum n _ \<Rightarrow> m \<le> n | _ \<Rightarrow> True)"
    and max: "safeParse (ZMax m s) v \<longleftrightarrow> safeParse s v \<and> (case v of VNum n b \<Rightarrow> n < m \<or> (n = m \<and> b) | _ \<Rightarrow> True)"
    and max_length: "safeParse (ZMaxLen l s) v \<longleftrightarrow> safeParse s v \<and> lengthOk (\<lambda>n. n \<le> l) v"
    and min_length: "safeParse (ZMinLen l s) v \<longleftrightarrow> safeParse s v \<and> lengthOk (\<lambda>n. l \<le> n) v"
    and refine: "safeParse (ZRefine P s) v \<longleftrightarrow> safeParse s v \<and> P v"
    and optional: "safeParse (ZOptional s) v \<longleftrightarrow> v = VUndef \<or> safeParse s v"
    and nullable: "safeParse (ZNullable s) v \<longleftrightarrow> v = VNull \<or> safeParse s v"
    and array: "safeParse (ZArray s) v \<longleftrightarrow> (\<exists>vs. v = VArr vs \<and> list_all (safeParse s) vs)"
    and records: "safeParse (ZRecord s) v \<longleftrightarrow> (\<exists>es. v = VObj es \<and> list_all (\<lambda>e. safeParse s (snd e)) es)"
    and object: "safeParse (ZObject fs) v \<longleftrightarrow> (\<exists>es. v = VObj es) \<and> list_all (\<lambda>f. safeParse (snd f) (field (fst f) v)) fs"

text \<open>A checker with these laws, which shows that they are consistent and evaluates schemas.\<close>

fun check :: "schema \<Rightarrow> val \<Rightarrow> bool" where
  "check ZString v = (case v of VStr _ \<Rightarrow> True | _ \<Rightarrow> False)"
| "check ZNumber v = (case v of VNum _ _ \<Rightarrow> True | _ \<Rightarrow> False)"
| "check ZBoolean v = (case v of VBool _ \<Rightarrow> True | _ \<Rightarrow> False)"
| "check ZUnknown v = True"
| "check (ZEnum ws) v = (case v of VStr s \<Rightarrow> s \<in> set ws | _ \<Rightarrow> False)"
| "check (ZInt s) v = (check s v \<and> (case v of VNum _ b \<Rightarrow> b | _ \<Rightarrow> True))"
| "check (ZPositive s) v = (check s v \<and> (case v of VNum n b \<Rightarrow> 0 < n \<or> (n = 0 \<and> \<not> b) | _ \<Rightarrow> True))"
| "check (ZMin m s) v = (check s v \<and> (case v of VNum n _ \<Rightarrow> m \<le> n | _ \<Rightarrow> True))"
| "check (ZMax m s) v = (check s v \<and> (case v of VNum n b \<Rightarrow> n < m \<or> (n = m \<and> b) | _ \<Rightarrow> True))"
| "check (ZMaxLen m s) v = (check s v \<and> lengthOk (\<lambda>n. n \<le> m) v)"
| "check (ZMinLen m s) v = (check s v \<and> lengthOk (\<lambda>n. m \<le> n) v)"
| "check (ZRefine P s) v = (check s v \<and> P v)"
| "check (ZOptional s) v = (v = VUndef \<or> check s v)"
| "check (ZNullable s) v = (v = VNull \<or> check s v)"
| "check (ZArray s) v = (case v of VArr vs \<Rightarrow> list_all (check s) vs | _ \<Rightarrow> False)"
| "check (ZRecord s) v = (case v of VObj es \<Rightarrow> list_all (\<lambda>e. check s (snd e)) es | _ \<Rightarrow> False)"
| "check (ZObject fs) v = (case v of VObj es \<Rightarrow> list_all (\<lambda>(k, s). check s (field k v)) fs | _ \<Rightarrow> False)"

interpretation checker: zod check
  by unfold_locales (simp_all add: list_all_iff split_beta split: val.split)

section \<open>Primitives\<close>

definition asStr :: "(string \<Rightarrow> bool) \<Rightarrow> val \<Rightarrow> bool" where
  "asStr P v = (case v of VStr s \<Rightarrow> P s | _ \<Rightarrow> False)"

record schema_env =
  se_paths :: path_env
  se_gateway :: "string option"

definition IdSchema :: schema where
  "IdSchema = ZOptional (ZNullable ZString)"

definition PidSchema :: schema where
  "PidSchema = ZPositive (ZInt ZNumber)"

definition PortSchema :: schema where
  "PortSchema = ZMax 65535 (ZMin 1 (ZInt ZNumber))"

definition IpSchema :: schema where
  "IpSchema = ZRefine (asStr isValidIP) ZString"

definition PathSchema :: "schema_env \<Rightarrow> string list option \<Rightarrow> schema" where
  "PathSchema env jail = ZRefine (asStr (validatePath (se_paths env) jail)) ZString"

definition INTERFACE_NAME_REGEX :: rx where
  "INTERFACE_NAME_REGEX = plus (cls (lower @ upper @ digits) ''._-'')"

definition SAFE_FILENAME_REGEX :: rx where
  "SAFE_FILENAME_REGEX = plus (cls (lower @ upper @ digits) ''._-'')"

definition InterfaceSchema :: schema where
  "InterfaceSchema = ZRefine (asStr (fullmatch INTERFACE_NAME_REGEX)) ZString"

definition SCANNER_JAIL :: "string list" where
  "SCANNER_JAIL = [''/home/'', ''/var/www/'', ''./volume/'', ''/var/lib/cts/'', ''/tmp/'']"

definition SYSTEM_JAILS_FOR_SIDECARS :: "string list" where
  "SYSTEM_JAILS_FOR_SIDECARS = [''/etc/wireguard/'', ''/var/lib/cts/'', ''./volume/'']"

definition PCAP_JAIL :: "string list" where
  "PCAP_JAIL = [''./volume/storage/captures/'', ''./volume/storage/forensics/'', ''/var/lib/cts/captures/'', ''/var/lib/cts/forensics/'']"

definition AuditEventSchema :: schema where
  "AuditEventSchema = ZObject [(''type'', ZString), (''message'', ZString), (''timestamp'', ZOptional ZString),
     (''data'', ZOptional (ZRecord ZUnknown)), (''severity'', ZOptional ZString), (''caller'', ZOptional ZString)]"

section \<open>Requests\<close>

text \<open>\<open>data.type\<close> is one of the names, and a field is missing.\<close>

definition typeIn :: "string list \<Rightarrow> val \<Rightarrow> bool" where
  "typeIn ws v \<longleftrightarrow> (case field ''type'' v of VStr t \<Rightarrow> t \<in> set ws | _ \<Rightarrow> False)"

definition missing :: "string \<Rightarrow> val \<Rightarrow> bool" where
  "missing k v \<longleftrightarrow> field k v = VUndef"

definition criticalIp :: "schema_env \<Rightarrow> val \<Rightarrow> bool" where
  "criticalIp env v = asStr (isCriticalInfrastructure (se_gateway env)) (field ''ip'' v)"

definition AnalyzerRequestSchema :: "schema_env \<Rightarrow> schema" where
  "AnalyzerRequestSchema env = ZObject [(''id'', IdSchema),
     (''type'', ZEnum [''SCAN'', ''DIR_SCAN'', ''RKH_SCAN'', ''QUIT'', ''MEM_SCAN'', ''ScanPath'', ''Quarantine'', ''SyncSignatures'', ''GetStatus'']),
     (''path'', ZOptional (PathSchema env (Some SCANNER_JAIL))), (''paths'', ZOptional (ZArray (PathSchema env (Some SCANNER_JAIL))))]"

definition EnforcerRequestSchema :: "schema_env \<Rightarrow> schema" where
  "EnforcerRequestSchema env = ZRefine (\<lambda>d.
      if typeIn [''KillProcess'', ''QuarantineProcess'', ''DumpProcess''] d \<and> missing ''pid'' d then False
      else if typeIn [''BlockIp''] d \<and> (missing ''ip'' d \<or> criticalIp env d) then False
      else if typeIn [''UnblockIp''] d \<and> missing ''ip'' d then False else True)
    (ZObject [(''id'', IdSchema),
      (''type'', ZEnum [''KillProcess'', ''BlockIp'', ''UnblockIp'', ''QuarantineProcess'', ''DumpProcess'', ''GetStatus'']),
      (''pid'', ZOptional PidSchema), (''ip'', ZOptional IpSchema), (''path'', ZOptional (PathSchema env None))])"

definition lastPart :: "char \<Rightarrow> string \<Rightarrow> string" where
  "lastPart c s = last (split_char c s)"

definition safePcapName :: "schema_env \<Rightarrow> string \<Rightarrow> bool" where
  "safePcapName env f = (let basename = lastPart (CHR 0x5C) (lastPart (CHR ''/'') f) in
     if \<not> fullmatch SAFE_FILENAME_REGEX basename \<or> basename = ''.'' \<or> basename = ''..'' then False
     else if CHR ''/'' \<notin> set f \<and> CHR 0x5C \<notin> set f then True
     else validatePath (se_paths env) (Some PCAP_JAIL) f)"

definition PcapFilenameSchema :: "schema_env \<Rightarrow> schema" where
  "PcapFilenameSchema env = ZRefine (asStr (safePcapName env)) ZString"

definition NetcapRequestSchema :: "schema_env \<Rightarrow> schema" where
  "NetcapRequestSchema env = ZObject [(''id'', IdSchema), (''type'', ZEnum [''StartCapture'', ''StopCapture'', ''GetStatus'']),
     (''interface'', ZOptional InterfaceSchema), (''duration'', ZOptional (ZMax 3600 (ZMin 1 ZNumber))),
     (''filename'', ZOptional (PcapFilenameSchema env)),
     (''payload'', ZOptional (ZObject [(''interface'', ZOptional InterfaceSchema), (''duration'', ZOptional (ZMax 3600 (ZMin 1 ZNumber))),
        (''filename'', ZOptional (PcapFilenameSchema env))]))]"

definition DecoyRequestSchema :: schema where
  "DecoyRequestSchema = ZObject [(''id'', IdSchema), (''type'', ZEnum [''ToggleModule'', ''UpdateModule'', ''Sabotage'', ''GetStatus'']),
     (''module'', ZOptional ZString), (''port'', ZOptional PortSchema), (''newPort'', ZOptional PortSchema), (''source_ip'', ZOptional IpSchema)]"

definition WatchfileRequestSchema :: "schema_env \<Rightarrow> schema" where
  "WatchfileRequestSchema env = ZObject [(''id'', IdSchema), (''type'', ZEnum [''WatchPath'', ''UnwatchPath'', ''GetStatus'']),
     (''path'', ZOptional (PathSchema env None))]"

definition SentinelRequestSchema :: "schema_env \<Rightarrow> schema" where
  "SentinelRequestSchema env = ZRefine (\<lambda>d.
      if typeIn [''BLOCK_IP''] d \<and> (missing ''ip'' d \<or> criticalIp env d) then False
      else if typeIn [''UNBLOCK_IP'', ''SHADOW_BAN''] d \<and> missing ''ip'' d then False
      else if typeIn [''HIDE_PID'', ''ENFORCE_PID'', ''UNENFORCE_PID'', ''TRUST_PID'', ''KillProcess'', ''QuarantineProcess'', ''DumpProcess''] d \<and> missing ''pid'' d then False
      else if typeIn [''ALLOW_PORT'', ''DENY_PORT''] d \<and> missing ''port'' d then False
      else if typeIn [''TRUST_COMM''] d \<and> missing ''comm'' d then False else True)
    (ZObject [(''id'', IdSchema),
      (''type'', ZEnum [''BLOCK_IP'', ''UNBLOCK_IP'', ''SHADOW_BAN'', ''HIDE_PID'', ''GET_STATUS'', ''ALLOW_PORT'', ''DENY_PORT'', ''FLUSH_RULES'',
         ''LOCKDOWN'', ''SHUTDOWN'', ''TRUST_COMM'', ''TRUST_PID'', ''ENFORCE_PID'', ''UNENFORCE_PID'', ''KillProcess'', ''QuarantineProcess'', ''DumpProcess'']),
      (''ip'', ZOptional IpSchema), (''pid'', ZOptional PidSchema), (''port'', ZOptional PortSchema), (''comm'', ZOptional ZString),
      (''path'', ZOptional (PathSchema env None))])"

definition NvIndexSchema :: schema where
  "NvIndexSchema = ZRefine (asStr (fullmatch (RSeq (lit ''0x'') (rep 1 7 (RCls False hexChars))))) ZString"

definition TrustrootRequestSchema :: schema where
  "TrustrootRequestSchema = ZObject [(''id'', IdSchema),
     (''type'', ZEnum [''Seal'', ''Unseal'', ''Sign'', ''Verify'', ''GetPcrs'', ''NvDefine'', ''NvWrite'', ''NvRead'', ''QuoteIdentity'', ''GenerateSelfSignedCA'',
        ''IssueNodeCert'', ''GenerateProxyKey'', ''SignProxy'', ''WipeSecrets'']),
     (''index'', ZOptional NvIndexSchema), (''data'', ZOptional (ZMaxLen 65536 ZString)), (''signature'', ZOptional (ZMaxLen 8192 ZString)),
     (''auth'', ZOptional (ZMaxLen 256 ZString)), (''size'', ZOptional (ZMax 65536 (ZPositive (ZInt ZNumber)))),
     (''node_id'', ZOptional (ZMaxLen 256 ZString)), (''keyId'', ZOptional (ZMaxLen 256 ZString)),
     (''indices'', ZOptional (ZMaxLen 32 (ZArray (ZMax 31 (ZMin 0 (ZInt ZNumber)))))), (''pcrs'', ZOptional (ZRecord (ZMaxLen 256 ZString)))]"

definition TunnelRequestSchema :: "schema_env \<Rightarrow> schema" where
  "TunnelRequestSchema env = ZObject [(''id'', IdSchema), (''type'', ZEnum [''CONNECT'', ''DISCONNECT'', ''GET_STATUS'']),
     (''payload'', ZOptional (ZObject [(''interface'', ZOptional (ZMaxLen 15 InterfaceSchema)),
        (''config_path'', ZOptional (PathSchema env (Some SYSTEM_JAILS_FOR_SIDECARS)))]))]"

definition SentinelDarwinRequestSchema :: "schema_env \<Rightarrow> schema" where
  "SentinelDarwinRequestSchema env = ZRefine (\<lambda>d.
      if typeIn [''BlockIp''] d \<and> (missing ''ip'' d \<or> criticalIp env d) then False
      else if typeIn [''UnblockIp'', ''ShadowBanIp''] d \<and> missing ''ip'' d then False
      else if typeIn [''AllowPort'', ''DenyPort''] d \<and> missing ''port'' d then False else True)
    (ZObject [(''id'', IdSchema),
      (''type'', ZEnum [''BlockIp'', ''UnblockIp'', ''ShadowBanIp'', ''AllowPort'', ''DenyPort'', ''Lockdown'', ''FlushRules'', ''GetStatus'', ''UpdatePolicy'']),
      (''ip'', ZOptional IpSchema), (''port'', ZOptional PortSchema)])"

definition EnforcerWinRequestSchema :: "schema_env \<Rightarrow> schema" where
  "EnforcerWinRequestSchema env = ZRefine (\<lambda>d.
      if typeIn [''AddBlockRule''] d \<and> (missing ''ip'' d \<or> criticalIp env d) then False
      else if typeIn [''RemoveBlockRule''] d \<and> missing ''ip'' d then False
      else if typeIn [''AddAllowRule'', ''RemoveAllowRule''] d \<and> missing ''port'' d then False else True)
    (ZObject [(''id'', IdSchema),
      (''type'', ZEnum [''AddBlockRule'', ''RemoveBlockRule'', ''AddAllowRule'', ''RemoveAllowRule'', ''ProtectDirectory'', ''GetStatus'', ''FlushRules'']),
      (''ip'', ZOptional IpSchema), (''port'', ZOptional PortSchema)])"

definition FirewallRequestSchema :: schema where
  "FirewallRequestSchema = ZRefine (\<lambda>d.
      if typeIn [''KillProcess'', ''QuarantineProcess'', ''DumpProcess''] d \<and> missing ''pid'' d then False
      else if typeIn [''BlockIp'', ''UnblockIp''] d \<and> missing ''ip'' d then False
      else if typeIn [''AllowPort'', ''DenyPort''] d \<and> missing ''port'' d then False else True)
    (ZObject [(''id'', IdSchema),
      (''type'', ZEnum [''KillProcess'', ''BlockIp'', ''UnblockIp'', ''QuarantineProcess'', ''DumpProcess'', ''GetStatus'', ''FlushRules'', ''Lockdown'', ''AllowPort'', ''DenyPort'']),
      (''pid'', ZOptional PidSchema), (''ip'', ZOptional IpSchema), (''port'', ZOptional PortSchema), (''protocol'', ZOptional (ZEnum [''tcp'', ''udp'']))])"

definition TelemetryWinRequestSchema :: schema where
  "TelemetryWinRequestSchema = ZObject [(''id'', IdSchema), (''type'', ZEnum [''GetStatus'', ''Shutdown''])]"

definition MeshRequestSchema :: schema where
  "MeshRequestSchema = ZObject [(''id'', IdSchema),
     (''type'', ZEnum [''GOSSIP_BLOCK'', ''GOSSIP_THREAT_HASH'', ''GOSSIP_AUDIT'', ''GOSSIP_LOCKDOWN'', ''GOSSIP_AUDIT_VERIFY'', ''MERKLE_CATCH_UP'',
        ''FETCH_STATE'', ''REQUEST_APPROVAL'', ''GET_AUDIT_STATUS'', ''GET_STATUS'']),
     (''ip'', ZOptional IpSchema), (''hash'', ZOptional ZString), (''events'', ZOptional (ZArray AuditEventSchema)), (''sourceNode'', ZOptional ZString),
     (''lastKnownHash'', ZOptional ZString), (''nodeId'', ZOptional ZString),
     (''payload'', ZOptional (ZObject [(''action'', ZString), (''data'', ZOptional (ZRecord ZUnknown)), (''nodeId'', ZString), (''timestamp'', ZNumber)])),
     (''signature'', ZOptional ZString)]"

definition REQUEST_SCHEMAS :: "schema_env \<Rightarrow> (string \<times> schema) list" where
  "REQUEST_SCHEMAS env = [(''analyzer'', AnalyzerRequestSchema env), (''enforcer'', EnforcerRequestSchema env), (''netcap'', NetcapRequestSchema env),
     (''decoy'', DecoyRequestSchema), (''watchfile'', WatchfileRequestSchema env), (''sentinel'', SentinelRequestSchema env),
     (''trustroot'', TrustrootRequestSchema), (''tunnel'', TunnelRequestSchema env), (''sentinel-darwin'', SentinelDarwinRequestSchema env),
     (''enforcer-win'', EnforcerWinRequestSchema env), (''firewall'', FirewallRequestSchema), (''telemetry-win'', TelemetryWinRequestSchema),
     (''mesh'', MeshRequestSchema)]"

definition ALLOWED_SIDECARS :: "string list" where
  "ALLOWED_SIDECARS = [''analyzer'', ''enforcer'', ''decoy'', ''netcap'', ''watchfile'', ''trustroot'', ''tunnel'', ''mesh'', ''firewall'', ''sentinel-darwin'',
     ''enforcer-win'', ''telemetry-win'', ''sentinel'']"

definition isAllowedSidecar :: "string \<Rightarrow> bool" where
  "isAllowedSidecar name \<longleftrightarrow> name \<in> set ALLOWED_SIDECARS"

definition SidecarResponseSchema :: schema where
  "SidecarResponseSchema = ZObject [(''id'', IdSchema), (''success'', ZOptional ZBoolean), (''message'', ZOptional ZString), (''stdout'', ZOptional ZString),
     (''stderr'', ZOptional ZString), (''data'', ZOptional (ZNullable (ZRecord ZUnknown))), (''timestamp'', ZOptional ZString), (''event'', ZOptional ZString),
     (''type'', ZOptional ZString), (''sidecar'', ZOptional ZString), (''critical'', ZOptional ZBoolean), (''error'', ZOptional ZString)]"

definition validateRequest :: "(schema \<Rightarrow> val \<Rightarrow> bool) \<Rightarrow> schema_env \<Rightarrow> string \<Rightarrow> val \<Rightarrow> bool" where
  "validateRequest safeParse env sidecar req = (case map_of (REQUEST_SCHEMAS env) sidecar of
     None \<Rightarrow> False
   | Some s \<Rightarrow> safeParse s req)"

text \<open>A truthy \<open>event\<close> field lets the response pass.\<close>

fun truthyVal :: "val \<Rightarrow> bool" where
  "truthyVal VNull = False"
| "truthyVal VUndef = False"
| "truthyVal (VBool b) = b"
| "truthyVal (VNum n b) = (\<not> (n = 0 \<and> b))"
| "truthyVal (VStr s) = (s \<noteq> [])"
| "truthyVal _ = True"

definition validateResponse :: "(schema \<Rightarrow> val \<Rightarrow> bool) \<Rightarrow> val \<Rightarrow> bool" where
  "validateResponse safeParse res = (truthyVal (field ''event'' res) \<or>
     (safeParse SidecarResponseSchema res \<and> (case field ''success'' res of VBool _ \<Rightarrow> True | _ \<Rightarrow> False)))"

section \<open>What accepted requests contain\<close>

text \<open>What an optional field holds: a text with a property, a positive integer, a port, an array of texts.\<close>

definition optStr :: "(string \<Rightarrow> bool) \<Rightarrow> val \<Rightarrow> bool" where
  "optStr P w \<longleftrightarrow> w = VUndef \<or> (\<exists>s. w = VStr s \<and> P s)"

definition optPid :: "val \<Rightarrow> bool" where
  "optPid w \<longleftrightarrow> w = VUndef \<or> (\<exists>n. w = VNum n True \<and> 0 < n)"

definition optPort :: "val \<Rightarrow> bool" where
  "optPort w \<longleftrightarrow> w = VUndef \<or> (\<exists>n. w = VNum n True \<and> 1 \<le> n \<and> n \<le> 65535)"

definition optStrs :: "(string \<Rightarrow> bool) \<Rightarrow> val \<Rightarrow> bool" where
  "optStrs P w \<longleftrightarrow> w = VUndef \<or> (\<exists>vs. w = VArr vs \<and> (\<forall>v \<in> set vs. \<exists>s. v = VStr s \<and> P s))"

text \<open>The condition on each field that a request schema declares, by the name of the field.\<close>

definition fieldOk :: "schema_env \<Rightarrow> string \<Rightarrow> string \<Rightarrow> val \<Rightarrow> bool" where
  "fieldOk env sidecar k w \<longleftrightarrow>
    (k = ''ip'' \<or> k = ''source_ip'' \<longrightarrow> optStr isValidIP w) \<and>
    (k = ''pid'' \<longrightarrow> optPid w) \<and>
    (k = ''port'' \<or> k = ''newPort'' \<longrightarrow> optPort w) \<and>
    (k = ''interface'' \<longrightarrow> optStr (fullmatch INTERFACE_NAME_REGEX) w) \<and>
    (k = ''path'' \<longrightarrow> optStr (validatePath (se_paths env) (if sidecar = ''analyzer'' then Some SCANNER_JAIL else None)) w) \<and>
    (k = ''paths'' \<longrightarrow> optStrs (validatePath (se_paths env) (Some SCANNER_JAIL)) w) \<and>
    (k = ''filename'' \<longrightarrow> optStr (safePcapName env) w) \<and>
    (k = ''payload'' \<and> sidecar = ''netcap'' \<and> w \<noteq> VUndef \<longrightarrow>
       optStr (safePcapName env) (field ''filename'' w) \<and> optStr (fullmatch INTERFACE_NAME_REGEX) (field ''interface'' w)) \<and>
    (k = ''payload'' \<and> sidecar = ''tunnel'' \<and> w \<noteq> VUndef \<longrightarrow>
       optStr (validatePath (se_paths env) (Some SYSTEM_JAILS_FOR_SIDECARS)) (field ''config_path'' w) \<and>
       optStr (fullmatch INTERFACE_NAME_REGEX) (field ''interface'' w))"

lemma fieldOk_ip: "fieldOk env sidecar ''ip'' w \<Longrightarrow> optStr isValidIP w"
  by (simp add: fieldOk_def)

text \<open>The field that a request of the given type must carry.\<close>

definition requiredFields :: "(string \<times> string list) list" where
  "requiredFields =
    [(''ip'', [''BlockIp'', ''UnblockIp'', ''BLOCK_IP'', ''UNBLOCK_IP'', ''SHADOW_BAN'', ''ShadowBanIp'', ''AddBlockRule'', ''RemoveBlockRule'']),
     (''pid'', [''KillProcess'', ''QuarantineProcess'', ''DumpProcess'', ''HIDE_PID'', ''ENFORCE_PID'', ''UNENFORCE_PID'', ''TRUST_PID'']),
     (''port'', [''ALLOW_PORT'', ''DENY_PORT'', ''AllowPort'', ''DenyPort'', ''AddAllowRule'', ''RemoveAllowRule'']),
     (''comm'', [''TRUST_COMM''])]"

text \<open>The object below the refinement of a request schema, and the fields it declares.\<close>

fun requestFields :: "schema \<Rightarrow> (string \<times> schema) list" where
  "requestFields (ZRefine P s) = requestFields s"
| "requestFields (ZObject fs) = fs"
| "requestFields _ = []"

context zod
begin

lemma ip_field: "safeParse (ZOptional IpSchema) w \<Longrightarrow> optStr isValidIP w"
  unfolding optional IpSchema_def refine string optStr_def by (auto simp: asStr_def)

lemma pid_field: "safeParse (ZOptional PidSchema) w \<Longrightarrow> optPid w"
  unfolding optional PidSchema_def int positive number optPid_def by auto

lemma port_field: "safeParse (ZOptional PortSchema) w \<Longrightarrow> optPort w"
  unfolding optional PortSchema_def int min max number optPort_def by auto

lemma path_field: "safeParse (ZOptional (PathSchema env jail)) w \<Longrightarrow> optStr (validatePath (se_paths env) jail) w"
  unfolding optional PathSchema_def refine string optStr_def by (auto simp: asStr_def)

lemma paths_field: "safeParse (ZOptional (ZArray (PathSchema env jail))) w \<Longrightarrow> optStrs (validatePath (se_paths env) jail) w"
proof -
  have el: "safeParse (PathSchema env jail) v \<Longrightarrow> \<exists>s. v = VStr s \<and> validatePath (se_paths env) jail s" for v
    unfolding PathSchema_def refine string by (auto simp: asStr_def)
  assume "safeParse (ZOptional (ZArray (PathSchema env jail))) w"
  then show ?thesis unfolding optional array optStrs_def list_all_iff using el by blast
qed

lemma pcap_field: "safeParse (ZOptional (PcapFilenameSchema env)) w \<Longrightarrow> optStr (safePcapName env) w"
  unfolding optional PcapFilenameSchema_def refine string optStr_def by (auto simp: asStr_def)

lemma interface_field: "safeParse (ZOptional InterfaceSchema) w \<Longrightarrow> optStr (fullmatch INTERFACE_NAME_REGEX) w"
  unfolding optional InterfaceSchema_def refine string optStr_def by (auto simp: asStr_def)

lemma short_interface_field: "safeParse (ZOptional (ZMaxLen l InterfaceSchema)) w \<Longrightarrow> optStr (fullmatch INTERFACE_NAME_REGEX) w"
  unfolding optional max_length by (rule interface_field) (auto simp: optional)

lemma object_field: "safeParse (ZObject fs) v \<Longrightarrow> (k, s) \<in> set fs \<Longrightarrow> safeParse s (field k v)"
  unfolding object list_all_iff by force

lemma request_field: "safeParse s v \<Longrightarrow> (k, t) \<in> set (requestFields s) \<Longrightarrow> safeParse t (field k v)"
  by (induction s rule: requestFields.induct) (simp_all add: refine object_field)

lemma accepted_field:
  assumes "validateRequest safeParse env sidecar req" and "map_of (REQUEST_SCHEMAS env) sidecar = Some s"
    and "(k, t) \<in> set (requestFields s)"
  shows "safeParse t (field k req)"
  using assms request_field by (simp add: validateRequest_def)

end

lemmas schema_defs = REQUEST_SCHEMAS_def AnalyzerRequestSchema_def EnforcerRequestSchema_def NetcapRequestSchema_def DecoyRequestSchema_def
  WatchfileRequestSchema_def SentinelRequestSchema_def TrustrootRequestSchema_def TunnelRequestSchema_def SentinelDarwinRequestSchema_def
  EnforcerWinRequestSchema_def FirewallRequestSchema_def TelemetryWinRequestSchema_def MeshRequestSchema_def

text \<open>The schema that each declared field has.\<close>

definition declared :: "schema_env \<Rightarrow> string \<Rightarrow> string \<Rightarrow> schema \<Rightarrow> bool" where
  "declared env sidecar k t \<longleftrightarrow>
    (k = ''ip'' \<or> k = ''source_ip'' \<longrightarrow> t = ZOptional IpSchema) \<and> (k = ''pid'' \<longrightarrow> t = ZOptional PidSchema) \<and>
    (k = ''port'' \<or> k = ''newPort'' \<longrightarrow> t = ZOptional PortSchema) \<and> (k = ''interface'' \<longrightarrow> t = ZOptional InterfaceSchema) \<and>
    (k = ''path'' \<longrightarrow> t = ZOptional (PathSchema env (if sidecar = ''analyzer'' then Some SCANNER_JAIL else None))) \<and>
    (k = ''paths'' \<longrightarrow> t = ZOptional (ZArray (PathSchema env (Some SCANNER_JAIL)))) \<and>
    (k = ''filename'' \<longrightarrow> t = ZOptional (PcapFilenameSchema env)) \<and>
    (k = ''payload'' \<and> sidecar = ''netcap'' \<longrightarrow> (\<exists>d. t = ZOptional (ZObject [(''interface'', ZOptional InterfaceSchema), d,
       (''filename'', ZOptional (PcapFilenameSchema env))]))) \<and>
    (k = ''payload'' \<and> sidecar = ''tunnel'' \<longrightarrow> t = ZOptional (ZObject [(''interface'', ZOptional (ZMaxLen 15 InterfaceSchema)),
       (''config_path'', ZOptional (PathSchema env (Some SYSTEM_JAILS_FOR_SIDECARS)))]))"

lemma schema_cases:
  assumes "map_of (REQUEST_SCHEMAS env) sidecar = Some s"
  shows "(sidecar, s) \<in> set (REQUEST_SCHEMAS env)"
  using assms by (rule map_of_SomeD)

lemma all_declared: "list_all (\<lambda>(sidecar, s). list_all (\<lambda>(k, t). declared env sidecar k t) (requestFields s)) (REQUEST_SCHEMAS env)"
  by (simp add: schema_defs declared_def)

context zod
begin

lemma netcap_payload:
  assumes "safeParse (ZOptional (ZObject [(''interface'', ZOptional InterfaceSchema), d, (''filename'', ZOptional (PcapFilenameSchema env))])) w"
    and "w \<noteq> VUndef"
  shows "optStr (safePcapName env) (field ''filename'' w) \<and> optStr (fullmatch INTERFACE_NAME_REGEX) (field ''interface'' w)"
  using assms pcap_field interface_field by (simp add: optional object)

lemma tunnel_payload:
  assumes "safeParse (ZOptional (ZObject [(''interface'', ZOptional (ZMaxLen 15 InterfaceSchema)), (''config_path'', ZOptional (PathSchema env jails))])) w"
    and "w \<noteq> VUndef"
  shows "optStr (validatePath (se_paths env) jails) (field ''config_path'' w) \<and> optStr (fullmatch INTERFACE_NAME_REGEX) (field ''interface'' w)"
proof -
  have "safeParse (ZOptional (ZMaxLen 15 InterfaceSchema)) (field ''interface'' w)" "safeParse (ZOptional (PathSchema env jails)) (field ''config_path'' w)"
    using assms unfolding optional [of "ZObject _"] object by simp_all
  then show ?thesis using short_interface_field path_field by blast
qed

lemma declared_ok:
  assumes "declared env sidecar k t" and p: "safeParse t w"
  shows "fieldOk env sidecar k w"
  using assms(1) unfolding declared_def fieldOk_def
proof (elim conjE, intro conjI impI)
  assume "k = ''ip'' \<or> k = ''source_ip'' \<longrightarrow> t = ZOptional IpSchema" and "k = ''ip'' \<or> k = ''source_ip''"
  then have "t = ZOptional IpSchema" by (rule mp)
  with p show "optStr isValidIP w" by (simp only: ip_field)
next
  assume "k = ''pid'' \<longrightarrow> t = ZOptional PidSchema" and "k = ''pid''"
  then have "t = ZOptional PidSchema" by (rule mp)
  with p show "optPid w" by (simp only: pid_field)
next
  assume "k = ''port'' \<or> k = ''newPort'' \<longrightarrow> t = ZOptional PortSchema" and "k = ''port'' \<or> k = ''newPort''"
  then have "t = ZOptional PortSchema" by (rule mp)
  with p show "optPort w" by (simp only: port_field)
next
  assume "k = ''interface'' \<longrightarrow> t = ZOptional InterfaceSchema" and "k = ''interface''"
  then have "t = ZOptional InterfaceSchema" by (rule mp)
  with p show "optStr (fullmatch INTERFACE_NAME_REGEX) w" by (simp only: interface_field)
next
  let ?j = "if sidecar = ''analyzer'' then Some SCANNER_JAIL else None"
  assume "k = ''path'' \<longrightarrow> t = ZOptional (PathSchema env ?j)" and "k = ''path''"
  then have "t = ZOptional (PathSchema env ?j)" by (rule mp)
  then show "optStr (validatePath (se_paths env) ?j) w" using p path_field [of env ?j w] by (simp only:)
next
  assume "k = ''paths'' \<longrightarrow> t = ZOptional (ZArray (PathSchema env (Some SCANNER_JAIL)))" and "k = ''paths''"
  then have "t = ZOptional (ZArray (PathSchema env (Some SCANNER_JAIL)))" by (rule mp)
  with p show "optStrs (validatePath (se_paths env) (Some SCANNER_JAIL)) w" by (simp only: paths_field)
next
  assume "k = ''filename'' \<longrightarrow> t = ZOptional (PcapFilenameSchema env)" and "k = ''filename''"
  then have "t = ZOptional (PcapFilenameSchema env)" by (rule mp)
  with p show "optStr (safePcapName env) w" by (simp only: pcap_field)
next
  assume k: "k = ''payload'' \<and> sidecar = ''netcap'' \<and> w \<noteq> VUndef" and "k = ''payload'' \<and> sidecar = ''netcap'' \<longrightarrow>
    (\<exists>d. t = ZOptional (ZObject [(''interface'', ZOptional InterfaceSchema), d, (''filename'', ZOptional (PcapFilenameSchema env))]))"
  then obtain d where "t = ZOptional (ZObject [(''interface'', ZOptional InterfaceSchema), d, (''filename'', ZOptional (PcapFilenameSchema env))])" by blast
  then have "optStr (safePcapName env) (field ''filename'' w) \<and> optStr (fullmatch INTERFACE_NAME_REGEX) (field ''interface'' w)"
    using p netcap_payload [of d env w, OF _ k [THEN conjunct2, THEN conjunct2]] by (simp only:)
  then show "optStr (safePcapName env) (field ''filename'' w)" "optStr (fullmatch INTERFACE_NAME_REGEX) (field ''interface'' w)" by - (elim conjE, assumption)+
next
  assume k: "k = ''payload'' \<and> sidecar = ''tunnel'' \<and> w \<noteq> VUndef" and "k = ''payload'' \<and> sidecar = ''tunnel'' \<longrightarrow>
    t = ZOptional (ZObject [(''interface'', ZOptional (ZMaxLen 15 InterfaceSchema)),
       (''config_path'', ZOptional (PathSchema env (Some SYSTEM_JAILS_FOR_SIDECARS)))])"
  then have "t = ZOptional (ZObject [(''interface'', ZOptional (ZMaxLen 15 InterfaceSchema)),
       (''config_path'', ZOptional (PathSchema env (Some SYSTEM_JAILS_FOR_SIDECARS)))])" by satx
  then have "optStr (validatePath (se_paths env) (Some SYSTEM_JAILS_FOR_SIDECARS)) (field ''config_path'' w) \<and>
      optStr (fullmatch INTERFACE_NAME_REGEX) (field ''interface'' w)"
    using p tunnel_payload [of env "Some SYSTEM_JAILS_FOR_SIDECARS" w, OF _ k [THEN conjunct2, THEN conjunct2]] by (simp only:)
  then show "optStr (validatePath (se_paths env) (Some SYSTEM_JAILS_FOR_SIDECARS)) (field ''config_path'' w)"
    "optStr (fullmatch INTERFACE_NAME_REGEX) (field ''interface'' w)" by - (elim conjE, assumption)+
qed

lemma request_type:
  assumes "validateRequest safeParse env sidecar req"
  obtains s ws t where "(sidecar, s) \<in> set (REQUEST_SCHEMAS env)" and "safeParse s req"
    and "(''type'', ZEnum ws) \<in> set (requestFields s)" and "t \<in> set ws" and "field ''type'' req = VStr t"
proof -
  obtain s where s: "map_of (REQUEST_SCHEMAS env) sidecar = Some s" "safeParse s req"
    using assms by (auto simp: validateRequest_def split: option.splits)
  have "list_all (\<lambda>(c, s). \<exists>ws. (''type'', ZEnum ws) \<in> set (requestFields s)) (REQUEST_SCHEMAS env)" by (simp add: schema_defs)
  then obtain ws where ws: "(''type'', ZEnum ws) \<in> set (requestFields s)"
    using schema_cases [OF s(1)] by (auto simp: list_all_iff)
  show ?thesis using that [OF schema_cases [OF s(1)] s(2) ws] request_field [OF s(2) ws] enum by auto
qed

end

text \<open>The condition of a request schema beyond its fields, and what it demands for a type.\<close>

fun refinement :: "schema \<Rightarrow> val \<Rightarrow> bool" where
  "refinement (ZRefine P s) v = P v"
| "refinement _ v = True"

definition demands :: "schema_env \<Rightarrow> string \<Rightarrow> schema \<Rightarrow> string \<Rightarrow> val \<Rightarrow> bool" where
  "demands env sidecar s t v \<longleftrightarrow> (refinement s v \<longrightarrow>
    (\<forall>(k, ts) \<in> set requiredFields. t \<in> set ts \<longrightarrow> field k v \<noteq> VUndef) \<and>
    (sidecar \<noteq> ''firewall'' \<and> t \<in> {''BlockIp'', ''BLOCK_IP'', ''AddBlockRule''} \<longrightarrow> \<not> criticalIp env v))"

lemma all_demand:
  assumes "field ''type'' v = VStr t"
  shows "list_all (\<lambda>(sidecar, s). list_all (\<lambda>(k, u). case u of ZEnum ws \<Rightarrow> t \<in> set ws \<longrightarrow> k = ''type'' \<longrightarrow> demands env sidecar s t v | _ \<Rightarrow> True)
    (requestFields s)) (REQUEST_SCHEMAS env)"
proof -
  have ty: "typeIn ws v \<longleftrightarrow> t \<in> set ws" for ws by (simp add: typeIn_def assms)
  show ?thesis
    by (auto simp: schema_defs demands_def requiredFields_def ty missing_def IdSchema_def split: if_splits)
qed

lemma demands_request:
  assumes "zod safeParse" and "validateRequest safeParse env sidecar req" and "field ''type'' req = VStr t"
  shows "(\<forall>(k, ts) \<in> set requiredFields. t \<in> set ts \<longrightarrow> field k req \<noteq> VUndef) \<and>
    (sidecar \<noteq> ''firewall'' \<and> t \<in> {''BlockIp'', ''BLOCK_IP'', ''AddBlockRule''} \<longrightarrow> \<not> criticalIp env req)"
proof -
  obtain s ws where s: "(sidecar, s) \<in> set (REQUEST_SCHEMAS env)" "safeParse s req" "(''type'', ZEnum ws) \<in> set (requestFields s)" "t \<in> set ws"
    using zod.request_type [OF assms(1,2)] assms(3) by (metis val.inject(3))
  have "refinement s req" using s(2) zod.refine [OF assms(1)] by (cases s) auto
  then show ?thesis using all_demand [OF assms(3), of env] s(1,3,4) by (fastforce simp: list_all_iff demands_def)
qed

lemma blocks_declare_ip:
  assumes "zod safeParse" and "validateRequest safeParse env sidecar req" and "map_of (REQUEST_SCHEMAS env) sidecar = Some s"
    and "field ''type'' req = VStr t" and "t \<in> {''BlockIp'', ''BLOCK_IP'', ''AddBlockRule''}"
  shows "''ip'' \<in> fst ` set (requestFields s)"
proof -
  have all: "list_all (\<lambda>(c, s). list_all (\<lambda>(k, u). k = ''type'' \<longrightarrow> (case u of ZEnum ws \<Rightarrow> t \<in> set ws \<longrightarrow> ''ip'' \<in> fst ` set (requestFields s) | _ \<Rightarrow> True))
      (requestFields s)) (REQUEST_SCHEMAS env)"
    using assms(5) by (auto simp: schema_defs)
  obtain s' ws where s: "(sidecar, s') \<in> set (REQUEST_SCHEMAS env)" "safeParse s' req" "(''type'', ZEnum ws) \<in> set (requestFields s')" "t \<in> set ws"
    using zod.request_type [OF assms(1,2)] assms(4) by (metis val.inject(3))
  have "distinct (map fst (REQUEST_SCHEMAS env))" by (simp add: REQUEST_SCHEMAS_def)
  then have "s' = s" using s(1) assms(3) by (metis map_of_is_SomeI option.inject)
  then show ?thesis using all s by (fastforce simp: list_all_iff)
qed


definition sampleEnv :: schema_env where
  "sampleEnv = \<lparr>se_paths = plainEnv, se_gateway = None\<rparr>"

lemma sample_block: "validateRequest check sampleEnv ''sentinel'' (VObj [(''type'', VStr ''BLOCK_IP''), (''ip'', VStr ''::2'')])"
proof -
  have v: "isValidIP ''::2''" by code_simp
  have "\<not> isCriticalInfrastructure None ''::2''" by (simp add: critical_exact_list CRITICAL_IPS_def)
  then show ?thesis
    using v by (simp add: validateRequest_def REQUEST_SCHEMAS_def SentinelRequestSchema_def IdSchema_def PidSchema_def PortSchema_def IpSchema_def
      PathSchema_def typeIn_def missing_def criticalIp_def asStr_def sampleEnv_def field_def)
qed


text \<open>The firewall sidecar has no such test: a request to block the loopback address is accepted.\<close>

lemma firewall_blocks_loopback:
  "validateRequest check env ''firewall'' (VObj [(''type'', VStr ''BlockIp''), (''ip'', VStr ''::1'')])"
proof -
  have "isValidIP ''::1''" by code_simp
  then show ?thesis
    by (simp add: validateRequest_def REQUEST_SCHEMAS_def FirewallRequestSchema_def IdSchema_def PidSchema_def PortSchema_def IpSchema_def
      typeIn_def missing_def asStr_def field_def)
qed

end
