(* ===== verification/Json_Parse.thy ===== *)
theory Json_Parse
  imports Json Path_Validation Regex
begin

text \<open>
  \<open>JSON.parse\<close> as the sources use it: the grammar of ECMA-404 over the bytes of a string, \<^const>\<open>None\<close>
  where the function throws. A number keeps its literal, whose value no caller inspects. Of
  entries with equal keys the last value stays, at the place of the first.
\<close>

section \<open>Scalars\<close>

definition jsonSpace :: "char \<Rightarrow> bool" where
  "jsonSpace c \<longleftrightarrow> c \<in> {CHR '' '', CHR 0x09, CHR 0x0A, CHR 0x0D}"

abbreviation skip :: "string \<Rightarrow> string" where
  "skip \<equiv> dropWhile jsonSpace"

lemma length_skip: "length (skip s) \<le> length s"
  by (rule length_dropWhile_le)

definition utf8 :: "nat \<Rightarrow> string" where
  "utf8 u = (if u < 128 then [char_of u]
     else if u < 2048 then [char_of (192 + u div 64), char_of (128 + u mod 64)]
     else if u < 65536 then [char_of (224 + u div 4096), char_of (128 + u div 64 mod 64), char_of (128 + u mod 64)]
     else [char_of (240 + u div 262144), char_of (128 + u div 4096 mod 64), char_of (128 + u div 64 mod 64), char_of (128 + u mod 64)])"

text \<open>Four hexadecimal digits.\<close>

fun hex4 :: "string \<Rightarrow> (nat \<times> string) option" where
  "hex4 (a # b # c # d # r) = (case (hexNibble a, hexNibble b, hexNibble c, hexNibble d) of
      (Some w, Some x, Some y, Some z) \<Rightarrow> Some (((w * 16 + x) * 16 + y) * 16 + z, r)
    | _ \<Rightarrow> None)"
| "hex4 _ = None"

definition simpleEscape :: "char \<Rightarrow> char option" where
  "simpleEscape = map_of [(CHR 0x22, CHR 0x22), (CHR 0x5C, CHR 0x5C), (CHR ''/'', CHR ''/''), (CHR ''b'', CHR 0x08), (CHR ''f'', CHR 0x0C),
     (CHR ''n'', CHR 0x0A), (CHR ''r'', CHR 0x0D), (CHR ''t'', CHR 0x09)]"

text \<open>What follows a backslash; a pair of surrogate escapes is one code point.\<close>

definition lowSurrogate :: "string \<Rightarrow> (nat \<times> string) option" where
  "lowSurrogate r = (if starts_with r [CHR 0x5C, CHR ''u''] then
     (case hex4 (drop 2 r) of Some (v, r') \<Rightarrow> if 56320 \<le> v \<and> v < 57344 then Some (v, r') else None | None \<Rightarrow> None)
   else None)"

definition readEscape :: "string \<Rightarrow> (string \<times> string) option" where
  "readEscape s = (case s of [] \<Rightarrow> None
   | c # r \<Rightarrow>
      (if c = CHR ''u'' then
         (case hex4 r of None \<Rightarrow> None
          | Some (u, r') \<Rightarrow>
             (case (if 55296 \<le> u \<and> u < 56320 then lowSurrogate r' else None) of
                Some (v, r'') \<Rightarrow> Some (utf8 (65536 + (u - 55296) * 1024 + (v - 56320)), r'')
              | None \<Rightarrow> Some (utf8 u, r')))
       else case simpleEscape c of Some d \<Rightarrow> Some ([d], r) | None \<Rightarrow> None))"

lemma hex4_shorter: "hex4 s = Some (u, r) \<Longrightarrow> length r < length s"
  by (cases s rule: hex4.cases) (auto split: option.splits)

lemma lowSurrogate_shorter: "lowSurrogate s = Some (u, r) \<Longrightarrow> length r < length s"
  using hex4_shorter by (fastforce simp: lowSurrogate_def split: if_splits option.splits)

lemma readEscape_shorter:
  assumes "readEscape s = Some (t, r)"
  shows "length r < length s"
proof (cases s)
  case (Cons c s')
  show ?thesis
  proof (cases "c = CHR ''u''")
    case True
    then obtain u r' where h: "hex4 s' = Some (u, r')" using assms Cons by (auto simp: readEscape_def split: option.splits)
    have "r = r' \<or> (\<exists>v. lowSurrogate r' = Some (v, r))"
      using assms Cons True h by (auto simp: readEscape_def split: option.splits if_splits)
    then show ?thesis using hex4_shorter [OF h] lowSurrogate_shorter [of r' _ r] Cons by auto
  qed (use assms Cons in \<open>auto simp: readEscape_def split: option.splits\<close>)
qed (use assms in \<open>simp add: readEscape_def\<close>)

text \<open>The characters of a string up to its closing quote.\<close>

function readString :: "string \<Rightarrow> (string \<times> string) option" where
  "readString s = (case s of [] \<Rightarrow> None
   | c # r \<Rightarrow>
      (if c = CHR 0x22 then Some ([], r)
       else if byte c < 32 then None
       else if c = CHR 0x5C then
         (case readEscape r of None \<Rightarrow> None
          | Some (t, r') \<Rightarrow> map_option (\<lambda>(u, q). (t @ u, q)) (readString r'))
       else map_option (\<lambda>(u, q). (c # u, q)) (readString r)))"
  by pat_completeness auto
termination
  by (relation "measure length") (auto dest: readEscape_shorter)

declare readString.simps [simp del]

definition NUMBER :: rx where
  "NUMBER = seqs [opt (chr (CHR ''-'')), RAlt (chr (CHR ''0'')) (RSeq (cls [(CHR ''1'', CHR ''9'')] []) (RStar (cls digits []))),
     opt (RSeq (chr (CHR ''.'')) (plus (cls digits []))), opt (seqs [cls [] ''eE'', opt (cls [] ''+-''), plus (cls digits [])])]"

text \<open>A literal that is not a string. A number ends where no character of a number follows.\<close>

definition readWord :: "string \<Rightarrow> (json \<times> string) option" where
  "readWord s =
    (if starts_with s ''true'' then Some (JBool True, drop 4 s)
     else if starts_with s ''false'' then Some (JBool False, drop 5 s)
     else if starts_with s ''null'' then Some (JNull, drop 4 s)
     else let n = takeWhile (\<lambda>c. c \<in> set ''0123456789+-.eE'') s in
       if fullmatch NUMBER n then Some (JNum n, drop (length n) s) else None)"

section \<open>Values\<close>

lemma skip_bounds:
  "length q < n \<Longrightarrow> Suc (2 * length (skip q)) \<le> 2 * n" "length q \<le> n \<Longrightarrow> 2 * length (skip q) \<le> Suc (2 * n)"
  "length q \<le> n \<Longrightarrow> 2 * length (skip (drop (Suc 0) (skip q))) \<le> Suc (Suc (2 * n))"
  using length_skip [of q] length_skip [of "drop (Suc 0) (skip q)"] by simp_all

text \<open>\<open>parseElements\<close> reads a value and what follows it up to the closing bracket; \<open>parseMembers\<close> the
  same for the entries of an object. The comparison of lengths always succeeds.\<close>

function parseValue :: "string \<Rightarrow> (json \<times> string) option"
  and parseElements :: "string \<Rightarrow> (json list \<times> string) option"
  and parseMembers :: "string \<Rightarrow> ((string \<times> json) list \<times> string) option" where
  "parseValue s = (case s of [] \<Rightarrow> None
   | c # r \<Rightarrow>
      (if c = CHR 0x22 then map_option (\<lambda>(t, q). (JStr t, q)) (readString r)
       else if c = CHR ''['' then
         (if starts_with (skip r) '']'' then Some (JArr [], drop 1 (skip r))
          else map_option (\<lambda>(vs, q). (JArr vs, q)) (parseElements (skip r)))
       else if c = CHR ''{'' then
         (if starts_with (skip r) ''}'' then Some (JObj [], drop 1 (skip r))
          else map_option (\<lambda>(es, q). (JObj (foldl (\<lambda>m (k, v). AList.update k v m) [] es), q)) (parseMembers (skip r)))
       else readWord s))"
| "parseElements s = (case parseValue s of None \<Rightarrow> None
   | Some (v, r) \<Rightarrow>
      (case skip r of [] \<Rightarrow> None
       | c # q \<Rightarrow>
          (if c = CHR '']'' then Some ([v], q)
           else if c = CHR '','' \<and> length q < length s then map_option (\<lambda>(vs, t). (v # vs, t)) (parseElements (skip q))
           else None)))"
| "parseMembers s = (case s of [] \<Rightarrow> None
   | c # r \<Rightarrow>
      (if c \<noteq> CHR 0x22 then None
       else case readString r of None \<Rightarrow> None
        | Some (k, q) \<Rightarrow>
           (if starts_with (skip q) '':'' \<and> length q < length s then
              (case parseValue (skip (drop 1 (skip q))) of None \<Rightarrow> None
               | Some (v, t) \<Rightarrow>
                  (case skip t of [] \<Rightarrow> None
                   | d # u \<Rightarrow>
                      (if d = CHR ''}'' then Some ([(k, v)], u)
                       else if d = CHR '','' \<and> length u < length s then map_option (\<lambda>(es, w). ((k, v) # es, w)) (parseMembers (skip u))
                       else None)))
            else None)))"
  by pat_completeness auto
termination
  by (relation "measure (\<lambda>x. case x of Inl s \<Rightarrow> 2 * length s | Inr (Inl s) \<Rightarrow> 2 * length s + 1 | Inr (Inr s) \<Rightarrow> 2 * length s + 1)")
    (auto simp: less_Suc_eq_le intro: length_skip skip_bounds)

declare parseValue.simps [simp del] parseElements.simps [simp del] parseMembers.simps [simp del]

definition JSON_parse :: "string \<Rightarrow> json option" where
  "JSON_parse s = (case parseValue (skip s) of Some (v, r) \<Rightarrow> (if skip r = [] then Some v else None) | None \<Rightarrow> None)"

end
