(* ===== verification/Exec_Policy.thy ===== *)
theory Exec_Policy
  imports Sidecar_Schemas Json_Parse
begin

text \<open>
  The argument policies of the commands the orchestrator may run, infrastructure/system/execution_policy.ts.
  Every policy has a schema over the list of arguments, built with the combinators of
  \<open>Sidecar_Schemas\<close>; a \<open>superRefine\<close> is the condition under which it adds no issue.
\<close>

section \<open>Schemas over arguments\<close>

record command_policy =
  cp_schema :: schema
  blockedStrings :: "string list"
  schemaOwnsArgumentValidation :: bool

definition SYSTEM_JAILS :: "string list" where
  "SYSTEM_JAILS = [''./volume/'', ''/var/lib/cts/'', ''/etc/systemd/system/cts-'', ''/etc/apparmor.d/'', ''/home/'', ''/var/www/'', ''/tmp/'', ''/proc/'']"

text \<open>\<open>z.array(z.string()).max(n)\<close> and \<open>z.array(z.string().regex(r)).max(n)\<close>.\<close>

definition strings :: "nat \<Rightarrow> schema" where
  "strings n = ZMaxLen n (ZArray ZString)"

definition matching :: "nat \<Rightarrow> rx \<Rightarrow> schema" where
  "matching n r = ZMaxLen n (ZArray (ZRefine (asStr (fullmatch r)) ZString))"

fun argList :: "val \<Rightarrow> string list" where
  "argList (VArr vs) = map (\<lambda>v. case v of VStr s \<Rightarrow> s | _ \<Rightarrow> []) vs"
| "argList _ = []"

definition superRefine :: "(string list \<Rightarrow> bool) \<Rightarrow> schema \<Rightarrow> schema" where
  "superRefine P s = ZRefine (\<lambda>v. P (argList v)) s"

definition argVal :: "string list \<Rightarrow> val" where
  "argVal args = VArr (map VStr args)"

text \<open>A condition on the first argument if there is one, and \<open>args[i+1] || ""\<close>.\<close>

definition first :: "(string \<Rightarrow> bool) \<Rightarrow> string list \<Rightarrow> bool" where
  "first P args = (case args of [] \<Rightarrow> True | a # _ \<Rightarrow> P a)"

definition following :: "string list \<Rightarrow> string" where
  "following rest = (case rest of [] \<Rightarrow> [] | a # _ \<Rightarrow> a)"

text \<open>\<open>/[...]/.test(arg)\<close>.\<close>

definition hasAny :: "string \<Rightarrow> string \<Rightarrow> bool" where
  "hasAny cs s = list_ex (\<lambda>c. c \<in> set cs) s"

section \<open>The schemas\<close>

subsection \<open>ssh and scp\<close>

text \<open>The back reference repeats the quote character.\<close>

definition PROVISIONING_REGEX :: rx where
  "PROVISIONING_REGEX = seqs [lit (''chmod 600 /etc/cts.env && export $(grep -v '' @ [CHR 0x27] @ ''^#'' @ [CHR 0x27] @ '' /etc/cts.env | xargs -d ''),
     words [[CHR 0x27, CHR 0x5C, CHR ''n'', CHR 0x27], [CHR 0x22, CHR 0x5C, CHR ''n'', CHR 0x22]],
     lit '') && /usr/local/bin/counter-terrorist > /var/log/cts.log 2>&1 &'']"

definition SSH_OPTION :: rx where
  "SSH_OPTION = RAlt (RSeq (lit ''StrictHostKeyChecking='') (words [''yes'', ''no'', ''accept-new'']))
     (RSeq (lit ''UserKnownHostsFile='') (plus (cls (lower @ digits) ''/._-'')))"

definition SSH_PLAIN :: rx where
  "SSH_PLAIN = plus (cls (lower @ digits) ''/._-'')"

definition SSH_HOST :: rx where
  "SSH_HOST = seqs [plus (cls (lower @ digits) []), chr (CHR ''@''),
     RAlt (plus (cls (lower @ digits) ''.-'')) (seqs [chr (CHR ''[''), plus (cls ([(CHR ''a'', CHR ''f'')] @ digits) '':''), chr (CHR '']'')])]"

definition SERVICE_NAME :: "string list \<Rightarrow> rx" where
  "SERVICE_NAME others = alts ([RSeq (lit ''cts-'') (RStar dot), lit ''ufw'', RSeq (lit ''wireguard'') (RStar dot), RSeq (lit ''clamav'') (RStar dot)] @ map lit others)"

definition SSH_COMMAND :: rx where
  "SSH_COMMAND = RAlt (lit ''deno task start'')
     (seqs [lit ''sudo systemctl '', words [''status'', ''start'', ''stop'', ''restart''], chr (CHR '' ''), SERVICE_NAME []])"

definition sshArgument :: "string \<Rightarrow> bool" where
  "sshArgument arg \<longleftrightarrow> \<not> starts_with arg ''-'' \<and>
     (fullmatch SSH_PLAIN arg \<or> fullmatch SSH_HOST arg \<or> fullmatch SSH_COMMAND arg \<or>
      js_includes arg ''chmod 600 /etc/cts.env'' \<and> js_includes arg ''counter-terrorist'' \<and> js_includes arg ''xargs'' \<and> fullmatch PROVISIONING_REGEX arg)"

definition scpArgument :: "string \<Rightarrow> bool" where
  "scpArgument arg \<longleftrightarrow> \<not> starts_with arg ''-'' \<and>
     (fullmatch SSH_PLAIN arg \<or>
      fullmatch (RSeq SSH_HOST (opt (RSeq (chr (CHR '':'')) (RStar dot)))) arg \<and>
      \<not> (CHR '':'' \<in> set arg \<and> hasAny '';&|><`$()!'' (split_char (CHR '':'') arg ! 1)))"

text \<open>The loop over the arguments, in which the value of \<open>-o\<close> is skipped.\<close>

fun optionArgs :: "(string \<Rightarrow> bool) \<Rightarrow> string list \<Rightarrow> bool" where
  "optionArgs P [] = True"
| "optionArgs P (arg # rest) =
    (if arg = ''-o'' then (case rest of [] \<Rightarrow> False | v # rest' \<Rightarrow> v \<noteq> [] \<and> fullmatch SSH_OPTION v \<and> optionArgs P rest')
     else P arg \<and> optionArgs P rest)"

definition SSH_SCHEMA :: schema where
  "SSH_SCHEMA = superRefine (optionArgs sshArgument) (strings 10)"

definition SCP_SCHEMA :: schema where
  "SCP_SCHEMA = superRefine (optionArgs scpArgument) (strings 10)"

subsection \<open>Network and process tools\<close>

definition PFCTL_SCHEMA :: schema where
  "PFCTL_SCHEMA = superRefine (list_all (\<lambda>arg. arg \<in> {''-t'', ''-T'', ''-s'', ''-e'', ''-F''} \<or> arg \<in> {''add'', ''delete'', ''info'', ''all''} \<or>
       fullmatch (plus (cls lower ''_'')) arg \<or> fullmatch (plus (cls (digits @ [(CHR ''a'', CHR ''f''), (CHR ''A'', CHR ''F'')]) ''.:'')) arg))
     (matching 6 (plus (cls (lower @ upper @ digits) ''.:_-'')))"

definition LAUNCHCTL_SCHEMA :: schema where
  "LAUNCHCTL_SCHEMA = superRefine (first (\<lambda>a. a \<in> {''list'', ''load'', ''unload'', ''start'', ''stop''}))
     (matching 2 (plus (cls (lower @ upper @ digits) ''./_-'')))"

definition SPCTL_SCHEMA :: schema where
  "SPCTL_SCHEMA = superRefine (first (\<lambda>a. a = ''--assess'')) (matching 2 (plus (cls (lower @ upper @ digits) ''./_-'')))"

definition PS_SCHEMA :: schema where
  "PS_SCHEMA = superRefine (list_all (\<lambda>arg. starts_with arg ''-'' \<longrightarrow> arg \<in> {''-p'', ''-ax'', ''-o''})) (matching 4 (plus (cls (digits @ lower) '',-'')))"

definition PKTMON_SCHEMA :: schema where
  "PKTMON_SCHEMA = superRefine (list_all (\<lambda>arg. arg \<in> {''start'', ''stop'', ''--etw'', ''-p''} \<or>
     fullmatch (seqs [lit ''./volume/'', RStar dot, lit ''.pcap'']) arg)) (strings 4)"

definition NETSH_SCHEMA :: schema where
  "NETSH_SCHEMA = superRefine
     (first (\<lambda>a. a \<in> {''advfirewall'', ''firewall'', ''show'', ''set'', ''add'', ''delete'', ''rule'', ''allprofiles'', ''state''}))
     (matching 10 (plus (cls (lower @ upper @ digits) ''-./_=:'')))"

definition KILL_SCHEMA :: schema where
  "KILL_SCHEMA = matching 2 (RSeq (opt (chr (CHR ''-''))) (plus (cls digits [])))"

fun tcpdumpArgs :: "string list \<Rightarrow> bool" where
  "tcpdumpArgs [] = True"
| "tcpdumpArgs (arg # rest) \<longleftrightarrow>
    (arg = ''-i'' \<longrightarrow> fullmatch (plus (cls (lower @ digits) [])) (following rest)) \<and>
    (arg = ''-w'' \<longrightarrow> fullmatch (seqs [lit ''./volume/storage/captures/'', plus (cls (lower @ upper @ digits) ''._-''), lit ''.pcap'']) (following rest)) \<and>
    (arg = ''-G'' \<longrightarrow> fullmatch (plus (cls digits [])) (following rest)) \<and>
    (arg = ''-W'' \<longrightarrow> following rest = ''1'') \<and> tcpdumpArgs rest"

definition TCPDUMP_SCHEMA :: schema where
  "TCPDUMP_SCHEMA = superRefine tcpdumpArgs (strings 8)"

definition CLAMSCAN_SCHEMA :: "path_env \<Rightarrow> schema" where
  "CLAMSCAN_SCHEMA env = superRefine (list_all (\<lambda>arg.
     (starts_with arg ''-'' \<longrightarrow> arg \<in> {''-r'', ''--quiet'', ''--no-summary''}) \<and>
     (\<not> starts_with arg ''-'' \<longrightarrow> validatePath env (Some SYSTEM_JAILS) arg))) (strings 5)"

fun crontabArgs :: "string list \<Rightarrow> bool" where
  "crontabArgs [] = True"
| "crontabArgs (arg # rest) \<longleftrightarrow>
    (arg = ''-u'' \<longrightarrow> fullmatch (plus (cls (lower @ digits) ''-'')) (following rest)) \<and>
    (starts_with arg ''-'' \<longrightarrow> arg \<in> {''-l'', ''-u''}) \<and> crontabArgs rest"

definition CRONTAB_SCHEMA :: schema where
  "CRONTAB_SCHEMA = superRefine crontabArgs (strings 3)"

definition TC_SCHEMA :: schema where
  "TC_SCHEMA = matching 20 (plus (cls (lower @ upper @ digits) ''.:/_-''))"

definition WG_QUICK_SCHEMA :: schema where
  "WG_QUICK_SCHEMA = superRefine (\<lambda>args. (0 < length args \<longrightarrow> args ! 0 \<in> {''up'', ''down''}) \<and>
     (1 < length args \<longrightarrow> fullmatch (RAlt (lit ''all'') (plus (cls (lower @ digits) []))) (args ! 1))) (strings 2)"

definition WG_SCHEMA :: schema where
  "WG_SCHEMA = matching 10 (plus (cls (lower @ upper @ digits) ''+/=._-''))"

definition SS_SCHEMA :: schema where
  "SS_SCHEMA = superRefine (list_all (fullmatch (RAlt (RSeq (opt (chr (CHR ''-''))) (plus (cls [] ''tulnpaH'')))
     (RSeq (lit ''sport = :'') (plus (cls digits [])))))) (strings 2)"

definition IPTABLES_SCHEMA :: schema where
  "IPTABLES_SCHEMA = matching 20 (plus (cls (lower @ upper @ digits) ''.+-_:/''))"

fun tpm2SignArgs :: "string list \<Rightarrow> bool" where
  "tpm2SignArgs [] = True"
| "tpm2SignArgs (arg # rest) \<longleftrightarrow>
    (arg = ''-c'' \<longrightarrow> fullmatch (RSeq (lit ''0x'') (plus (cls (digits @ [(CHR ''a'', CHR ''f'')]) ''x''))) (following rest)) \<and>
    (arg = ''-g'' \<longrightarrow> following rest \<in> {''sha256'', ''sha384''}) \<and> tpm2SignArgs rest"

definition TPM2_SIGN_SCHEMA :: schema where
  "TPM2_SIGN_SCHEMA = superRefine tpm2SignArgs (strings 10)"

definition IP_SCHEMA :: schema where
  "IP_SCHEMA = matching 10 (plus (cls (lower @ upper @ digits) ''._-:/''))"

definition SYSCTL_SCHEMA :: schema where
  "SYSCTL_SCHEMA = superRefine (first (\<lambda>a. a \<in> {''-w'', ''-n''} \<or> CHR ''='' \<in> set a))
     (matching 2 (RSeq (plus (cls (lower @ digits) ''._-'')) (opt (RSeq (chr (CHR ''='')) (plus (cls digits []))))))"

definition OPENSSL_SCHEMA :: schema where
  "OPENSSL_SCHEMA = superRefine (first (\<lambda>a. a \<in> {''dgst'', ''genrsa'', ''rsa'', ''req'', ''x509''})) (strings 10)"

definition UFW_SCHEMA :: schema where
  "UFW_SCHEMA = superRefine
     (first (\<lambda>a. a \<in> {''status'', ''enable'', ''disable'', ''allow'', ''deny'', ''delete'', ''default'', ''reload'', ''reset''}))
     (matching 5 (plus (cls (digits @ lower @ upper) ''./-'')))"

subsection \<open>Sidecars and Windows\<close>

fun truthyJson :: "json \<Rightarrow> bool" where
  "truthyJson JNull = False"
| "truthyJson JUndef = False"
| "truthyJson (JBool b) = b"
| "truthyJson (JStr s) = (s \<noteq> [])"
| "truthyJson _ = True"

text \<open>\<open>payload.k\<close> on a parsed value that is not null.\<close>

definition member :: "string \<Rightarrow> json \<Rightarrow> json" where
  "member k v = (case v of JObj es \<Rightarrow> (case map_of es k of None \<Rightarrow> JUndef | Some w \<Rightarrow> w) | _ \<Rightarrow> JUndef)"

definition typeAmong :: "string list \<Rightarrow> json \<Rightarrow> bool" where
  "typeAmong ts v = (case member ''type'' v of JStr t \<Rightarrow> t \<in> set ts | _ \<Rightarrow> False)"

definition SENTINEL_TYPES :: "string list" where
  "SENTINEL_TYPES = [''BLOCK_IP'', ''UNBLOCK_IP'', ''SHADOW_BAN'', ''HIDE_PID'', ''GET_STATUS'',
     ''ALLOW_PORT'', ''DENY_PORT'', ''FLUSH_RULES'', ''LOCKDOWN'', ''SHUTDOWN'', ''TRUST_COMM'',
     ''BLOCK_SYSCALL'', ''LSM_POLICY'', ''ENFORCE_PID'', ''UNENFORCE_PID'', ''KillProcess'', ''QuarantineProcess'', ''DumpProcess'',
     ''LSM_SYSCALL_ALLOWLIST'', ''UPDATE_HOOK_CONTROL'', ''ADD_REDIRECTION'', ''REMOVE_REDIRECTION'', ''SET_LEARNING_MODE'']"

definition sentinelPayload :: "string \<Rightarrow> bool" where
  "sentinelPayload s = (case JSON_parse s of
     None \<Rightarrow> False
   | Some v \<Rightarrow> v \<noteq> JNull \<and> typeAmong SENTINEL_TYPES v \<and>
      \<not> (truthyJson (member ''pid'' v) \<and> (case member ''pid'' v of JNum _ \<Rightarrow> False | _ \<Rightarrow> True)) \<and>
      \<not> (truthyJson (member ''allowed_syscalls'' v) \<and> (case member ''allowed_syscalls'' v of JArr _ \<Rightarrow> False | _ \<Rightarrow> True)))"

definition SENTINEL_SCHEMA :: schema where
  "SENTINEL_SCHEMA = superRefine (first sentinelPayload) (strings 1)"

definition POWERSHELL_BLOCKED :: string where
  "POWERSHELL_BLOCKED = ''&|;><`$(){}[]''"

definition POWERSHELL_SCHEMA :: schema where
  "POWERSHELL_SCHEMA = superRefine (\<lambda>args. case args of [] \<Rightarrow> True
     | a # rest \<Rightarrow>
        (if a = ''-Command'' then (let cmd = following rest in
           list_all (\<lambda>b. b \<notin> set cmd) POWERSHELL_BLOCKED \<and> \<not> (js_includes cmd ''$('' \<or> js_includes cmd ''@(''))
         else if a = ''-EncodedCommand'' then 2 \<le> length args \<and> fullmatch (plus (cls (lower @ upper @ digits) ''+/='')) (args ! 1)
         else False)) (strings 2)"

definition SYSTEMCTL_SCHEMA :: schema where
  "SYSTEMCTL_SCHEMA = superRefine (\<lambda>args. args = [] \<or>
     args ! 0 \<in> {''start'', ''stop'', ''restart'', ''status'', ''is-active'', ''enable'', ''disable''} \<and>
     (1 < length args \<longrightarrow> fullmatch (SERVICE_NAME [''systemd-resolved'', ''network-manager'']) (args ! 1))) (strings 2)"

definition analyzerPayload :: "string \<Rightarrow> bool" where
  "analyzerPayload s = (case JSON_parse s of
     None \<Rightarrow> starts_with s ''-''
   | Some v \<Rightarrow> (if v = JNull then starts_with s ''-''
      else typeAmong [''SCAN'', ''DIR_SCAN'', ''RKH_SCAN'', ''QUIT'', ''MEM_SCAN'', ''ScanPath'', ''Quarantine'', ''SyncSignatures'', ''GetStatus''] v))"

definition ANALYZER_SCHEMA :: schema where
  "ANALYZER_SCHEMA = superRefine (first analyzerPayload) (strings 5)"

subsection \<open>File tools\<close>

abbreviation jailed :: "path_env \<Rightarrow> string \<Rightarrow> bool" where
  "jailed env \<equiv> validatePath env (Some SYSTEM_JAILS)"

definition CP_SCHEMA :: "path_env \<Rightarrow> schema" where
  "CP_SCHEMA env = superRefine (\<lambda>args.
     let paths = filter (\<lambda>a. \<not> starts_with a ''-'') args; flags = filter (\<lambda>a. starts_with a ''-'') args in
     length paths = 2 \<and>
     list_all (\<lambda>f. fullmatch (RSeq (lit ''--reflink='') (words [''always'', ''auto'', ''never''])) f \<or> f = ''-p'') flags \<and>
     list_all (jailed env) paths) (strings 3)"

definition MV_SCHEMA :: "path_env \<Rightarrow> schema" where
  "MV_SCHEMA = CP_SCHEMA"

definition CHMOD_SCHEMA :: "path_env \<Rightarrow> schema" where
  "CHMOD_SCHEMA env = superRefine (\<lambda>args. length args = 2 \<and> fullmatch (rep 3 1 (cls [(CHR ''0'', CHR ''7'')] [])) (args ! 0) \<and>
     jailed env (args ! 1)) (strings 2)"

definition MKDIR_SCHEMA :: "path_env \<Rightarrow> schema" where
  "MKDIR_SCHEMA env = superRefine (\<lambda>args.
     (length args = 2 \<longrightarrow> args ! 0 = ''-p'') \<and> (let pathArg = (if length args = 2 then args ! 1 else following args) in jailed env pathArg))
     (ZMaxLen 2 (ZMinLen 1 (ZArray ZString)))"

definition LS_SCHEMA :: "path_env \<Rightarrow> schema" where
  "LS_SCHEMA env = superRefine (list_all (\<lambda>arg.
     if starts_with arg ''-'' then fullmatch (RSeq (lit ''-l'') (opt (chr (CHR ''a'')))) arg else jailed env arg)) (strings 2)"

definition SHA256SUM_SCHEMA :: "path_env \<Rightarrow> schema" where
  "SHA256SUM_SCHEMA env = superRefine (\<lambda>args. length args = 1 \<longrightarrow> jailed env (args ! 0)) (strings 1)"

subsection \<open>The shell\<close>

definition COMM_UPDATE :: rx where
  "COMM_UPDATE = seqs [lit (''echo '' @ [CHR 0x27]), plus (notIn [CHR 0x27]), lit ([CHR 0x27] @ '' > /proc/''), plus (cls digits []), lit ''/comm'']"

definition PROFILE_BODY :: rx where
  "PROFILE_BODY = RStar (RAlt (notIn [CHR 0x27]) (lit [CHR 0x27, CHR 0x5C, CHR 0x27, CHR 0x27]))"

definition PROFILE_WRITE :: rx where
  "PROFILE_WRITE = seqs [opt (lit ''umask 077 && ''), lit (''echo '' @ [CHR 0x27]), PROFILE_BODY, lit ([CHR 0x27] @ '' > /var/lib/cts/tmp/cts-profile-''),
     plus (cls (lower @ upper @ digits) ''._-''), lit ''.profile'']"

definition shArgs :: "string list \<Rightarrow> bool" where
  "shArgs args \<longleftrightarrow> length args = 2 \<and> args ! 0 = ''-c'' \<and> (fullmatch COMM_UPDATE (args ! 1) \<or> fullmatch PROFILE_WRITE (args ! 1))"

definition rmArgs :: "string list \<Rightarrow> bool" where
  "rmArgs args = list_all (\<lambda>p. p = ''/var/lib/cts/tmp/cts_reflink_probe'' \<or>
     starts_with p ''/var/lib/cts/tmp/cts-profile-'' \<and> ends_with p ''.profile'') (filter (\<lambda>a. \<not> starts_with a ''-'') args)"

section \<open>The table\<close>

definition policy :: "schema \<Rightarrow> command_policy" where
  "policy s = \<lparr>cp_schema = s, blockedStrings = [], schemaOwnsArgumentValidation = False\<rparr>"

definition COMMAND_POLICIES :: "path_env \<Rightarrow> (string \<times> command_policy) list" where
  "COMMAND_POLICIES env = (let hex = cls (digits @ [(CHR ''a'', CHR ''f''), (CHR ''A'', CHR ''F'')]) [] in [
    (''pfctl'', policy PFCTL_SCHEMA), (''launchctl'', policy LAUNCHCTL_SCHEMA), (''spctl'', policy SPCTL_SCHEMA), (''ps'', policy PS_SCHEMA),
    (''killall'', policy (matching 1 (plus (cls (lower @ digits) ''-'')))), (''ifconfig'', policy (matching 1 (plus (cls (lower @ digits) [])))),
    (''pktmon'', policy PKTMON_SCHEMA),
    (''powershell'', (policy POWERSHELL_SCHEMA)\<lparr>blockedStrings := map (\<lambda>c. [c]) ''&|;><`$(){}[]'' @ [''$('']\<rparr>),
    (''netsh'', policy NETSH_SCHEMA), (''taskkill'', policy (matching 3 (alts [lit ''/F'', lit ''/PID'', plus (cls digits [])]))),
    (''systemctl'', policy SYSTEMCTL_SCHEMA), (''ufw'', policy UFW_SCHEMA), (''kill'', policy KILL_SCHEMA), (''chmod'', policy (CHMOD_SCHEMA env)),
    (''mkdir'', policy (MKDIR_SCHEMA env)), (''tcpdump'', policy TCPDUMP_SCHEMA), (''ls'', policy (LS_SCHEMA env)), (''cp'', policy (CP_SCHEMA env)),
    (''mv'', policy (MV_SCHEMA env)), (''sw_vers'', policy (matching 1 (lit ''-productVersion''))),
    (''which'', policy (matching 1 (plus (cls (lower @ digits) ''-'')))), (''clamscan'', policy (CLAMSCAN_SCHEMA env)),
    (''sha256sum'', policy (SHA256SUM_SCHEMA env)), (''crontab'', policy CRONTAB_SCHEMA),
    (''where'', policy (matching 1 (plus (cls (lower @ digits) ''-'')))), (''tc'', policy TC_SCHEMA),
    (''gcore'', policy (superRefine (first (\<lambda>a. a = ''-o'')) (strings 3))),
    (''tpm2_nvdefine'', policy (matching 3 (alts [RSeq (lit ''0x'') (plus hex), lit ''-s'', plus (cls digits [])]))),
    (''tpm2_nvwrite'', policy (matching 3 (alts [RSeq (lit ''0x'') (plus hex), lit ''-i'', plus (cls (lower @ upper @ digits) ''./_=+-'')]))),
    (''tpm2_nvread'', policy (matching 1 (RSeq (lit ''0x'') (plus hex)))),
    (''tpm2_pcrread'', policy (matching 1 (RSeq (lit ''sha256:'') (plus (cls digits '',''))))),
    (''wg-quick'', policy WG_QUICK_SCHEMA), (''wg'', policy WG_SCHEMA),
    (''system_profiler'', policy (matching 5 (seqs [cls upper [], plus (cls (lower @ upper @ digits) []), lit ''DataType'']))),
    (''ss'', policy SS_SCHEMA),
    (''unshare'', policy (matching 10 (RAlt (RSeq (lit ''--'') (plus (cls lower []))) (plus (cls (lower @ digits) ''/._-''))))),
    (''iptables'', policy IPTABLES_SCHEMA), (''tpm2_sign'', policy TPM2_SIGN_SCHEMA),
    (''tpm2_hash'', policy (matching 10 (alts [lit ''-g'', lit ''sha256'', lit ''sha384'', lit ''-o'', plus (cls (lower @ digits) ''/._-'')]))),
    (''rkhunter'', policy (matching 5 (words [''--check'', ''--sk'', ''--nocolor'', ''--report-warnings-only'']))),
    (''security'', policy (matching 10 (ignoreCase (alts [lit ''cms'', lit ''find-identity'', lit ''unlock-keychain'',
        RSeq (opt (chr (CHR ''-''))) (plus (cls (lower @ upper) [])), plus (cls (lower @ digits) ''/._-'')])))),
    (''ip'', policy IP_SCHEMA), (''sysctl'', policy SYSCTL_SCHEMA),
    (''nmcli'', policy (matching 10 (alts [lit ''-t'', lit ''-f'', plus (cls upper '',''), lit ''dev'', lit ''wifi'', lit ''list'']))),
    (''ping'', policy (matching 10 (alts [lit ''-c'', plus (cls digits []), lit ''-W'', lit ''-p'', plus hex, plus (cls (lower @ digits) ''.-''),
        plus (cls (digits @ [(CHR ''a'', CHR ''f''), (CHR ''A'', CHR ''F'')]) ''.:'')]))),
    (''host'', policy (matching 3 (ignoreCase (alts [lit ''-t'', lit ''A'', lit ''AAAA'', lit ''TXT'', lit ''MX'', plus (cls (lower @ digits) ''.-'')])))),
    (''scp'', policy SCP_SCHEMA),
    (''ssh'', (policy SSH_SCHEMA)\<lparr>blockedStrings := [''&&'', ''||'', ''|'', '';'', ''>'', ''<'', ''`'', ''$'', ''('', '')'', ''!'', ''-F'', ''-E'', ''-S'', ''-i'']\<rparr>),
    (''/var/lib/cts/scripts/install_service.sh'', policy (matching 2 (RAlt
        (seqs [lit ''/etc/systemd/system/cts'', opt (chr (CHR ''-'')), RStar dot, lit ''.service'']) (plus (cls (lower @ upper @ digits) ''./_ -''))))),
    (''/var/lib/cts/scripts/update_crontab.sh'', policy (matching 1 (plus (cls (lower @ upper @ digits) ''./_ -*'')))),
    (''/var/lib/cts/scripts/update_comm.sh'', policy (matching 2 (RAlt
        (seqs [chr (CHR ''[''), plus (cls (lower @ digits) ''/:''), chr (CHR '']'')]) (plus (cls digits []))))),
    (''/var/lib/cts/scripts/secure_spawn.sh'', policy (matching 4 (plus (cls (lower @ digits) '',._+-/'')))),
    (''cat'', policy (matching 1 (plus (cls (lower @ upper @ digits) ''_/.-'')))),
    (''sh'', (policy (superRefine shArgs (strings 2)))\<lparr>schemaOwnsArgumentValidation := True\<rparr>),
    (''rm'', policy (superRefine rmArgs (strings 2))),
    (''openssl'', policy OPENSSL_SCHEMA), (''analyzer'', policy ANALYZER_SCHEMA), (''enforcer'', policy (strings 10)), (''decoy'', policy (strings 10)),
    (''netcap'', policy (strings 10)), (''ebpf'', policy SENTINEL_SCHEMA), (''sentinel'', policy SENTINEL_SCHEMA), (''watchfile'', policy (strings 10)),
    (''tunnel'', policy (strings 10)), (''sentinel-darwin'', policy (strings 10)), (''telemetry-win'', policy (strings 10)), (''enforcer-win'', policy (strings 10))])"

section \<open>Arguments under the library\<close>

lemma argList_argVal [simp]: "argList (argVal args) = args"
  by (simp add: argVal_def comp_def)

context zod
begin

lemma parse_strings: "safeParse (strings n) (argVal args) \<longleftrightarrow> length args \<le> n"
  unfolding strings_def max_length array argVal_def by (auto simp: list_all_iff string)

lemma parse_matching: "safeParse (matching n r) (argVal args) \<longleftrightarrow> length args \<le> n \<and> list_all (fullmatch r) args"
  unfolding matching_def max_length array argVal_def by (auto simp: list_all_iff string refine asStr_def)

lemma parse_superRefine: "safeParse (superRefine P s) (argVal args) \<longleftrightarrow> safeParse s (argVal args) \<and> P args"
  unfolding superRefine_def refine by simp

end

section \<open>What the shell reads\<close>

text \<open>The tokens of a POSIX shell for a command without double quotes: words with their quotes removed, operator
  characters, and every unquoted character that the shell could expand or interpret.\<close>

datatype shell_token = Word string | Operator char | Special char | Unterminated

definition plainChar :: "char \<Rightarrow> bool" where
  "plainChar = in_cls False (lower @ upper @ digits @ map (\<lambda>c. (c, c)) ''/._-'')"

definition emit :: "string option \<Rightarrow> shell_token list" where
  "emit w = (case w of None \<Rightarrow> [] | Some s \<Rightarrow> [Word s])"

definition extend :: "string option \<Rightarrow> string \<Rightarrow> string option" where
  "extend w s = (case w of None \<Rightarrow> Some s | Some t \<Rightarrow> Some (t @ s))"

function shellWords :: "string option \<Rightarrow> string \<Rightarrow> shell_token list" and shellQuoted :: "string option \<Rightarrow> string \<Rightarrow> shell_token list" where
  "shellWords w [] = emit w"
| "shellWords w (c # s) =
    (if plainChar c then shellWords (extend w [c]) s
     else if c = CHR 0x27 then shellQuoted (extend w []) s
     else if c = CHR 0x5C then
       (case s of [] \<Rightarrow> emit (extend w [c]) | d # s' \<Rightarrow> shellWords (if d = CHR 0x0A then w else extend w [d]) s')
     else if c = CHR '' '' \<or> c = CHR 0x09 then emit w @ shellWords None s
     else if c \<in> set ''&|;<>()'' \<or> c = CHR 0x0A then emit w @ Operator c # shellWords None s
     else emit w @ Special c # shellWords None s)"
| "shellQuoted w [] = [Unterminated]"
| "shellQuoted w (c # s) = (if c = CHR 0x27 then shellWords w s else shellQuoted (extend w [c]) s)"
  by pat_completeness auto
termination
  by (relation "measure (case_sum (length \<circ> snd) (length \<circ> snd))") auto

lemma extend_simps [simp]: "extend None s = Some s" "extend (Some t) s = Some (t @ s)"
  by (simp_all add: extend_def)

lemma shellWords_plain: "list_all plainChar s \<Longrightarrow> shellWords (Some w) (s @ r) = shellWords (Some (w @ s)) r"
  by (induction s arbitrary: w) auto

lemma shellQuoted_plain: "CHR 0x27 \<notin> set s \<Longrightarrow> shellQuoted (Some w) (s @ r) = shellQuoted (Some (w @ s)) r"
  by (induction s arbitrary: w) auto

lemma not_plain: "\<not> plainChar (CHR 0x27)" "\<not> plainChar (CHR 0x5C)" "\<not> plainChar (CHR '' '')" "\<not> plainChar (CHR ''>'')" "\<not> plainChar (CHR ''&'')"
  by (simp_all add: plainChar_def in_cls_def)

text \<open>A body of quote-free text and escaped quotes stays inside one word.\<close>

lemma shellQuoted_body:
  assumes "body \<in> lang PROFILE_BODY"
  shows "\<exists>t. \<forall>w r. shellQuoted (Some w) (body @ r) = shellQuoted (Some (w @ t)) r"
proof -
  obtain ws where ws: "body = concat ws" "set ws \<subseteq> lang (RAlt (notIn [CHR 0x27]) (lit [CHR 0x27, CHR 0x5C, CHR 0x27, CHR 0x27]))"
    using assms by (auto simp: PROFILE_BODY_def star_def)
  have "\<exists>t. \<forall>w r. shellQuoted (Some w) (concat ws @ r) = shellQuoted (Some (w @ t)) r" using ws(2)
  proof (induction ws)
    case Nil
    show ?case by (rule exI [of _ "[]"]) simp
  next
    case (Cons u ws)
    then obtain t where t: "\<And>w r. shellQuoted (Some w) (concat ws @ r) = shellQuoted (Some (w @ t)) r" by auto
    have "u \<in> lang (notIn [CHR 0x27]) \<or> u = [CHR 0x27, CHR 0x5C, CHR 0x27, CHR 0x27]" using Cons.prems by auto
    then show ?case
    proof
      assume "u \<in> lang (notIn [CHR 0x27])"
      then obtain c where c: "u = [c]" "c \<noteq> CHR 0x27" unfolding lang_notIn by auto
      then show ?thesis using t by (intro exI [of _ "c # t"]) simp
    next
      assume u: "u = [CHR 0x27, CHR 0x5C, CHR 0x27, CHR 0x27]"
      show ?thesis using t by (intro exI [of _ "CHR 0x27 # t"]) (simp add: u not_plain)
    qed
  qed
  then show ?thesis unfolding ws(1) .
qed

lemma shellWords_target:
  assumes "list_all plainChar target" and "target \<noteq> []"
  shows "shellWords (Some t) ('' > '' @ target) = [Word t, Operator (CHR ''>''), Word target]"
proof -
  obtain c s where c: "target = c # s" "plainChar c" using assms by (cases target) auto
  have "shellWords None target = [Word target]"
    using shellWords_plain [of s "[c]" "[]"] assms by (simp add: c emit_def)
  then show ?thesis by (simp add: not_plain emit_def)
qed

lemma shellWords_word:
  assumes "list_all plainChar w" and "w \<noteq> []"
  shows "shellWords None (w @ CHR '' '' # r) = Word w # shellWords None r"
proof -
  obtain c s where c: "w = c # s" "plainChar c" using assms by (cases w) auto
  then show ?thesis using shellWords_plain [of s "[c]" "CHR '' '' # r"] assms by (simp add: not_plain emit_def)
qed

abbreviation writes :: "string \<Rightarrow> string \<Rightarrow> shell_token list" where
  "writes t target \<equiv> [Word ''echo'', Word t, Operator (CHR ''>''), Word target]"

lemma echo_writes:
  assumes body: "\<And>w r. shellQuoted (Some w) (body @ r) = shellQuoted (Some (w @ t)) r"
    and "list_all plainChar target" and "target \<noteq> []"
  shows "shellWords None (''echo'' @ CHR '' '' # CHR 0x27 # body @ CHR 0x27 # '' > '' @ target) = writes t target"
proof -
  have echo: "list_all plainChar ''echo''" by code_simp
  have "shellWords None (CHR 0x27 # body @ CHR 0x27 # '' > '' @ target) = shellQuoted (Some []) (body @ CHR 0x27 # '' > '' @ target)"
    by (simp add: not_plain)
  also have "\<dots> = shellWords (Some t) ('' > '' @ target)" unfolding body by simp
  finally show ?thesis using shellWords_word [OF echo] shellWords_target [OF assms(2,3)] by simp
qed

lemma umask_words: "shellWords None (''umask 077 && '' @ r) = Word ''umask'' # Word ''077'' # Operator (CHR ''&'') # Operator (CHR ''&'') # shellWords None r"
proof -
  have "list_all plainChar ''umask''" "list_all plainChar ''077''" by code_simp+
  then show ?thesis using shellWords_word [of "''umask''"] shellWords_word [of "''077''"] by (simp add: not_plain emit_def)
qed

lemma COMM_UPDATE_reads:
  assumes "fullmatch COMM_UPDATE command"
  shows "\<exists>t pid. pid \<noteq> [] \<and> list_all is_digit pid \<and> shellWords None command = writes t (''/proc/'' @ pid @ ''/comm'')"
proof -
  obtain body pid where c: "command = (''echo '' @ [CHR 0x27]) @ body @ ([CHR 0x27] @ '' > /proc/'') @ pid @ ''/comm'' @ []"
    and b: "body \<in> lang (plus (notIn [CHR 0x27]))" and p: "pid \<in> lang (plus (cls digits []))"
    using assms unfolding fullmatch_lang COMM_UPDATE_def lang_seqs by blast
  have "list_all (\<lambda>c. c \<notin> set [CHR 0x27]) body" using b unfolding notIn_def lang_plus_cls in_cls_not by (rule conjunct2)
  then have q: "CHR 0x27 \<notin> set body" by (auto simp: list_all_iff)
  have d: "pid \<noteq> []" "list_all (in_cls False digits) pid" using p unfolding cls_def by (simp_all add: lang_plus_cls del: lang.simps)
  have "plainChar x \<and> is_digit x" if "in_cls False digits x" for x using that by (auto simp: plainChar_def in_cls_def is_digit_def)
  then have pl: "list_all plainChar pid" "list_all is_digit pid" using d(2) by (simp_all add: list_all_iff)
  have "list_all plainChar ''/proc/''" "list_all plainChar ''/comm''" by code_simp+
  then have "list_all plainChar (''/proc/'' @ pid @ ''/comm'')" using pl by (simp only: list_all_append)
  then have "shellWords None (''echo'' @ CHR '' '' # CHR 0x27 # body @ CHR 0x27 # '' > '' @ (''/proc/'' @ pid @ ''/comm'')) = writes body (''/proc/'' @ pid @ ''/comm'')"
    by (intro echo_writes shellQuoted_plain q) simp_all
  then show ?thesis using d pl c by auto
qed

lemma PROFILE_WRITE_reads:
  assumes "fullmatch PROFILE_WRITE command"
  shows "\<exists>t name ws. CHR ''/'' \<notin> set name \<and> ws \<in> {[], [Word ''umask'', Word ''077'', Operator (CHR ''&''), Operator (CHR ''&'')]} \<and>
    shellWords None command = ws @ writes t (''/var/lib/cts/tmp/cts-profile-'' @ name @ ''.profile'')"
proof -
  obtain pre body name where c: "command = pre @ (''echo '' @ [CHR 0x27]) @ body @ ([CHR 0x27] @ '' > /var/lib/cts/tmp/cts-profile-'') @ name @ ''.profile'' @ []"
    and pre: "pre \<in> lang (opt (lit ''umask 077 && ''))" and b: "body \<in> lang PROFILE_BODY" and n: "name \<in> lang (plus (cls (lower @ upper @ digits) ''._-''))"
    using assms unfolding fullmatch_lang PROFILE_WRITE_def lang_seqs by blast
  let ?target = "''/var/lib/cts/tmp/cts-profile-'' @ name @ ''.profile''"
  obtain t where t: "\<And>w r. shellQuoted (Some w) (body @ r) = shellQuoted (Some (w @ t)) r" using shellQuoted_body [OF b] by blast
  have "list_all (in_cls False ((lower @ upper @ digits) @ map (\<lambda>c. (c, c)) ''._-'')) name" using n unfolding cls_def by (simp add: lang_plus_cls del: lang.simps)
  moreover have "plainChar x \<and> x \<noteq> CHR ''/''" if "in_cls False ((lower @ upper @ digits) @ map (\<lambda>c. (c, c)) ''._-'') x" for x
    using that by (auto simp: plainChar_def in_cls_def)
  ultimately have pl: "list_all plainChar name" "CHR ''/'' \<notin> set name" by (auto simp: list_all_iff)
  have "list_all plainChar ''/var/lib/cts/tmp/cts-profile-''" "list_all plainChar ''.profile''" by code_simp+
  then have "list_all plainChar ?target" using pl by (simp only: list_all_append)
  then have "shellWords None (''echo'' @ CHR '' '' # CHR 0x27 # body @ CHR 0x27 # '' > '' @ ?target) = writes t ?target"
    by (intro echo_writes t) simp_all
  then obtain rest where rest: "command = pre @ rest" "shellWords None rest = writes t ?target" using c by simp
  have "pre = [] \<or> pre = ''umask 077 && ''" using pre unfolding lang_opt lang_lit by blast
  then obtain ws where "ws \<in> {[], [Word ''umask'', Word ''077'', Operator (CHR ''&''), Operator (CHR ''&'')]}" "shellWords None command = ws @ writes t ?target"
    using umask_words [of rest] by (elim disjE) (auto simp: rest)
  then show ?thesis using pl(2) by blast
qed

section \<open>The shell policy\<close>

text \<open>
  C12: the shell policy admits no injection. For every library with the documented behaviour of zod, arguments that
  the policy of \<open>sh\<close> accepts are \<open>-c\<close> and one command which a POSIX shell reads as a single
  \<open>echo\<close> of one word, preceded at most by \<open>umask 077 &&\<close>, redirected to the \<open>comm\<close> file of a process or to a
  profile file directly in the temporary directory, whatever the quoted text contains.
\<close>

theorem sh_no_injection:
  assumes "zod safeParse" and "map_of (COMMAND_POLICIES env) ''sh'' = Some p" and "safeParse (cp_schema p) (argVal args)"
  shows "\<exists>command t target ws. args = [''-c'', command] \<and> shellWords None command = ws @ [Word ''echo'', Word t, Operator (CHR ''>''), Word target] \<and>
    ws \<in> {[], [Word ''umask'', Word ''077'', Operator (CHR ''&''), Operator (CHR ''&'')]} \<and>
    ((\<exists>pid. pid \<noteq> [] \<and> list_all is_digit pid \<and> target = ''/proc/'' @ pid @ ''/comm'') \<or>
     (\<exists>name. CHR ''/'' \<notin> set name \<and> target = ''/var/lib/cts/tmp/cts-profile-'' @ name @ ''.profile''))"
proof -
  have "cp_schema p = superRefine shArgs (strings 2)" using assms(2) by (auto simp: COMMAND_POLICIES_def Let_def policy_def)
  then have "shArgs args" using assms(3) zod.parse_superRefine [OF assms(1)] by metis
  then obtain command where c: "args = [''-c'', command]" "fullmatch COMM_UPDATE command \<or> fullmatch PROFILE_WRITE command"
    by (auto simp: shArgs_def length_Suc_conv numeral_2_eq_2)
  from c(2) show ?thesis
  proof
    assume "fullmatch COMM_UPDATE command"
    from COMM_UPDATE_reads [OF this] obtain t pid where "pid \<noteq> []" "list_all is_digit pid" "shellWords None command = [] @ writes t (''/proc/'' @ pid @ ''/comm'')"
      by auto
    then show ?thesis using c(1) by blast
  next
    assume "fullmatch PROFILE_WRITE command"
    from PROFILE_WRITE_reads [OF this] show ?thesis using c(1) by blast
  qed
qed

definition sampleCommand :: string where
  "sampleCommand = ''echo '' @ [CHR 0x27] @ ''a;b'' @ [CHR 0x27] @ '' > /proc/1/comm''"

theorem sh_no_injection_witness:
  "\<exists>command t target ws. [''-c'', sampleCommand] = [''-c'', command] \<and> shellWords None command = ws @ [Word ''echo'', Word t, Operator (CHR ''>''), Word target]"
proof -
  have p: "map_of (COMMAND_POLICIES plainEnv) ''sh'' = Some ((policy (superRefine shArgs (strings 2)))\<lparr>schemaOwnsArgumentValidation := True\<rparr>)" (is "_ = Some ?p")
    by (simp add: COMMAND_POLICIES_def Let_def)
  have "fullmatch COMM_UPDATE sampleCommand" by code_simp
  then have "shArgs [''-c'', sampleCommand]" by (simp add: shArgs_def)
  then have "check (cp_schema ?p) (argVal [''-c'', sampleCommand])" by (simp add: policy_def checker.parse_superRefine checker.parse_strings)
  from sh_no_injection [OF checker.zod_axioms p this] show ?thesis by blast
qed

text \<open>The command \<open>ssh\<close> is to run for provisioning always contains a blocked sequence.\<close>

lemma provisioning_blocked:
  assumes "fullmatch PROVISIONING_REGEX arg" and "map_of (COMMAND_POLICIES env) ''ssh'' = Some p"
  shows "\<exists>b \<in> set (blockedStrings p). js_includes arg b"
proof -
  have p: "''&&'' \<in> set (blockedStrings p)" using assms(2) by (auto simp: COMMAND_POLICIES_def Let_def)
  obtain u v where "arg = (''chmod 600 /etc/cts.env && export $(grep -v '' @ [CHR 0x27] @ ''^#'' @ [CHR 0x27] @ '' /etc/cts.env | xargs -d '') @ u @ v"
    using assms(1) unfolding fullmatch_lang PROVISIONING_REGEX_def lang_seqs by blast
  then have "arg = ''chmod 600 /etc/cts.env '' @ ''&&'' @ drop 25 arg" by simp
  then have "js_includes arg ''&&''" unfolding sublist_def by blast
  then show ?thesis using p by blast
qed

end
