(* ===== verification/System_Executor.thy ===== *)
theory System_Executor
  imports Exec_Policy
begin

text \<open>
  The executor of system commands, infrastructure/system/system_executor.ts: the whitelist, the checks on
  arguments and the call that reaches the operating system. The functions of @std/path, the file
  system and the outcome of a child process are parameters; the texts of error messages are values of
  \<open>exec_error\<close>.
\<close>

section \<open>Tables\<close>

definition WHITELISTED_COMMANDS :: "string list" where
  "WHITELISTED_COMMANDS = [
    ''mkdir'', ''mv'', ''chmod'', ''ls'', ''sha256sum'', ''systemctl'',
    ''crontab'', ''which'', ''where'', ''netsh'', ''taskkill'', ''tc'', ''kill'',
    ''cp'', ''gcore'', ''ufw'', ''tpm2_nvdefine'', ''tpm2_nvwrite'', ''tpm2_nvread'',
    ''tpm2_pcrread'', ''wg-quick'', ''wg'', ''launchctl'', ''system_profiler'', ''ss'',
    ''unshare'', ''iptables'', ''tpm2_sign'', ''tpm2_hash'', ''sw_vers'', ''openssl'',
    ''pfctl'', ''ifconfig'', ''killall'', ''spctl'', ''ps'', ''pktmon'', ''ip'', ''sysctl'', ''nmcli'', ''ping'', ''host'', ''scp'', ''ssh'',
    ''security'', ''powershell'', ''netstat'',
    ''analyzer'', ''enforcer'', ''decoy'', ''netcap'', ''sentinel'', ''watchfile'', ''tunnel'', ''sentinel-darwin'', ''telemetry-win'', ''enforcer-win'', ''ebpf'',
    ''/var/lib/cts/scripts/install_service.sh'', ''/var/lib/cts/scripts/update_crontab.sh'', ''/var/lib/cts/scripts/update_comm.sh'',
    ''/var/lib/cts/scripts/secure_spawn.sh'', ''cat'', ''sh'', ''rm'', ''ls'']"

definition PRIVILEGED_COMMANDS :: "string list" where
  "PRIVILEGED_COMMANDS = [
    ''ufw'', ''tc'', ''iptables'', ''wg-quick'', ''wg'', ''gcore'', ''unshare'', ''systemctl'',
    ''tpm2_nvdefine'', ''tpm2_nvwrite'', ''tpm2_nvread'', ''tpm2_pcrread'', ''setcap'',
    ''chmod'', ''mkdir'', ''cp'', ''mv'', ''pfctl'', ''pktmon'', ''netsh'', ''/var/lib/cts/scripts/secure_spawn.sh'']"

definition PATH_SENSITIVE_COMMANDS :: "string list" where
  "PATH_SENSITIVE_COMMANDS = [''openssl'', ''mkdir'', ''cp'', ''mv'', ''chmod'', ''ls'', ''sha256sum'',
    ''sentinel'', ''ebpf'', ''analyzer'', ''watchfile'', ''netcap'', ''ssh'', ''scp'']"

definition PATH_RESOLVABLE_COMMANDS :: "string list" where
  "PATH_RESOLVABLE_COMMANDS = [''analyzer'', ''enforcer'', ''decoy'', ''netcap'', ''sentinel'', ''watchfile'', ''trustroot'',
    ''tunnel'', ''sentinel-darwin'', ''telemetry-win'', ''enforcer-win'', ''ebpf'']"

record exec_env =
  ee_paths :: path_env
  basename :: "string \<Rightarrow> string"
  is_root :: bool

datatype exec_error = NotWhitelisted string | NoPolicy string | SchemaFailed string | BlockedSequence string string | ShellMetacharacter
  | SensitiveMetacharacter string | RemoteMetacharacter string | PathMetacharacter string | PathTraversal string string
  | JsonPath string string | UnauthorizedPath string string

section \<open>Whitelist\<close>

text \<open>\<open>replace(/\.exe$/i, "")\<close>.\<close>

definition stripExe :: "string \<Rightarrow> string" where
  "stripExe s = (let n = length s - 4 in if 4 \<le> length s \<and> lowerCase (drop n s) = ''.exe'' then take n s else s)"

definition isWhitelisted :: "exec_env \<Rightarrow> string \<Rightarrow> bool" where
  "isWhitelisted env cmd =
    (if cmd \<in> set WHITELISTED_COMMANDS then True
     else if CHR ''/'' \<notin> set cmd \<and> CHR 0x5C \<notin> set cmd then basename env cmd \<in> set WHITELISTED_COMMANDS
     else let baseCmd = stripExe (basename env cmd) in
       baseCmd \<in> set PATH_RESOLVABLE_COMMANDS \<and> baseCmd \<in> set WHITELISTED_COMMANDS)"

section \<open>Arguments of path-sensitive commands\<close>

definition isPotentiallyDangerous :: "string \<Rightarrow> bool" where
  "isPotentiallyDangerous arg \<longleftrightarrow>
     hasAny ([CHR ''/'', CHR 0x5C] @ ''%{}&|;><`()!'' @ [CHR 0x0A, CHR 0x0D, CHR ''$'']) arg \<or> js_includes arg ''..''"

definition pathKeys :: "string list" where
  "pathKeys = [''path'', ''target'', ''exe_path'', ''log_path'', ''source'', ''destination'', ''output'', ''file'', ''paths'']"

definition pathText :: "bool \<Rightarrow> string \<Rightarrow> string \<Rightarrow> bool" where
  "pathText inPathContext key s \<longleftrightarrow> inPathContext \<or> key \<in> set pathKeys \<or> CHR ''/'' \<in> set s \<or> CHR 0x5C \<in> set s"

function extractPathsFromJson :: "json \<Rightarrow> bool \<Rightarrow> nat \<Rightarrow> string list" where
  "extractPathsFromJson obj inPathContext depth =
    (if 10 < depth then []
     else case obj of
       JArr items \<Rightarrow> concat (map (\<lambda>item. extractPathsFromJson item inPathContext (depth + 1)) items)
     | JObj es \<Rightarrow> concat (map (\<lambda>(key, value). case value of
           JStr s \<Rightarrow> (if pathText inPathContext key s then [s] else [])
         | JArr _ \<Rightarrow> extractPathsFromJson value (inPathContext \<or> key \<in> set pathKeys) (depth + 1)
         | JObj _ \<Rightarrow> extractPathsFromJson value (inPathContext \<or> key \<in> set pathKeys) (depth + 1)
         | _ \<Rightarrow> []) es)
     | _ \<Rightarrow> [])"
  by pat_completeness auto
termination
  by (relation "measure (\<lambda>(obj, c, depth). 11 - depth)") auto

declare extractPathsFromJson.simps [simp del]

text \<open>\<open>/^[a-z0-9]+@([a-z0-9.-]+|\[[a-f0-9:]+\]):.*$/\<close> and the text behind the last colon.\<close>

definition REMOTE_PATH :: rx where
  "REMOTE_PATH = seqs [SSH_HOST, chr (CHR '':''), RStar dot]"

definition afterLastColon :: "string \<Rightarrow> string" where
  "afterLastColon s = rev (takeWhile (\<lambda>c. c \<noteq> CHR '':'') (rev s))"

fun jsonPaths :: "exec_env \<Rightarrow> string \<Rightarrow> string list \<Rightarrow> exec_error + unit" where
  "jsonPaths env baseCmd [] = Inr ()"
| "jsonPaths env baseCmd (p # ps) = (if \<not> jailed (ee_paths env) p then Inl (JsonPath p baseCmd) else jsonPaths env baseCmd ps)"

definition isPathLike :: "string \<Rightarrow> bool" where
  "isPathLike arg \<longleftrightarrow> CHR ''/'' \<in> set arg \<or> CHR 0x5C \<in> set arg \<or> starts_with arg ''./'' \<or> starts_with arg ''/''"

definition rawPath :: "exec_env \<Rightarrow> string \<Rightarrow> string \<Rightarrow> exec_error + unit" where
  "rawPath env arg baseCmd =
    (if isPathLike arg then (if \<not> jailed (ee_paths env) arg then Inl (UnauthorizedPath arg baseCmd) else Inr ())
     else (if \<not> validatePath (ee_paths env) None arg then Inl (PathTraversal arg baseCmd) else Inr ()))"

definition validateSensitiveArgument :: "exec_env \<Rightarrow> string \<Rightarrow> string \<Rightarrow> exec_error + unit" where
  "validateSensitiveArgument env arg baseCmd =
    (if hasAny ('';&|><`$()!'' @ [CHR 0x0A, CHR 0x0D, CHR 0x09]) arg then Inl (SensitiveMetacharacter baseCmd)
     else if (baseCmd = ''scp'' \<or> baseCmd = ''ssh'') \<and> fullmatch REMOTE_PATH arg then
       (if hasAny '';&|><`$()!'' (afterLastColon arg) then Inl (RemoteMetacharacter arg) else Inr ())
     else if isPotentiallyDangerous arg \<and> hasAny '';&|><`$()!'' arg \<and> \<not> (starts_with arg ''{'' \<and> ends_with arg ''}'') then
       Inl (PathMetacharacter baseCmd)
     else if isPotentiallyDangerous arg \<and> \<not> validatePath (ee_paths env) None arg then Inl (PathTraversal arg baseCmd)
     else if baseCmd = ''openssl'' \<and> arg \<in> {''dgst'', ''-sha256'', ''-r''} then Inr ()
     else if starts_with arg ''{'' then
       (case JSON_parse arg of
          Some parsed \<Rightarrow> jsonPaths env baseCmd (extractPathsFromJson parsed False 0)
        | None \<Rightarrow> rawPath env arg baseCmd)
     else rawPath env arg baseCmd)"

section \<open>All arguments\<close>

definition policyOf :: "exec_env \<Rightarrow> string \<Rightarrow> command_policy option" where
  "policyOf env cmd = (case map_of (COMMAND_POLICIES (ee_paths env)) cmd of
     Some p \<Rightarrow> Some p
   | None \<Rightarrow> map_of (COMMAND_POLICIES (ee_paths env)) (basename env cmd))"

definition isPathSensitive :: "exec_env \<Rightarrow> string \<Rightarrow> bool" where
  "isPathSensitive env cmd \<longleftrightarrow> basename env cmd \<in> set PATH_SENSITIVE_COMMANDS \<or> cmd \<in> set PATH_SENSITIVE_COMMANDS"

definition jsonArgument :: "string \<Rightarrow> string \<Rightarrow> bool" where
  "jsonArgument baseCmd arg \<longleftrightarrow> (baseCmd = ''sentinel'' \<or> baseCmd = ''ebpf'' \<or> baseCmd = ''analyzer'') \<and> starts_with arg ''{''"

definition checkArgument :: "exec_env \<Rightarrow> string \<Rightarrow> command_policy \<Rightarrow> string \<Rightarrow> exec_error + unit" where
  "checkArgument env cmd p arg =
    (case find (js_includes arg) (blockedStrings p) of
       Some blocked \<Rightarrow> Inl (BlockedSequence arg blocked)
     | None \<Rightarrow>
        (if \<not> schemaOwnsArgumentValidation p \<and> \<not> jsonArgument (basename env cmd) arg \<and> hasAny '';&|><`$!'' arg then Inl ShellMetacharacter
         else if isPathSensitive env cmd then validateSensitiveArgument env arg (basename env cmd)
         else Inr ()))"

fun checkArguments :: "exec_env \<Rightarrow> string \<Rightarrow> command_policy \<Rightarrow> string list \<Rightarrow> exec_error + unit" where
  "checkArguments env cmd p [] = Inr ()"
| "checkArguments env cmd p (arg # args) = (case checkArgument env cmd p arg of Inl e \<Rightarrow> Inl e | Inr _ \<Rightarrow> checkArguments env cmd p args)"

definition validateArguments :: "(schema \<Rightarrow> val \<Rightarrow> bool) \<Rightarrow> exec_env \<Rightarrow> string \<Rightarrow> string list \<Rightarrow> exec_error + unit" where
  "validateArguments safeParse env cmd args = (case policyOf env cmd of
     None \<Rightarrow> Inl (NoPolicy cmd)
   | Some p \<Rightarrow>
      (if \<not> safeParse (cp_schema p) (argVal args) then Inl (SchemaFailed (basename env cmd)) else checkArguments env cmd p args))"

section \<open>Execution\<close>

definition elevate :: "exec_env \<Rightarrow> string \<Rightarrow> string list \<Rightarrow> string \<times> string list" where
  "elevate env cmd args =
    (if (basename env cmd \<in> set PRIVILEGED_COMMANDS \<or> cmd \<in> set PRIVILEGED_COMMANDS) \<and> \<not> is_root env
     then (''sudo'', ''-n'' # cmd # args) else (cmd, args))"

text \<open>The command line that is spawned, or the error that is thrown.\<close>

definition executeAsync :: "(schema \<Rightarrow> val \<Rightarrow> bool) \<Rightarrow> exec_env \<Rightarrow> string \<Rightarrow> string list \<Rightarrow> exec_error + (string \<times> string list)" where
  "executeAsync safeParse env cmd args =
    (if \<not> isWhitelisted env cmd then Inl (NotWhitelisted cmd)
     else case validateArguments safeParse env cmd args of Inl e \<Rightarrow> Inl e | Inr _ \<Rightarrow> Inr (elevate env cmd args))"

datatype child = SpawnError string | Exited int string string | Unfinished

record command_result =
  success :: bool
  cr_stdout :: string
  cr_stderr :: "exec_error + string"
  cr_data :: "json option"

definition refusal :: "exec_error \<Rightarrow> command_result" where
  "refusal e = \<lparr>success = False, cr_stdout = [], cr_stderr = Inl e, cr_data = None\<rparr>"

definition failure :: "string \<Rightarrow> command_result" where
  "failure msg = \<lparr>success = False, cr_stdout = [], cr_stderr = Inr msg, cr_data = None\<rparr>"

definition execute :: "(schema \<Rightarrow> val \<Rightarrow> bool) \<Rightarrow> exec_env \<Rightarrow> (string \<Rightarrow> string list \<Rightarrow> nat \<Rightarrow> child) \<Rightarrow> string \<Rightarrow> string list \<Rightarrow> nat \<Rightarrow> command_result" where
  "execute safeParse env spawn cmd args timeoutMs =
    (if \<not> isWhitelisted env cmd then refusal (NotWhitelisted cmd)
     else case validateArguments safeParse env cmd args of
       Inl e \<Rightarrow> refusal e
     | Inr _ \<Rightarrow> (let (finalCmd, finalArgs) = elevate env cmd args in
        case spawn finalCmd finalArgs timeoutMs of
          SpawnError msg \<Rightarrow> failure msg
        | Unfinished \<Rightarrow> failure (''Command '' @ [CHR 0x27] @ cmd @ '' '' @ join_with '' '' args @ [CHR 0x27] @ '' timed out after '' @ nat_decimal timeoutMs @ ''ms'')
        | Exited code out err \<Rightarrow>
           \<lparr>success = (code = 0), cr_stdout = out, cr_stderr = Inr err,
            cr_data = (if starts_with (trimStart out) ''{'' \<or> starts_with (trimStart out) ''['' then JSON_parse out else None)\<rparr>))"

section \<open>What reaches the operating system\<close>

text \<open>What is documented of \<open>path.basename\<close>: a name without separators is its own last part.\<close>

definition basename_law :: "exec_env \<Rightarrow> bool" where
  "basename_law env \<longleftrightarrow> (\<forall>s. CHR ''/'' \<notin> set s \<and> CHR 0x5C \<notin> set s \<longrightarrow> basename env s = s)"

lemma executeAsync_ok:
  assumes "executeAsync safeParse env cmd args = Inr run"
  obtains p where "isWhitelisted env cmd" "policyOf env cmd = Some p" "safeParse (cp_schema p) (argVal args)"
    "checkArguments env cmd p args = Inr ()" "run = elevate env cmd args"
  using assms by (auto simp: executeAsync_def validateArguments_def split: if_splits option.splits sum.splits)

lemma checkArguments_ok: "checkArguments env cmd p args = Inr () \<longleftrightarrow> (\<forall>arg \<in> set args. checkArgument env cmd p arg = Inr ())"
  by (induction args) (auto split: sum.splits)

lemma checkArgument_ok:
  assumes "checkArgument env cmd p arg = Inr ()"
  shows "\<forall>b \<in> set (blockedStrings p). \<not> js_includes arg b"
    and "schemaOwnsArgumentValidation p \<or> jsonArgument (basename env cmd) arg \<or> \<not> hasAny '';&|><`$!'' arg"
    and "isPathSensitive env cmd \<Longrightarrow> validateSensitiveArgument env arg (basename env cmd) = Inr ()"
  using assms by (auto simp: checkArgument_def find_None_iff split: option.splits if_splits)

text \<open>Only the shell has a policy that answers for metacharacters itself.\<close>

lemma schemaOwns_sh:
  assumes "map_of (COMMAND_POLICIES env) k = Some p" and "schemaOwnsArgumentValidation p"
  shows "k = ''sh''"
proof -
  have "list_all (\<lambda>(k, p). k = ''sh'' \<or> \<not> schemaOwnsArgumentValidation p) (COMMAND_POLICIES env)"
    by (simp add: COMMAND_POLICIES_def Let_def policy_def)
  then show ?thesis using map_of_SomeD [OF assms(1)] assms(2) by (auto simp: list_all_iff)
qed

definition policyNames :: "string list" where
  "policyNames = [
    ''pfctl'', ''launchctl'', ''spctl'', ''ps'', ''killall'', ''ifconfig'', ''pktmon'', ''powershell'', ''netsh'', ''taskkill'', ''systemctl'', ''ufw'',
    ''kill'', ''chmod'', ''mkdir'', ''tcpdump'', ''ls'', ''cp'', ''mv'', ''sw_vers'', ''which'', ''clamscan'', ''sha256sum'', ''crontab'', ''where'',
    ''tc'', ''gcore'', ''tpm2_nvdefine'', ''tpm2_nvwrite'', ''tpm2_nvread'', ''tpm2_pcrread'', ''wg-quick'', ''wg'', ''system_profiler'', ''ss'',
    ''unshare'', ''iptables'', ''tpm2_sign'', ''tpm2_hash'', ''rkhunter'', ''security'', ''ip'', ''sysctl'', ''nmcli'', ''ping'', ''host'', ''scp'',
    ''ssh'', ''/var/lib/cts/scripts/install_service.sh'', ''/var/lib/cts/scripts/update_crontab.sh'', ''/var/lib/cts/scripts/update_comm.sh'',
    ''/var/lib/cts/scripts/secure_spawn.sh'', ''cat'', ''sh'', ''rm'', ''openssl'', ''analyzer'', ''enforcer'', ''decoy'', ''netcap'', ''ebpf'',
    ''sentinel'', ''watchfile'', ''tunnel'', ''sentinel-darwin'', ''telemetry-win'', ''enforcer-win'']"

lemma policy_keys: "map fst (COMMAND_POLICIES env) = policyNames"
  by (simp add: COMMAND_POLICIES_def Let_def policyNames_def)

lemma whitelisted_keys: "cmd \<in> set WHITELISTED_COMMANDS \<Longrightarrow> cmd = ''netstat'' \<or> cmd \<in> fst ` set (COMMAND_POLICIES env)"
proof -
  have "list_all (\<lambda>c. c = ''netstat'' \<or> c \<in> set policyNames) WHITELISTED_COMMANDS" by code_simp
  then show "cmd \<in> set WHITELISTED_COMMANDS \<Longrightarrow> ?thesis" unfolding set_map [symmetric] policy_keys by (simp add: list_all_iff)
qed

lemma owns_validation_sh:
  assumes "isWhitelisted env cmd" and "basename_law env" and "policyOf env cmd = Some p" and "schemaOwnsArgumentValidation p"
  shows "cmd = ''sh''"
proof (cases "map_of (COMMAND_POLICIES (ee_paths env)) cmd")
  case (Some q)
  then show ?thesis using assms(3,4) schemaOwns_sh by (auto simp: policyOf_def)
next
  case None
  then have b: "basename env cmd = ''sh''" using assms(3,4) schemaOwns_sh by (auto simp: policyOf_def)
  have n: "\<not> (stripExe ''sh'' \<in> set PATH_RESOLVABLE_COMMANDS)" by code_simp
  have "cmd \<notin> fst ` set (COMMAND_POLICIES (ee_paths env))" using None by (simp add: map_of_eq_None_iff)
  moreover have "basename env ''netstat'' = ''netstat''" using assms(2) by (simp add: basename_law_def)
  ultimately have "cmd \<notin> set WHITELISTED_COMMANDS" using whitelisted_keys [of cmd "ee_paths env"] b by auto
  then have "CHR ''/'' \<notin> set cmd \<and> CHR 0x5C \<notin> set cmd" using assms(1) b n by (auto simp: isWhitelisted_def Let_def split: if_splits)
  then have "cmd = basename env cmd" using assms(2) unfolding basename_law_def by simp
  then show ?thesis unfolding b .
qed

text \<open>The file commands whose schema confines every path to the jails.\<close>

definition fileCommands :: "string list" where
  "fileCommands = [''cp'', ''mv'', ''mkdir'', ''ls'', ''sha256sum'']"

context zod
begin

lemma file_arguments:
  assumes "cmd \<in> set fileCommands" and "map_of (COMMAND_POLICIES env) cmd = Some p" and "safeParse (cp_schema p) (argVal args)"
    and "arg \<in> set args" and "\<not> starts_with arg ''-''"
  shows "jailed env arg"
proof -
  have "cmd = ''cp'' \<or> cmd = ''mv'' \<or> cmd = ''mkdir'' \<or> cmd = ''ls'' \<or> cmd = ''sha256sum''" using assms(1) by (auto simp: fileCommands_def)
  then have "cp_schema p = CP_SCHEMA env \<or> cp_schema p = MKDIR_SCHEMA env \<or> cp_schema p = LS_SCHEMA env \<or> cp_schema p = SHA256SUM_SCHEMA env"
    using assms(2) by (elim disjE) (auto simp: COMMAND_POLICIES_def Let_def policy_def MV_SCHEMA_def)
  then consider "cp_schema p = CP_SCHEMA env" | "cp_schema p = MKDIR_SCHEMA env" | "cp_schema p = LS_SCHEMA env" | "cp_schema p = SHA256SUM_SCHEMA env"
    by blast
  then show ?thesis
  proof cases
    case 1
    then show ?thesis using assms(3-5) unfolding CP_SCHEMA_def Let_def by (simp add: parse_superRefine list_all_iff)
  next
    case 2
    have l: "length args \<le> 2" "args \<noteq> []" using assms(3,4) unfolding 2 MKDIR_SCHEMA_def parse_superRefine max_length by (auto simp: argVal_def)
    have m: "(length args = 2 \<longrightarrow> args ! 0 = ''-p'') \<and> jailed env (if length args = 2 then args ! 1 else following args)"
      using assms(3) unfolding 2 MKDIR_SCHEMA_def parse_superRefine Let_def by blast
    show ?thesis
    proof (cases "length args = 2")
      case True
      then obtain a b where ab: "args = [a, b]" by (auto simp: length_Suc_conv numeral_2_eq_2)
      then show ?thesis using m assms(4,5) by auto
    next
      case False
      then obtain a where "args = [a]" using l by (cases args) (auto simp: le_Suc_eq numeral_2_eq_2)
      then show ?thesis using m assms(4) by (simp add: following_def)
    qed
  next
    case 3
    then show ?thesis using assms(3-5) unfolding LS_SCHEMA_def by (simp add: parse_superRefine list_all_iff)
  next
    case 4
    then have "length args \<le> 1" "length args = 1 \<longrightarrow> jailed env (args ! 0)"
      using assms(3) unfolding SHA256SUM_SCHEMA_def by (simp_all add: parse_superRefine parse_strings)
    then show ?thesis using assms(4) by (cases args) auto
  qed
qed

end

lemma whitelisted_name:
  assumes "isWhitelisted env cmd" and "basename_law env"
  shows "cmd \<in> set WHITELISTED_COMMANDS \<or> stripExe (basename env cmd) \<in> set PATH_RESOLVABLE_COMMANDS"
  using assms unfolding isWhitelisted_def basename_law_def Let_def by metis

lemma execute_refused: "executeAsync safeParse env cmd args = Inl e \<Longrightarrow> execute safeParse env spawn cmd args t = refusal e"
  by (auto simp: executeAsync_def execute_def split: if_splits sum.splits)


definition plainExec :: exec_env where
  "plainExec = \<lparr>ee_paths = plainEnv, basename = (\<lambda>s. rev (takeWhile (\<lambda>c. c \<noteq> CHR ''/'' \<and> c \<noteq> CHR 0x5C) (rev s))), is_root = False\<rparr>"

lemma plain_basename: "basename_law plainExec"
proof -
  have "rev (takeWhile (\<lambda>c. c \<noteq> CHR ''/'' \<and> c \<noteq> CHR 0x5C) (rev s)) = s" if "CHR ''/'' \<notin> set s" "CHR 0x5C \<notin> set s" for s
  proof -
    have "takeWhile (\<lambda>c. c \<noteq> CHR ''/'' \<and> c \<noteq> CHR 0x5C) (rev s) = rev s" using that by (intro takeWhile_eq_all_conv [THEN iffD2]) auto
    then show ?thesis by (simp only: rev_rev_ident)
  qed
  then show ?thesis unfolding basename_law_def plainExec_def exec_env.simps by blast
qed

lemma sample_mkdir: "executeAsync check plainExec ''mkdir'' [''/tmp/a''] = Inr (''sudo'', [''-n'', ''mkdir'', ''/tmp/a''])"
  by code_simp


section \<open>Where the checks have holes\<close>

text \<open>
  Paths in JSON arrays escape the jail. \<open>extractPathsFromJson\<close> skips strings that are elements of an array, also below
  a key that names paths, and everything nested deeper than ten levels; so a request that hands the scanner a
  list of paths outside every jail is executed.
\<close>

lemma json_array_paths_escape:
  "extractPathsFromJson (JObj [(key, JArr (map JStr ps))]) False 0 = [] \<and>
   extractPathsFromJson v inPathContext (11 + n) = [] \<and>
   (let request = CHR ''{'' # quote ''type'' @ '':'' @ quote ''SCAN'' @ '','' @ quote ''paths'' @ '':['' @ quote ''/etc/shadow'' @ '']}'' in
     executeAsync check plainExec ''analyzer'' [request] = Inr (''analyzer'', [request])) \<and>
   \<not> jailed plainEnv ''/etc/shadow''"
proof (intro conjI)
  have "extractPathsFromJson (JStr s) c d = []" for s c d by (subst extractPathsFromJson.simps) simp
  then show "extractPathsFromJson (JObj [(key, JArr (map JStr ps))]) False 0 = []"
    by (subst extractPathsFromJson.simps, simp) (subst extractPathsFromJson.simps, simp)
  show "extractPathsFromJson v inPathContext (11 + n) = []" by (subst extractPathsFromJson.simps) simp
qed code_simp+

text \<open>The policy of \<open>rm\<close> tests only the two ends of the path, and \<open>rm\<close> is not path-sensitive.\<close>

lemma rm_escapes: "executeAsync check plainExec ''rm'' [''/var/lib/cts/tmp/cts-profile-x/../../../../../etc/y.profile''] =
    Inr (''rm'', [''/var/lib/cts/tmp/cts-profile-x/../../../../../etc/y.profile''])"
  by code_simp

text \<open>The policy is looked up under the full base name: a sidecar with the suffix that the whitelist strips has none.\<close>

lemma exe_sidecar_refused: "isWhitelisted plainExec ''C:/cts/enforcer-win.exe'' \<and>
    executeAsync check plainExec ''C:/cts/enforcer-win.exe'' [] = Inl (NoPolicy ''C:/cts/enforcer-win.exe'')"
  by code_simp

end
