(* ===== verification/Mmdb_Reader.thy ===== *)
theory Mmdb_Reader
  imports Net_Validation Path_Validation "HOL-Library.Log_Nat" "HOL-Library.Word" "HOL-Library.Code_Target_Nat"
begin

text \<open>
  The reader of MaxMind databases, infrastructure/system/geoip/mmdb_reader.ts: metadata, the walk through the
  binary search tree and the decoder of the data section, over arbitrary bytes. Reading past
  the end gives \<open>undefined\<close>, which counts as zero under bit operations and turns sums and
  products into NaN. The text of a value that is not a string and the number of a value that is none are
  conversions of the language, given as parameters.
\<close>

section \<open>Numbers\<close>

text \<open>The numbers that occur: natural numbers, infinity and NaN.\<close>

datatype jsnum = NaN | Infinity | Fin nat

fun addNum :: "jsnum \<Rightarrow> jsnum \<Rightarrow> jsnum" where
  "addNum (Fin a) (Fin b) = Fin (a + b)"
| "addNum NaN b = NaN"
| "addNum a NaN = NaN"
| "addNum _ _ = Infinity"

fun numLess :: "jsnum \<Rightarrow> jsnum \<Rightarrow> bool" where
  "numLess (Fin a) (Fin b) = (a < b)"
| "numLess (Fin a) Infinity = True"
| "numLess _ _ = False"

definition numGe :: "jsnum \<Rightarrow> jsnum \<Rightarrow> bool" where
  "numGe a b \<longleftrightarrow> numLess b a \<or> (a = b \<and> a \<noteq> NaN)"

text \<open>Rounding of a natural number to 53 significant bits, ties to even.\<close>

definition roundDouble :: "nat \<Rightarrow> jsnum" where
  "roundDouble n = (if n < 2 ^ 53 then Fin n
     else let e = floorlog 2 n - 53; q = n div 2 ^ e; r = n mod 2 ^ e;
              q' = (if 2 * r > 2 ^ e \<or> (2 * r = 2 ^ e \<and> odd q) then q + 1 else q)
          in if floorlog 2 (q' * 2 ^ e) \<le> 1024 then Fin (q' * 2 ^ e) else Infinity)"

section \<open>Bytes and text\<close>

type_synonym bytes = "nat list"

text \<open>\<open>buf[i]\<close>, and its value as operand of a bit operation.\<close>

definition byteAt :: "bytes \<Rightarrow> jsnum \<Rightarrow> nat option" where
  "byteAt buf i = (case i of Fin n \<Rightarrow> if n < length buf then Some (buf ! n) else None | _ \<Rightarrow> None)"

definition bitsAt :: "bytes \<Rightarrow> jsnum \<Rightarrow> nat" where
  "bitsAt buf i = (case byteAt buf i of None \<Rightarrow> 0 | Some b \<Rightarrow> b)"

definition subarray :: "bytes \<Rightarrow> nat \<Rightarrow> jsnum \<Rightarrow> bytes" where
  "subarray buf start sz = (case sz of NaN \<Rightarrow> [] | Infinity \<Rightarrow> drop start buf | Fin n \<Rightarrow> take n (drop start buf))"

text \<open>\<open>TextDecoder("utf-8")\<close>: a byte order mark is dropped, a maximal invalid sequence becomes U+FFFD.\<close>

definition continuation :: "nat \<Rightarrow> nat \<Rightarrow> nat \<Rightarrow> bool" where
  "continuation b i c \<longleftrightarrow> 128 \<le> c \<and> c \<le> 191 \<and> (i = 0 \<longrightarrow>
     (b = 224 \<longrightarrow> 160 \<le> c) \<and> (b = 237 \<longrightarrow> c \<le> 159) \<and> (b = 240 \<longrightarrow> 144 \<le> c) \<and> (b = 244 \<longrightarrow> c \<le> 143))"

fun goodBytes :: "nat \<Rightarrow> nat \<Rightarrow> nat \<Rightarrow> bytes \<Rightarrow> nat" where
  "goodBytes b i k [] = 0"
| "goodBytes b i k (c # cs) = (if 0 < k \<and> continuation b i c then Suc (goodBytes b (Suc i) (k - 1) cs) else 0)"

function utf8Text :: "bytes \<Rightarrow> string" where
  "utf8Text [] = []"
| "utf8Text (b # r) =
    (let k = leadingLength b; n = goodBytes b 0 (k - 1) r in
     if k = 0 \<or> n \<noteq> k - 1 then [CHR 0xEF, CHR 0xBF, CHR 0xBD] @ utf8Text (drop n r)
     else map char_of (b # take n r) @ utf8Text (drop n r))"
  by pat_completeness auto
termination
  by (relation "measure length") auto

definition utf8 :: "bytes \<Rightarrow> string" where
  "utf8 bs = utf8Text (if take 3 bs = [239, 187, 191] then drop 3 bs else bs)"

section \<open>The data section\<close>

datatype mval = MNull | MStr string | MDouble bytes | MFloat bytes | MBytes bytes | MNum jsnum | MInt int | MBool bool
  | MMap "(string \<times> mval) list" | MArr "mval list"

datatype mmdb_error = NotMmdb | Nesting | OutsideFile | MapSize | ArraySize | RecordSize | RangeError | TypeError

record conversions =
  toText :: "mval \<Rightarrow> string"
  toNumber :: "mval option \<Rightarrow> jsnum"

definition MAX_DECODE_DEPTH :: nat where "MAX_DECODE_DEPTH = 64"
definition MAX_CONTAINER_ENTRIES :: nat where "MAX_CONTAINER_ENTRIES = 4096"

definition readUint :: "bytes \<Rightarrow> nat \<Rightarrow> nat \<Rightarrow> jsnum" where
  "readUint buf off sz = foldl (\<lambda>v i. case v of
       Fin n \<Rightarrow> (case byteAt buf (Fin (off + i)) of None \<Rightarrow> NaN | Some b \<Rightarrow> roundDouble (n * 256 + b))
     | Infinity \<Rightarrow> (case byteAt buf (Fin (off + i)) of None \<Rightarrow> NaN | Some b \<Rightarrow> Infinity)
     | NaN \<Rightarrow> NaN) (Fin 0) [0..<sz]"

text \<open>Shifts and bitwise or at 32 bits.\<close>

definition readInt32 :: "bytes \<Rightarrow> nat \<Rightarrow> nat \<Rightarrow> int" where
  "readInt32 buf off sz = sint (foldl (\<lambda>v i. push_bit 8 v + word_of_nat (bitsAt buf (Fin (off + i)))) (0 :: 32 word) [0..<sz])"

definition sizeNat :: "jsnum \<Rightarrow> nat" where
  "sizeNat s = (case s of Fin n \<Rightarrow> n | _ \<Rightarrow> 0)"

text \<open>The size from the low five bits of the control byte, and the cursor behind it.\<close>

definition readSize :: "bytes \<Rightarrow> nat \<Rightarrow> nat \<Rightarrow> jsnum \<times> nat" where
  "readSize buf ctrl cursor = (let sz = ctrl mod 32 in
     if sz = 29 then (case byteAt buf (Fin cursor) of None \<Rightarrow> NaN | Some b \<Rightarrow> Fin (29 + b), cursor + 1)
     else if sz = 30 then (Fin (285 + (bitsAt buf (Fin cursor) * 256 + bitsAt buf (Fin (cursor + 1)))), cursor + 2)
     else if sz = 31 then
       (Fin (65821 + (bitsAt buf (Fin cursor) * 65536 + bitsAt buf (Fin (cursor + 1)) * 256 + bitsAt buf (Fin (cursor + 2)))), cursor + 3)
     else (Fin sz, cursor))"

text \<open>The target of a pointer and the cursor behind it.\<close>

definition readPointer :: "bytes \<Rightarrow> nat \<Rightarrow> nat \<Rightarrow> jsnum \<times> nat" where
  "readPointer buf ctrl cursor =
    (let pSize = ctrl div 8 mod 4; low = ctrl mod 8; b = (\<lambda>i. bitsAt buf (Fin (cursor + i))) in
     if pSize = 0 then (Fin (low * 256 + b 0), cursor + 1)
     else if pSize = 1 then (Fin (low * 65536 + b 0 * 256 + b 1 + 2048), cursor + 2)
     else if pSize = 2 then (Fin (low * 16777216 + b 0 * 65536 + b 1 * 256 + b 2 + 526336), cursor + 3)
     else (if byteAt buf (Fin cursor) = None \<or> byteAt buf (Fin (cursor + 3)) = None then NaN
           else Fin (b 0 * 16777216 + b 1 * 65536 + b 2 * 256 + b 3), cursor + 4))"

fun arrayLoop :: "(jsnum \<Rightarrow> mmdb_error + (mval \<times> jsnum)) \<Rightarrow> nat \<Rightarrow> jsnum \<Rightarrow> mmdb_error + (mval list \<times> jsnum)" where
  "arrayLoop dec 0 c = Inr ([], c)"
| "arrayLoop dec (Suc n) c = (case dec c of
     Inl e \<Rightarrow> Inl e
   | Inr (v, c') \<Rightarrow> (case arrayLoop dec n c' of Inl e \<Rightarrow> Inl e | Inr (vs, d) \<Rightarrow> Inr (v # vs, d)))"

definition keyText :: "conversions \<Rightarrow> mval \<Rightarrow> string" where
  "keyText conv k = (case k of MStr s \<Rightarrow> s | _ \<Rightarrow> toText conv k)"

fun mapLoop :: "conversions \<Rightarrow> (jsnum \<Rightarrow> mmdb_error + (mval \<times> jsnum)) \<Rightarrow> nat \<Rightarrow> jsnum \<Rightarrow> (string \<times> mval) list \<Rightarrow> mmdb_error + ((string \<times> mval) list \<times> jsnum)" where
  "mapLoop conv dec 0 c out = Inr (out, c)"
| "mapLoop conv dec (Suc n) c out = (case dec c of
     Inl e \<Rightarrow> Inl e
   | Inr (k, c') \<Rightarrow> (case dec c' of
       Inl e \<Rightarrow> Inl e
     | Inr (v, c'') \<Rightarrow> mapLoop conv dec n c'' (AList.update (keyText conv k) v out)))"

text \<open>A value that is no container and no pointer.\<close>

definition decodeScalar :: "bytes \<Rightarrow> nat \<Rightarrow> jsnum \<Rightarrow> nat \<Rightarrow> mmdb_error + mval" where
  "decodeScalar buf ty sz cursor =
    (if ty = 2 then Inr (MStr (utf8 (subarray buf cursor sz)))
     else if ty = 3 then (if cursor + 8 \<le> length buf then Inr (MDouble (take 8 (drop cursor buf))) else Inl RangeError)
     else if ty = 4 then Inr (MBytes (subarray buf cursor sz))
     else if ty \<in> {5, 6, 9, 10} then Inr (MNum (readUint buf cursor (sizeNat sz)))
     else if ty = 8 then Inr (MInt (readInt32 buf cursor (sizeNat sz)))
     else if ty = 15 then (if cursor + 4 \<le> length buf then Inr (MFloat (take 4 (drop cursor buf))) else Inl RangeError)
     else Inr MNull)"

text \<open>The cases on the type. \<open>dec\<close> decodes at one level deeper; a type that is NaN matches no case.\<close>

definition decodeTyped :: "conversions \<Rightarrow> (jsnum \<Rightarrow> mmdb_error + (mval \<times> jsnum)) \<Rightarrow> bytes \<Rightarrow> nat option \<Rightarrow> jsnum \<Rightarrow> nat \<Rightarrow> mmdb_error + (mval \<times> jsnum)" where
  "decodeTyped conv dec buf ty sz cursor =
    (if ty = Some 7 then
       (if MAX_CONTAINER_ENTRIES < sizeNat sz then Inl MapSize
        else map_sum id (\<lambda>(es, c). (MMap es, c)) (mapLoop conv dec (sizeNat sz) (Fin cursor) []))
     else if ty = Some 11 then
       (if MAX_CONTAINER_ENTRIES < sizeNat sz then Inl ArraySize
        else map_sum id (\<lambda>(vs, c). (MArr vs, c)) (arrayLoop dec (sizeNat sz) (Fin cursor)))
     else if ty = Some 14 then Inr (MBool (sz \<noteq> Fin 0), Fin cursor)
     else map_sum id (\<lambda>v. (v, addNum (Fin cursor) sz)) (decodeScalar buf (case ty of None \<Rightarrow> 0 | Some t \<Rightarrow> t) sz cursor))"

text \<open>\<open>levels\<close> is the number of nested calls still allowed, \<open>MAX_DECODE_DEPTH + 1 - depth\<close>; \<open>base\<close> is what pointers
  are relative to. The type is NaN when its extension byte is missing.\<close>

fun decode :: "conversions \<Rightarrow> bytes \<Rightarrow> jsnum \<Rightarrow> nat \<Rightarrow> jsnum \<Rightarrow> mmdb_error + (mval \<times> jsnum)" where
  "decode conv buf base 0 off = Inl Nesting"
| "decode conv buf base (Suc levels) off = (case off of
     NaN \<Rightarrow> Inr (MNull, NaN)
   | Infinity \<Rightarrow> Inl OutsideFile
   | Fin o' \<Rightarrow>
      (if length buf \<le> o' then Inl OutsideFile
       else let ctrl = buf ! o'; t = ctrl div 32;
                ty = (if t = 0 then map_option (\<lambda>b. 7 + b) (byteAt buf (Fin (o' + 1))) else Some t);
                cursor = (if t = 0 then o' + 2 else o' + 1) in
         if ty = Some 1 then
           (let (target, next') = readPointer buf ctrl cursor in
            map_sum id (\<lambda>(v, _). (v, Fin next')) (decode conv buf base levels (addNum base target)))
         else (let (sz, cursor) = readSize buf ctrl cursor in decodeTyped conv (decode conv buf base levels) buf ty sz cursor)))"

declare decode.simps(2) [simp del]

section \<open>Metadata\<close>

definition METADATA_MARKER :: bytes where
  "METADATA_MARKER = [0xab, 0xcd, 0xef, 0x4d, 0x61, 0x78, 0x4d, 0x69, 0x6e, 0x64, 0x2e, 0x63, 0x6f, 0x6d]"

definition DATA_SECTION_SEPARATOR :: nat where "DATA_SECTION_SEPARATOR = 16"

text \<open>The position behind the last occurrence of the marker.\<close>

definition markerAt :: "bytes \<Rightarrow> nat \<Rightarrow> bool" where
  "markerAt buf i \<longleftrightarrow> take (length METADATA_MARKER) (drop i buf) = METADATA_MARKER"

fun findFrom :: "bytes \<Rightarrow> nat \<Rightarrow> nat option" where
  "findFrom buf 0 = (if markerAt buf 0 then Some (length METADATA_MARKER) else None)"
| "findFrom buf (Suc i) = (if markerAt buf (Suc i) then Some (Suc i + length METADATA_MARKER) else findFrom buf i)"

definition findMetadataStart :: "bytes \<Rightarrow> nat option" where
  "findMetadataStart buf = (if length buf < length METADATA_MARKER then None else findFrom buf (length buf - length METADATA_MARKER))"

record metadata =
  nodeCount :: jsnum
  recordSize :: nat
  ipVersion :: jsnum
  databaseType :: string
  buildEpoch :: jsnum

definition fieldOf :: "string \<Rightarrow> mval \<Rightarrow> mval option" where
  "fieldOf k m = (case m of MMap es \<Rightarrow> map_of es k | _ \<Rightarrow> None)"

text \<open>\<open>Number(v)\<close>, and \<open>v ?? d\<close>.\<close>

definition numberOf :: "conversions \<Rightarrow> mval option \<Rightarrow> jsnum" where
  "numberOf conv v = (case v of None \<Rightarrow> NaN | Some (MNum n) \<Rightarrow> n | _ \<Rightarrow> toNumber conv v)"

definition orElse :: "mval option \<Rightarrow> mval \<Rightarrow> mval" where
  "orElse v d = (case v of None \<Rightarrow> d | Some MNull \<Rightarrow> d | Some w \<Rightarrow> w)"

definition readMetadata :: "conversions \<Rightarrow> bytes \<Rightarrow> mmdb_error + metadata" where
  "readMetadata conv buf = (case findMetadataStart buf of
     None \<Rightarrow> Inl NotMmdb
   | Some start \<Rightarrow>
      (case decode conv buf (Fin start) (MAX_DECODE_DEPTH + 1) (Fin start) of
         Inl e \<Rightarrow> Inl e
       | Inr (m, _) \<Rightarrow>
          (if m = MNull then Inl TypeError
           else case numberOf conv (fieldOf ''record_size'' m) of
             Fin rs \<Rightarrow>
              (if rs \<notin> {24, 28, 32} then Inl RecordSize
               else Inr \<lparr>nodeCount = numberOf conv (fieldOf ''node_count'' m), recordSize = rs,
                 ipVersion = numberOf conv (fieldOf ''ip_version'' m),
                 databaseType = keyText conv (orElse (fieldOf ''database_type'' m) (MStr ''unknown'')),
                 buildEpoch = numberOf conv (Some (orElse (fieldOf ''build_epoch'' m) (MNum (Fin 0))))\<rparr>)
           | _ \<Rightarrow> Inl RecordSize)))"

record mmdb =
  buf :: bytes
  meta :: metadata
  ipv4StartNode :: "jsnum option"

text \<open>The cache of the start node is \<^const>\<open>None\<close> for the initial \<open>-1\<close>.\<close>

definition fromBuffer :: "conversions \<Rightarrow> bytes \<Rightarrow> mmdb_error + mmdb" where
  "fromBuffer conv bs = map_sum id (\<lambda>m. \<lparr>buf = bs, meta = m, ipv4StartNode = None\<rparr>) (readMetadata conv bs)"

definition nodeByteSize :: "mmdb \<Rightarrow> nat" where
  "nodeByteSize r = recordSize (meta r) * 2 div 8"

definition mulNum :: "jsnum \<Rightarrow> nat \<Rightarrow> jsnum" where
  "mulNum a k = (case a of Fin n \<Rightarrow> Fin (n * k) | _ \<Rightarrow> a)"

definition searchTreeSize :: "mmdb \<Rightarrow> jsnum" where
  "searchTreeSize r = mulNum (nodeCount (meta r)) (nodeByteSize r)"

definition dataSectionStart :: "mmdb \<Rightarrow> jsnum" where
  "dataSectionStart r = addNum (searchTreeSize r) (Fin DATA_SECTION_SEPARATOR)"

section \<open>The search tree\<close>

definition readRecord :: "mmdb \<Rightarrow> jsnum \<Rightarrow> bool \<Rightarrow> jsnum" where
  "readRecord r node which =
    (let base = mulNum node (nodeByteSize r); rs = recordSize (meta r); w = of_bool which;
         b = (\<lambda>i. bitsAt (buf r) (addNum base (Fin i))) in
     if rs = 24 then Fin (b (w * 3) * 65536 + b (w * 3 + 1) * 256 + b (w * 3 + 2))
     else if rs = 32 then
       (if byteAt (buf r) (addNum base (Fin (w * 4))) = None \<or> byteAt (buf r) (addNum base (Fin (w * 4 + 3))) = None then NaN
        else Fin (b (w * 4) * 16777216 + b (w * 4 + 1) * 65536 + b (w * 4 + 2) * 256 + b (w * 4 + 3)))
     else if \<not> which then Fin (b 3 div 16 * 16777216 + b 0 * 65536 + b 1 * 256 + b 2)
     else Fin (b 3 mod 16 * 16777216 + b 4 * 65536 + b 5 * 256 + b 6))"

fun walkNodes :: "mmdb \<Rightarrow> jsnum \<Rightarrow> bool list \<Rightarrow> jsnum" where
  "walkNodes r node [] = node"
| "walkNodes r node (b # bs) = (if numGe node (nodeCount (meta r)) then node else walkNodes r (readRecord r node b) bs)"

text \<open>\<open>node - nodeCount + searchTreeSize\<close>, for a node beyond the tree.\<close>

definition dataOffset :: "mmdb \<Rightarrow> jsnum \<Rightarrow> jsnum" where
  "dataOffset r node = (case (node, nodeCount (meta r)) of (Fin n, Fin c) \<Rightarrow> addNum (Fin (n - c)) (searchTreeSize r) | _ \<Rightarrow> NaN)"

definition walkFrom :: "conversions \<Rightarrow> mmdb \<Rightarrow> jsnum \<Rightarrow> bool list \<Rightarrow> mmdb_error + mval option" where
  "walkFrom conv r start bs =
    (let node = walkNodes r start bs in
     if node = nodeCount (meta r) \<and> node \<noteq> NaN then Inr None
     else if numLess (nodeCount (meta r)) node then
       map_sum id (\<lambda>(v, _). Some v) (decode conv (buf r) (dataSectionStart r) (MAX_DECODE_DEPTH + 1) (dataOffset r node))
     else Inr None)"

fun zeroWalk :: "mmdb \<Rightarrow> nat \<Rightarrow> jsnum \<Rightarrow> jsnum" where
  "zeroWalk r 0 node = node"
| "zeroWalk r (Suc i) node = (if numLess node (nodeCount (meta r)) then zeroWalk r i (readRecord r node False) else node)"

definition ipv4Start :: "mmdb \<Rightarrow> jsnum \<times> mmdb" where
  "ipv4Start r = (case ipv4StartNode r of
     Some (Fin n) \<Rightarrow> (Fin n, r)
   | _ \<Rightarrow> (let node = zeroWalk r 96 (Fin 0) in (node, r\<lparr>ipv4StartNode := Some node\<rparr>)))"

section \<open>Addresses\<close>

definition bytesToBits :: "bytes \<Rightarrow> bool list" where
  "bytesToBits bs = concat (map (\<lambda>b. map (\<lambda>i. odd (b div 2 ^ (7 - i))) [0..<8]) bs)"

definition parseIpv4 :: "string \<Rightarrow> bytes option" where
  "parseIpv4 ip = (let parts = split_char (CHR ''.'') ip in
     if length parts \<noteq> 4 then None
     else if list_all (\<lambda>p. 1 \<le> length p \<and> length p \<le> 3 \<and> list_all is_digit p \<and> Number p \<le> 255) parts then Some (map Number parts) else None)"

definition hextet :: "string \<Rightarrow> nat option" where
  "hextet h = (if 1 \<le> length h \<and> length h \<le> 4 \<and> list_all (\<lambda>c. hexNibble c \<noteq> None) h
     then Some (foldl (\<lambda>v c. v * 16 + the (hexNibble c)) 0 h) else None)"

fun hextets :: "string list \<Rightarrow> nat list option" where
  "hextets [] = Some []"
| "hextets (h # hs) = (case hextet h of None \<Rightarrow> None | Some n \<Rightarrow> map_option (\<lambda>ns. n # ns) (hextets hs))"

definition groupBytes :: "nat list \<Rightarrow> bytes option" where
  "groupBytes gs = (if length gs \<noteq> 8 then None else Some (concat (map (\<lambda>g. [g div 256, g mod 256]) gs)))"

definition colonParts :: "string \<Rightarrow> string list" where
  "colonParts s = (if s = [] then [] else split_char (CHR '':'') s)"

definition parseIpv6 :: "string \<Rightarrow> bytes option" where
  "parseIpv6 ip = (if CHR ''.'' \<in> set ip then None
     else case splitDouble ip of
       [h] \<Rightarrow> (case hextets (colonParts h) of None \<Rightarrow> None | Some head \<Rightarrow> groupBytes head)
     | [h, t] \<Rightarrow> (case hextets (colonParts h) of None \<Rightarrow> None | Some head \<Rightarrow>
         (case hextets (colonParts t) of None \<Rightarrow> None | Some tail \<Rightarrow>
            (if 8 < length head + length tail then None
             else groupBytes (head @ replicate (8 - length head - length tail) 0 @ tail))))
     | _ \<Rightarrow> None)"

definition parseIp :: "string \<Rightarrow> bytes option" where
  "parseIp ip = (if CHR '':'' \<in> set ip then parseIpv6 ip else parseIpv4 ip)"

definition lookup :: "conversions \<Rightarrow> mmdb \<Rightarrow> string \<Rightarrow> (mmdb_error + mval option) \<times> mmdb" where
  "lookup conv r ip = (case parseIp ip of
     None \<Rightarrow> (Inr None, r)
   | Some addr \<Rightarrow>
      (if length addr = 4 then
         (if ipVersion (meta r) = Fin 4 then (walkFrom conv r (Fin 0) (bytesToBits addr), r)
          else (let (start, r') = ipv4Start r in (walkFrom conv r' start (bytesToBits addr), r')))
       else if ipVersion (meta r) = Fin 4 then (Inr None, r)
       else (walkFrom conv r (Fin 0) (bytesToBits addr), r)))"

section \<open>The tree as a set of networks\<close>

text \<open>The networks below a node and the node value each leads to.\<close>

datatype net = NoData | Data nat | Split net net

inductive stored :: "mmdb \<Rightarrow> nat \<Rightarrow> jsnum \<Rightarrow> net \<Rightarrow> bool" for r c where
  stored_none: "stored r c (Fin c) NoData"
| stored_data: "c < n \<Longrightarrow> stored r c (Fin n) (Data n)"
| stored_split: "n < c \<Longrightarrow> stored r c (readRecord r (Fin n) False) t \<Longrightarrow> stored r c (readRecord r (Fin n) True) u \<Longrightarrow> stored r c (Fin n) (Split t u)"

fun networks :: "net \<Rightarrow> (bool list \<times> nat) set" where
  "networks NoData = {}"
| "networks (Data n) = {([], n)}"
| "networks (Split t u) = (\<lambda>(p, n). (False # p, n)) ` networks t \<union> (\<lambda>(p, n). (True # p, n)) ` networks u"

lemma networks_Cons: "(b # q, n) \<in> networks (Split t u) \<longleftrightarrow> (q, n) \<in> networks (if b then u else t)"
  by (cases b) force+

lemma networks_Nil: "([], n) \<notin> networks (Split t u)"
  by auto

declare networks.simps(3) [simp del]

lemma walk_found:
  assumes "stored r c node t" and "nodeCount (meta r) = Fin c" and "(p, n) \<in> networks t" and "prefix p bs"
  shows "walkNodes r node bs = Fin n \<and> c < n"
  using assms(1,3,4)
proof (induction arbitrary: p bs rule: stored.induct)
  case (stored_data m)
  then show ?case by (cases bs) (auto simp: numGe_def assms(2))
next
  case (stored_split m t u)
  then obtain b q where p: "p = b # q" "(q, n) \<in> networks (if b then u else t)"
    by (cases p) (simp_all add: networks_Nil networks_Cons)
  then obtain bs' where bs: "bs = b # bs'" "prefix q bs'" using stored_split.prems(2) by (cases bs) auto
  have "\<not> numGe (Fin m) (Fin c)" using stored_split.hyps(1) by (simp add: numGe_def)
  then show ?case using stored_split.IH [of q bs'] p(2) bs by (cases b) (auto simp: assms(2))
qed simp

lemma walk_missing:
  assumes "stored r c node t" and "nodeCount (meta r) = Fin c" and "\<nexists>p n. (p, n) \<in> networks t \<and> prefix p bs"
  shows "\<exists>m \<le> c. walkNodes r node bs = Fin m"
  using assms(1,3)
proof (induction arbitrary: bs rule: stored.induct)
  case stored_none
  then show ?case by (cases bs) (auto simp: numGe_def assms(2))
next
  case (stored_split m t u)
  have g: "\<not> numGe (Fin m) (Fin c)" using stored_split.hyps(1) by (simp add: numGe_def)
  show ?case
  proof (cases bs)
    case Nil
    then show ?thesis using stored_split.hyps(1) by auto
  next
    case (Cons b bs')
    have "\<nexists>p n. (p, n) \<in> networks (if b then u else t) \<and> prefix p bs'"
      using stored_split.prems networks_Cons [of b _ _ t u] unfolding Cons by (metis Cons_prefix_Cons)
    then show ?thesis using stored_split.IH [of bs'] g by (cases b) (auto simp: Cons assms(2))
  qed
qed auto

lemma walkFrom_found:
  assumes "stored r c node t" and "nodeCount (meta r) = Fin c" and "(p, n) \<in> networks t" and "prefix p bs"
  shows "walkFrom conv r node bs =
    map_sum id (\<lambda>(v, _). Some v) (decode conv (buf r) (dataSectionStart r) (MAX_DECODE_DEPTH + 1) (dataOffset r (Fin n)))"
  using walk_found [OF assms] by (simp add: walkFrom_def Let_def assms(2))

lemma walkFrom_missing:
  assumes "stored r c node t" and "nodeCount (meta r) = Fin c" and "\<nexists>p n. (p, n) \<in> networks t \<and> prefix p bs"
  shows "walkFrom conv r node bs = Inr None"
  using walk_missing [OF assms] by (auto simp: walkFrom_def Let_def assms(2))

lemma walkNodes_append: "walkNodes r node (xs @ ys) = walkNodes r (walkNodes r node xs) ys"
proof (induction r node xs rule: walkNodes.induct)
  case (2 r node b bs)
  then show ?case by (cases ys) auto
qed simp

lemma zeroWalk_walkNodes:
  assumes "stored r c node t" and "nodeCount (meta r) = Fin c"
  shows "zeroWalk r k node = walkNodes r node (replicate k False)"
  using assms(1)
proof (induction k arbitrary: node t)
  case (Suc k)
  from Suc.prems show ?case
  proof (cases rule: stored.cases)
    case (stored_split n t u)
    then show ?thesis using Suc.IH [of "readRecord r (Fin n) False" t] by (simp add: assms(2) numGe_def)
  qed (simp_all add: assms(2) numGe_def)
qed simp

text \<open>The cache of the IPv4 start node holds what a fresh walk gives, and nothing else of the reader changes.\<close>

definition cache_ok :: "mmdb \<Rightarrow> mmdb \<Rightarrow> bool" where
  "cache_ok r0 r \<longleftrightarrow> buf r = buf r0 \<and> meta r = meta r0 \<and> ipv4StartNode r \<in> {None, Some (zeroWalk r0 96 (Fin 0))}"

lemma readRecord_cong: "buf r = buf r' \<Longrightarrow> meta r = meta r' \<Longrightarrow> readRecord r = readRecord r'"
  by (simp add: readRecord_def nodeByteSize_def fun_eq_iff Let_def)

lemma walkNodes_cong: "buf r = buf r' \<Longrightarrow> meta r = meta r' \<Longrightarrow> walkNodes r node bs = walkNodes r' node bs"
  by (induction bs arbitrary: node) (simp_all add: readRecord_cong [of r r'])

lemma zeroWalk_cong: "buf r = buf r' \<Longrightarrow> meta r = meta r' \<Longrightarrow> zeroWalk r k node = zeroWalk r' k node"
  by (induction k arbitrary: node) (simp_all add: readRecord_cong [of r r'])

lemma walkFrom_cong:
  assumes "buf r = buf r'" and "meta r = meta r'"
  shows "walkFrom conv r node bs = walkFrom conv r' node bs"
proof -
  have t: "searchTreeSize r = searchTreeSize r'" by (simp add: searchTreeSize_def nodeByteSize_def assms)
  have "dataSectionStart r = dataSectionStart r'" "dataOffset r = dataOffset r'" unfolding fun_eq_iff dataSectionStart_def dataOffset_def t assms by simp_all
  then show ?thesis unfolding walkFrom_def by (simp only: walkNodes_cong [OF assms] assms)
qed

lemma ipv4Start_cache: "cache_ok r0 r \<Longrightarrow> fst (ipv4Start r) = zeroWalk r0 96 (Fin 0) \<and> cache_ok r0 (snd (ipv4Start r))"
  using zeroWalk_cong [of r r0] by (auto simp: ipv4Start_def cache_ok_def Let_def split: option.splits jsnum.splits)

lemma lookup_cache: "cache_ok r0 r \<Longrightarrow> cache_ok r0 (snd (lookup conv r ip))"
  using ipv4Start_cache [of r0 r] by (auto simp: lookup_def split: option.split prod.split)

text \<open>The bits a lookup follows from the root; \<^const>\<open>None\<close> for text that is no address and for an IPv6 address in an
  IPv4 database.\<close>

definition addressBits :: "mmdb \<Rightarrow> string \<Rightarrow> bool list option" where
  "addressBits r ip = (case parseIp ip of
     None \<Rightarrow> None
   | Some addr \<Rightarrow>
      (if ipVersion (meta r) = Fin 4 then (if length addr = 4 then Some (bytesToBits addr) else None)
       else Some ((if length addr = 4 then replicate 96 False else []) @ bytesToBits addr)))"

lemma lookup_walk:
  assumes "cache_ok r0 r" and "stored r0 c (Fin 0) t" and "nodeCount (meta r0) = Fin c"
  shows "fst (lookup conv r ip) = (case addressBits r0 ip of None \<Rightarrow> Inr None | Some bs \<Rightarrow> walkFrom conv r0 (Fin 0) bs)"
proof -
  note z = zeroWalk_walkNodes [OF assms(2,3), of 96]
  have w: "walkFrom conv r0 (walkNodes r0 (Fin 0) zs) bs = walkFrom conv r0 (Fin 0) (zs @ bs)" for zs bs
    by (simp add: walkFrom_def walkNodes_append)
  obtain start r' where s: "ipv4Start r = (start, r')" by fastforce
  have s': "start = walkNodes r0 (Fin 0) (replicate 96 False)" "buf r' = buf r0" "meta r' = meta r0"
    using ipv4Start_cache [OF assms(1)] z by (simp_all add: s cache_ok_def)
  have r: "buf r = buf r0" "meta r = meta r0" using assms(1) by (simp_all add: cache_ok_def)
  show ?thesis
    unfolding lookup_def addressBits_def s by (simp add: walkFrom_cong [OF r] walkFrom_cong [OF s'(2,3)] s'(1) w r(2) split: option.split)
qed

text \<open>
  C28: a lookup finds the network of the address. Let the tree of a database, whatever its record size, store a set of
  networks. After any lookups before, which fill the cache of the IPv4 start node, a lookup follows the bits of the
  address (an IPv4 address in an IPv6 database behind 96 zero bits): if a network of the tree is a prefix of
  them, its record is decoded; if none is, or the text is no address or one of the wrong family,
  the answer is null.
\<close>

theorem mmdb_lookup:
  assumes "fromBuffer conv bytes = Inr r0" and "nodeCount (meta r0) = Fin c" and "stored r0 c (Fin 0) t"
    and "r = foldl (\<lambda>r ip. snd (lookup conv r ip)) r0 ips"
  shows "(case addressBits r0 ip of
      None \<Rightarrow> fst (lookup conv r ip) = Inr None
    | Some bs \<Rightarrow>
       (\<forall>p n. (p, n) \<in> networks t \<and> prefix p bs \<longrightarrow> fst (lookup conv r ip) =
          map_sum id (\<lambda>(v, _). Some v) (decode conv bytes (dataSectionStart r0) (MAX_DECODE_DEPTH + 1) (dataOffset r0 (Fin n)))) \<and>
       ((\<nexists>p n. (p, n) \<in> networks t \<and> prefix p bs) \<longrightarrow> fst (lookup conv r ip) = Inr None))"
proof -
  have b: "buf r0 = bytes" "cache_ok r0 r0" using assms(1) by (cases "readMetadata conv bytes"; auto simp: fromBuffer_def cache_ok_def)+
  have "cache_ok r0 r" unfolding assms(4) by (rule foldl_invariant) (auto simp: b lookup_cache)
  from lookup_walk [OF this assms(3,2)] show ?thesis
    using walkFrom_found [OF assms(3,2)] walkFrom_missing [OF assms(3,2)] by (auto simp: b split: option.split)
qed

section \<open>What a hostile file can do\<close>

lemma map_sum_Inr: "map_sum f g x = Inr y \<longleftrightarrow> (\<exists>z. x = Inr z \<and> y = g z)"
  by (cases x) auto


fun depthOf :: "mval \<Rightarrow> nat" where
  "depthOf (MMap es) = foldr max (map (\<lambda>e. Suc (depthOf (snd e))) es) 0"
| "depthOf (MArr vs) = foldr max (map (\<lambda>v. Suc (depthOf v)) vs) 0"
| "depthOf _ = 0"

fun narrow :: "mval \<Rightarrow> bool" where
  "narrow (MMap es) = (length es \<le> MAX_CONTAINER_ENTRIES \<and> list_all (\<lambda>e. narrow (snd e)) es)"
| "narrow (MArr vs) = (length vs \<le> MAX_CONTAINER_ENTRIES \<and> list_all narrow vs)"
| "narrow _ = True"

lemma foldr_max_le: "foldr max ns (0::nat) \<le> d \<longleftrightarrow> (\<forall>n \<in> set ns. n \<le> d)"
  by (induction ns) auto

lemma arrayLoop_all:
  assumes "arrayLoop dec n c = Inr (vs, c')" and "\<And>c v c'. dec c = Inr (v, c') \<Longrightarrow> P v"
  shows "length vs = n \<and> list_all P vs"
  using assms by (induction n arbitrary: c vs) (auto split: sum.splits)

lemma mapLoop_all:
  assumes "mapLoop conv dec n c out = Inr (es, c')" and "\<And>c v c'. dec c = Inr (v, c') \<Longrightarrow> P v" and "list_all (\<lambda>e. P (snd e)) out"
  shows "length es \<le> n + length out \<and> list_all (\<lambda>e. P (snd e)) es"
  using assms
proof (induction n arbitrary: c out)
  case (Suc n)
  obtain k c1 v c2 where d: "dec c = Inr (k, c1)" "dec c1 = Inr (v, c2)" and m: "mapLoop conv dec n c2 (AList.update (keyText conv k) v out) = Inr (es, c')"
    using Suc.prems(1) by (auto split: sum.splits)
  have "list_all (\<lambda>e. P (snd e)) (AList.update (keyText conv k) v out)"
    using Suc.prems(2) [OF d(2)] Suc.prems(3) by (induction out) auto
  moreover have "length (AList.update (keyText conv k) v out) \<le> Suc (length out)" by (simp add: length_update)
  ultimately show ?case using Suc.IH [OF m Suc.prems(2)] by fastforce
qed simp

lemma scalar_flat: "decodeScalar bf ty sz cursor = Inr v \<Longrightarrow> depthOf v = 0 \<and> narrow v"
  by (auto simp: decodeScalar_def split: if_splits)

lemma decodeTyped_bounded:
  assumes "decodeTyped conv dec bf ty sz cursor = Inr (v, c)" and dec: "\<And>c v c'. dec c = Inr (v, c') \<Longrightarrow> depthOf v < k \<and> narrow v"
  shows "depthOf v \<le> k \<and> narrow v"
proof -
  consider (map) es where "v = MMap es" "mapLoop conv dec (sizeNat sz) (Fin cursor) [] = Inr (es, c)" "sizeNat sz \<le> MAX_CONTAINER_ENTRIES"
    | (array) vs where "v = MArr vs" "arrayLoop dec (sizeNat sz) (Fin cursor) = Inr (vs, c)" "sizeNat sz \<le> MAX_CONTAINER_ENTRIES"
    | (flat) "depthOf v = 0 \<and> narrow v"
    using assms(1) scalar_flat by (fastforce simp: decodeTyped_def map_sum_Inr not_less split: if_splits)
  then show ?thesis
  proof cases
    case map
    from mapLoop_all [OF map(2), of "\<lambda>v. depthOf v < k \<and> narrow v"] dec
    have "length es \<le> sizeNat sz" "\<forall>e \<in> set es. depthOf (snd e) < k \<and> narrow (snd e)" by (auto simp: list_all_iff)
    then show ?thesis using map(1,3) by (auto simp: foldr_max_le list_all_iff Suc_le_eq)
  next
    case array
    from arrayLoop_all [OF array(2), of "\<lambda>v. depthOf v < k \<and> narrow v"] dec
    have "length vs = sizeNat sz" "\<forall>v \<in> set vs. depthOf v < k \<and> narrow v" by (auto simp: list_all_iff)
    then show ?thesis using array(1,3) by (auto simp: foldr_max_le list_all_iff Suc_le_eq)
  qed simp
qed

text \<open>One step of the decoder.\<close>

lemma decode_step:
  obtains (null) "decode conv bf base (Suc k) off = Inr (MNull, NaN)"
  | (outside) "decode conv bf base (Suc k) off = Inl OutsideFile"
  | (pointer) target n where "decode conv bf base (Suc k) off = map_sum id (\<lambda>(v, _). (v, Fin n)) (decode conv bf base k target)"
  | (typed) ty sz cursor where "decode conv bf base (Suc k) off = decodeTyped conv (decode conv bf base k) bf ty sz cursor"
proof (cases off)
  case (Fin o')
  then show ?thesis
  proof (cases "length bf \<le> o'")
    case False
    let ?ctrl = "bf ! o'"
    let ?ty = "if ?ctrl div 32 = 0 then map_option (\<lambda>b. 7 + b) (byteAt bf (Fin (o' + 1))) else Some (?ctrl div 32)"
    let ?cursor = "if ?ctrl div 32 = 0 then o' + 2 else o' + 1"
    show ?thesis
    proof (cases "?ty = Some 1")
      case True
      obtain target n where "readPointer bf ?ctrl ?cursor = (target, n)" by fastforce
      then have "decode conv bf base (Suc k) off = map_sum id (\<lambda>(v, _). (v, Fin n)) (decode conv bf base k (addNum base target))"
        using True False Fin by (simp only: decode.simps(2) jsnum.case Let_def if_False prod.case) simp
      then show ?thesis by (rule pointer)
    next
      case ty: False
      obtain sz c where "readSize bf ?ctrl ?cursor = (sz, c)" by fastforce
      then have "decode conv bf base (Suc k) off = decodeTyped conv (decode conv bf base k) bf ?ty sz c"
        using ty False Fin by (simp only: decode.simps(2) jsnum.case Let_def if_False prod.case)
      then show ?thesis by (rule typed)
    qed
  qed (use outside in \<open>simp add: decode.simps(2)\<close>)
qed (use null outside in \<open>simp_all add: decode.simps(2)\<close>)

lemma decode_bounded: "decode conv bf base k off = Inr (v, c) \<Longrightarrow> depthOf v < k \<and> narrow v"
proof (induction k arbitrary: off v c)
  case (Suc k)
  show ?case
  proof (rule decode_step [of conv bf base k off])
    fix target n assume "decode conv bf base (Suc k) off = map_sum id (\<lambda>(v, _). (v, Fin n)) (decode conv bf base k target)"
    then have "map_sum id (\<lambda>(v, _). (v, Fin n)) (decode conv bf base k target) = Inr (v, c)" using Suc.prems by simp
    then obtain c' where "decode conv bf base k target = Inr (v, c')" by (auto simp: map_sum_Inr)
    from Suc.IH [OF this] show ?thesis by simp
  next
    fix ty sz cursor assume "decode conv bf base (Suc k) off = decodeTyped conv (decode conv bf base k) bf ty sz cursor"
    then have "decodeTyped conv (decode conv bf base k) bf ty sz cursor = Inr (v, c)" using Suc.prems by simp
    from decodeTyped_bounded [OF this Suc.IH] show ?thesis by (simp add: less_Suc_eq_le)
  qed (use Suc.prems in simp_all)
qed simp

lemma loop_errors:
  assumes "\<And>c e. dec c = Inl e \<Longrightarrow> e \<in> E"
  shows "arrayLoop dec n c = Inl e \<Longrightarrow> e \<in> E" "mapLoop conv dec n c out = Inl e \<Longrightarrow> e \<in> E"
  using assms by (induction n arbitrary: c out) (fastforce split: sum.splits)+

lemma map_sum_Inl: "map_sum id g x = Inl e \<longleftrightarrow> x = Inl e"
  by (cases x) auto

abbreviation decodeErrors :: "mmdb_error set" where
  "decodeErrors \<equiv> {Nesting, OutsideFile, MapSize, ArraySize, RangeError}"

lemma decodeTyped_errors:
  assumes "decodeTyped conv dec bf ty sz cursor = Inl e" and "\<And>c e. dec c = Inl e \<Longrightarrow> e \<in> decodeErrors"
  shows "e \<in> decodeErrors"
  using assms(1) loop_errors [OF assms(2)] by (auto simp: decodeTyped_def decodeScalar_def map_sum_Inl split: if_splits)

lemma decode_errors: "decode conv bf base k off = Inl e \<Longrightarrow> e \<in> decodeErrors"
proof (induction k arbitrary: off e)
  case (Suc k)
  show ?case
  proof (rule decode_step [of conv bf base k off])
    fix target n assume "decode conv bf base (Suc k) off = map_sum id (\<lambda>(v, _). (v, Fin n)) (decode conv bf base k target)"
    then have "map_sum id (\<lambda>(v, _). (v, Fin n)) (decode conv bf base k target) = Inl e" using Suc.prems by simp
    then show ?thesis unfolding map_sum_Inl by (rule Suc.IH)
  next
    fix ty sz cursor assume "decode conv bf base (Suc k) off = decodeTyped conv (decode conv bf base k) bf ty sz cursor"
    then have "decodeTyped conv (decode conv bf base k) bf ty sz cursor = Inl e" using Suc.prems by simp
    from decodeTyped_errors [OF this Suc.IH] show ?thesis .
  qed (use Suc.prems in simp_all)
qed simp


section \<open>Encoding\<close>

text \<open>The encoding of the format for the values of a record: the control byte with the type and the low size bits,
  the extension byte of the type, the extension bytes of the size, the contents.\<close>

definition sizeLow :: "nat \<Rightarrow> nat" where
  "sizeLow n = (if n < 29 then n else if n < 285 then 29 else if n < 65821 then 30 else 31)"

definition sizeBytes :: "nat \<Rightarrow> bytes" where
  "sizeBytes n = (if n < 29 then [] else if n < 285 then [n - 29] else if n < 65821 then [(n - 285) div 256, (n - 285) mod 256]
     else [(n - 65821) div 65536, (n - 65821) div 256 mod 256, (n - 65821) mod 256])"

definition header :: "nat \<Rightarrow> nat \<Rightarrow> bytes" where
  "header ty n = (if ty < 8 then [ty * 32 + sizeLow n] else [sizeLow n, ty - 7]) @ sizeBytes n"

definition encodeText :: "string \<Rightarrow> bytes" where
  "encodeText s = header 2 (length s) @ map byte s"

fun encode :: "mval \<Rightarrow> bytes" where
  "encode (MStr s) = encodeText s"
| "encode (MNum (Fin n)) = header 6 4 @ [n div 16777216, n div 65536 mod 256, n div 256 mod 256, n mod 256]"
| "encode (MBool b) = header 14 (of_bool b)"
| "encode (MMap es) = header 7 (length es) @ concat (map (\<lambda>e. encodeText (fst e) @ encode (snd e)) es)"
| "encode (MArr vs) = header 11 (length vs) @ concat (map encode vs)"
| "encode _ = []"

definition goodText :: "string \<Rightarrow> bool" where
  "goodText s \<longleftrightarrow> length s < 65821 + 16777216 \<and> utf8 (map byte s) = s"

fun encodable :: "mval \<Rightarrow> bool" where
  "encodable (MStr s) = goodText s"
| "encodable (MNum (Fin n)) = (n < 2 ^ 32)"
| "encodable (MBool b) = True"
| "encodable (MMap es) = (length es \<le> MAX_CONTAINER_ENTRIES \<and> distinct (map fst es) \<and> list_all (\<lambda>e. goodText (fst e) \<and> encodable (snd e)) es)"
| "encodable (MArr vs) = (length vs \<le> MAX_CONTAINER_ENTRIES \<and> list_all encodable vs)"
| "encodable _ = False"

lemma byteAt_here: "byteAt (pre @ b # rest) (Fin (length pre)) = Some b"
  by (simp add: byteAt_def nth_append)

lemma byteAt_offset: "i < length mid \<Longrightarrow> byteAt (pre @ mid @ rest) (Fin (length pre + i)) = Some (mid ! i)"
  by (simp add: byteAt_def nth_append)

lemma three_bytes: "m div 65536 * 65536 + m div 256 mod 256 * 256 + m mod 256 = (m::nat)"
proof -
  have add: "q = a * 256 + b \<Longrightarrow> m = q * 256 + c \<Longrightarrow> a * 65536 + b * 256 + c = (m::nat)" for q a b c by simp
  have "m div (256 * 256) = m div 256 div 256" by (rule div_mult2_eq)
  moreover have "(256 * 256 :: nat) = 65536" by simp
  ultimately have d: "m div 65536 = m div 256 div 256" by (simp only:)
  show ?thesis unfolding d by (rule add [of "m div 256"]) (rule div_mult_mod_eq [symmetric])+
qed

lemma readSize_sizeBytes:
  assumes "n < 65821 + 16777216" and "ctrl mod 32 = sizeLow n"
  shows "readSize (pre @ sizeBytes n @ rest) ctrl (length pre) = (Fin n, length pre + length (sizeBytes n))"
proof -
  note b = byteAt_offset [of _ "sizeBytes n" pre rest]
  consider "n < 29" | "29 \<le> n" "n < 285" | "285 \<le> n" "n < 65821" | "65821 \<le> n" by linarith
  then show ?thesis
  proof cases
    case 1
    then show ?thesis using assms(2) by (simp add: readSize_def sizeLow_def sizeBytes_def Let_def)
  next
    case 2
    then show ?thesis using assms(2) b [of 0] by (simp add: readSize_def sizeLow_def sizeBytes_def Let_def)
  next
    case 3
    then show ?thesis using assms(2) b [of 0] b [of 1] by (simp add: readSize_def sizeLow_def sizeBytes_def Let_def bitsAt_def)
  next
    case 4
    then have sb: "sizeBytes n = [(n - 65821) div 65536, (n - 65821) div 256 mod 256, (n - 65821) mod 256]" "sizeLow n = 31"
      by (simp_all add: sizeBytes_def sizeLow_def)
    show ?thesis using assms(2) b [of 0] b [of 1] b [of 2] three_bytes [of "n - 65821"] 4
      by (simp add: readSize_def sb Let_def bitsAt_def)
  qed
qed

lemma decode_header:
  assumes "2 \<le> ty" and "n < 65821 + 16777216"
  shows "decode conv (pre @ header ty n @ rest) base (Suc k) (Fin (length pre)) =
    decodeTyped conv (decode conv (pre @ header ty n @ rest) base k) (pre @ header ty n @ rest) (Some ty) (Fin n) (length pre + length (header ty n))"
proof -
  have low: "sizeLow n < 32" by (simp add: sizeLow_def)
  show ?thesis
  proof (cases "ty < 8")
    case True
    let ?pre = "pre @ [ty * 32 + sizeLow n]"
    have h: "pre @ header ty n @ rest = ?pre @ sizeBytes n @ rest" by (simp add: header_def True)
    have "readSize (?pre @ sizeBytes n @ rest) (ty * 32 + sizeLow n) (length ?pre) = (Fin n, length ?pre + length (sizeBytes n))"
      by (rule readSize_sizeBytes [OF assms(2)]) (use low in simp)
    then show ?thesis unfolding h using assms(1) low
      by (simp add: decode.simps(2) header_def True nth_append Let_def)
  next
    case False
    let ?pre = "pre @ [sizeLow n, ty - 7]"
    have h: "pre @ header ty n @ rest = ?pre @ sizeBytes n @ rest" by (simp add: header_def False)
    have b: "byteAt (pre @ sizeLow n # (ty - 7) # sizeBytes n @ rest) (Fin (Suc (length pre))) = Some (ty - 7)"
      by (simp add: byteAt_def nth_append)
    have "readSize (?pre @ sizeBytes n @ rest) (sizeLow n) (length ?pre) = (Fin n, length ?pre + length (sizeBytes n))"
      by (rule readSize_sizeBytes [OF assms(2)]) (use low in simp)
    then show ?thesis unfolding h using assms(1) low False b
      by (simp add: decode.simps(2) header_def nth_append Let_def)
  qed
qed

definition decodes :: "(bytes \<Rightarrow> jsnum \<Rightarrow> mmdb_error + (mval \<times> jsnum)) \<Rightarrow> bytes \<Rightarrow> mval \<Rightarrow> bool" where
  "decodes dec e v \<longleftrightarrow> (\<forall>pre rest. dec (pre @ e @ rest) (Fin (length pre)) = Inr (v, Fin (length pre + length e)))"

lemma decodes_scalar:
  assumes "ty \<in> {2, 6}" and "length contents < 65821 + 16777216"
    and "\<And>pre rest. decodeScalar (pre @ contents @ rest) ty (Fin (length contents)) (length pre) = Inr v"
  shows "decodes (\<lambda>bf. decode conv bf base (Suc k)) (header ty (length contents) @ contents) v"
  unfolding decodes_def
proof (intro allI)
  fix pre rest
  let ?n = "length contents"
  let ?buf = "pre @ header ty ?n @ contents @ rest"
  have b: "?buf = (pre @ header ty ?n) @ contents @ rest" by simp
  have "decode conv ?buf base (Suc k) (Fin (length pre)) = decodeTyped conv (decode conv ?buf base k) ?buf (Some ty) (Fin ?n) (length pre + length (header ty ?n))"
    by (rule decode_header) (use assms(1,2) in auto)
  also have "\<dots> = Inr (v, Fin (length pre + length (header ty ?n) + ?n))"
    using assms(1) assms(3) [of "pre @ header ty ?n" rest] unfolding b [symmetric] by (auto simp: decodeTyped_def)
  finally show "decode conv (pre @ (header ty ?n @ contents) @ rest) base (Suc k) (Fin (length pre)) = Inr (v, Fin (length pre + length (header ty ?n @ contents)))"
    by (simp add: add.assoc)
qed

lemma decodes_text: "goodText s \<Longrightarrow> decodes (\<lambda>bf. decode conv bf base (Suc k)) (encodeText s) (MStr s)"
  using decodes_scalar [of 2 "map byte s" "MStr s"] by (simp add: encodeText_def goodText_def decodeScalar_def subarray_def)

lemma four_bytes: "((n div 16777216 * 256 + n div 65536 mod 256) * 256 + n div 256 mod 256) * 256 + n mod 256 = (n::nat)"
proof -
  have add: "q = a * 256 + b \<Longrightarrow> p = q * 256 + c \<Longrightarrow> n = p * 256 + d \<Longrightarrow> ((a * 256 + b) * 256 + c) * 256 + d = (n::nat)" for a b c d p q by simp
  have "n div 16777216 = n div 65536 div 256" "n div 65536 = n div 256 div 256"
    using div_mult2_eq [of n 65536 256] div_mult2_eq [of n 256 256] by simp_all
  then show ?thesis by (intro add [of "n div 65536" _ _ "n div 256"]) (simp_all only: div_mult_mod_eq)
qed

lemma roundDouble_small: "n < 2 ^ 53 \<Longrightarrow> roundDouble n = Fin n"
  by (simp add: roundDouble_def)

lemma readUint_four:
  assumes "a < 256" and "b < 256" and "c < 256" and "d < 256"
  shows "readUint (pre @ [a, b, c, d] @ rest) (length pre) 4 = Fin (((a * 256 + b) * 256 + c) * 256 + d)"
proof -
  note at = byteAt_offset [of _ "[a, b, c, d]" pre rest]
  have l: "[0..<4] = [0, 1, 2, 3::nat]" by (simp add: upt_rec)
  have s: "roundDouble a = Fin a" "roundDouble (a * 256 + b) = Fin (a * 256 + b)" "roundDouble ((a * 256 + b) * 256 + c) = Fin ((a * 256 + b) * 256 + c)"
    "roundDouble (((a * 256 + b) * 256 + c) * 256 + d) = Fin (((a * 256 + b) * 256 + c) * 256 + d)"
    by (rule roundDouble_small, use assms in simp)+
  show ?thesis unfolding readUint_def l using at [of 0] at [of 1] at [of 2] at [of 3] by (simp add: s del: distrib_right_numeral distrib_left_numeral)
qed

lemma decodes_number:
  assumes "n < 2 ^ 32"
  shows "decodes (\<lambda>bf. decode conv bf base (Suc k)) (encode (MNum (Fin n))) (MNum (Fin n))"
proof -
  have "n div 16777216 < 256" using assms by (simp add: div_less_iff_less_mult)
  then have r: "readUint (pre @ [n div 16777216, n div 65536 mod 256, n div 256 mod 256, n mod 256] @ rest) (length pre) 4 = Fin n" for pre rest
    using readUint_four [of "n div 16777216" "n div 65536 mod 256" "n div 256 mod 256" "n mod 256"] unfolding four_bytes by simp
  let ?c = "[n div 16777216, n div 65536 mod 256, n div 256 mod 256, n mod 256]"
  have len: "length ?c = 4" by simp
  have "decodeScalar (pre @ ?c @ rest) 6 (Fin (length ?c)) (length pre) = Inr (MNum (Fin n))" for pre rest
    unfolding len decodeScalar_def using r [of pre rest] by (simp add: sizeNat_def)
  then have "decodes (\<lambda>bf. decode conv bf base (Suc k)) (header 6 (length ?c) @ ?c) (MNum (Fin n))" by (intro decodes_scalar) simp_all
  then show ?thesis unfolding len by simp
qed

lemma decodes_bool: "decodes (\<lambda>bf. decode conv bf base (Suc k)) (encode (MBool b)) (MBool b)"
  using decode_header [of 14 "of_bool b"] by (simp add: decodes_def decodeTyped_def)

lemma arrayLoop_encode:
  assumes "\<forall>v \<in> set vs. decodes dec (encode v) v"
  shows "arrayLoop (dec (pre @ concat (map encode vs) @ rest)) (length vs) (Fin (length pre)) = Inr (vs, Fin (length pre + length (concat (map encode vs))))"
  using assms
proof (induction vs arbitrary: pre)
  case (Cons v vs)
  have "dec (pre @ encode v @ (concat (map encode vs) @ rest)) (Fin (length pre)) = Inr (v, Fin (length pre + length (encode v)))"
    using Cons.prems unfolding decodes_def by simp
  then show ?case using Cons.IH [of "pre @ encode v"] Cons.prems by (simp add: add.assoc)
qed simp

abbreviation encodeEntries :: "(string \<times> mval) list \<Rightarrow> bytes" where
  "encodeEntries es \<equiv> concat (map (\<lambda>e. encodeText (fst e) @ encode (snd e)) es)"

lemma mapLoop_encode:
  assumes "\<forall>e \<in> set es. decodes dec (encodeText (fst e)) (MStr (fst e)) \<and> decodes dec (encode (snd e)) (snd e)"
    and "distinct (map fst (out @ es))"
  shows "mapLoop conv (dec (pre @ encodeEntries es @ rest)) (length es) (Fin (length pre)) out = Inr (out @ es, Fin (length pre + length (encodeEntries es)))"
  using assms
proof (induction es arbitrary: pre out)
  case (Cons e es)
  let ?k = "encodeText (fst e)" and ?v = "encode (snd e)"
  have d: "dec (pre @ ?k @ (?v @ encodeEntries es @ rest)) (Fin (length pre)) = Inr (MStr (fst e), Fin (length pre + length ?k))"
    "dec ((pre @ ?k) @ ?v @ (encodeEntries es @ rest)) (Fin (length (pre @ ?k))) = Inr (snd e, Fin (length (pre @ ?k) + length ?v))"
    using Cons.prems(1) unfolding decodes_def by (meson list.set_intros(1))+
  have "fst e \<notin> fst ` set out" using Cons.prems(2) by auto
  then have u: "AList.update (fst e) (snd e) out = out @ [e]" by (simp add: update_fresh)
  show ?case using d Cons.IH [of "out @ [e]" "pre @ ?k @ ?v"] Cons.prems u by (simp add: keyText_def add.assoc)
qed simp

lemma decodes_container:
  assumes "2 \<le> ty" and "n \<le> MAX_CONTAINER_ENTRIES"
    and "\<And>pre rest. decodeTyped conv (decode conv (pre @ contents @ rest) base k) (pre @ contents @ rest) (Some ty) (Fin n) (length pre) = Inr (v, Fin (length pre + length contents))"
  shows "decodes (\<lambda>bf. decode conv bf base (Suc k)) (header ty n @ contents) v"
  unfolding decodes_def
proof (intro allI)
  fix pre rest
  have "decode conv (pre @ header ty n @ (contents @ rest)) base (Suc k) (Fin (length pre)) = Inr (v, Fin (length (pre @ header ty n) + length contents))"
    using decode_header [OF assms(1), of n conv pre "contents @ rest" base k] assms(2) assms(3) [of "pre @ header ty n" rest]
    by (simp add: MAX_CONTAINER_ENTRIES_def)
  then show "decode conv (pre @ (header ty n @ contents) @ rest) base (Suc k) (Fin (length pre)) = Inr (v, Fin (length pre + length (header ty n @ contents)))"
    by (simp add: add.assoc)
qed

lemma decodes_encode: "encodable v \<Longrightarrow> depthOf v < k \<Longrightarrow> decodes (\<lambda>bf. decode conv bf base k) (encode v) v"
proof (induction v arbitrary: k rule: encode.induct)
  case (1 s)
  then show ?case using decodes_text by (cases k) auto
next
  case (2 n)
  then show ?case using decodes_number by (cases k) auto
next
  case (3 b)
  then show ?case using decodes_bool by (cases k) auto
next
  case (4 es)
  then obtain k' where k: "k = Suc k'" by (cases k) auto
  have "\<forall>e \<in> set es. depthOf (snd e) < k'" using 4(3) by (simp add: k foldr_max_le less_Suc_eq_le Suc_le_eq)
  moreover from this have "es \<noteq> [] \<Longrightarrow> \<exists>j. k' = Suc j" by (cases es; cases k') auto
  ultimately have "\<forall>e \<in> set es. decodes (\<lambda>bf. decode conv bf base k') (encodeText (fst e)) (MStr (fst e)) \<and> decodes (\<lambda>bf. decode conv bf base k') (encode (snd e)) (snd e)"
    using 4(1,2) decodes_text by (fastforce simp: list_all_iff)
  note loop = mapLoop_encode [OF this, of "[]"]
  show ?case unfolding k encode.simps
    by (rule decodes_container) (use 4(2) loop in \<open>simp_all add: decodeTyped_def sizeNat_def\<close>)
next
  case (5 vs)
  then obtain k' where k: "k = Suc k'" by (cases k) auto
  have "\<forall>v \<in> set vs. depthOf v < k'" using 5(3) by (simp add: k foldr_max_le less_Suc_eq_le Suc_le_eq)
  then have "\<forall>v \<in> set vs. decodes (\<lambda>bf. decode conv bf base k') (encode v) v" using 5(1,2) by (simp add: list_all_iff)
  note loop = arrayLoop_encode [OF this]
  show ?case unfolding k encode.simps
    by (rule decodes_container) (use 5(2) loop in \<open>simp_all add: decodeTyped_def sizeNat_def\<close>)
qed auto


definition noConversions :: conversions where
  "noConversions = \<lparr>toText = (\<lambda>_. []), toNumber = (\<lambda>_. NaN)\<rparr>"

definition sampleRecord :: mval where
  "sampleRecord = MMap [(''country'', MStr ''HU''), (''tags'', MArr [MBool True, MNum (Fin 65536)])]"


text \<open>A database of one node: addresses that begin with a zero bit have a record.\<close>

definition sampleBody :: bytes where
  "sampleBody = [0, 0, 17, 0, 0, 1] @ replicate 16 0 @ encode sampleRecord @ METADATA_MARKER"

definition sampleMeta :: mval where
  "sampleMeta = MMap [(''node_count'', MNum (Fin 1)), (''record_size'', MNum (Fin 24)), (''ip_version'', MNum (Fin 4))]"

definition sampleReader :: mmdb where
  "sampleReader = \<lparr>buf = sampleBody @ encode sampleMeta,
     meta = \<lparr>nodeCount = Fin 1, recordSize = 24, ipVersion = Fin 4, databaseType = ''unknown'', buildEpoch = Fin 0\<rparr>, ipv4StartNode = None\<rparr>"

lemma sample_open: "fromBuffer noConversions (sampleBody @ encode sampleMeta) = Inr sampleReader"
proof -
  have s: "findMetadataStart (sampleBody @ encode sampleMeta) = Some (length sampleBody)" by code_simp
  have e: "encodable sampleMeta" "depthOf sampleMeta < MAX_DECODE_DEPTH + 1" by code_simp+
  have d: "decode noConversions (sampleBody @ encode sampleMeta) (Fin (length sampleBody)) (MAX_DECODE_DEPTH + 1) (Fin (length sampleBody)) =
      Inr (sampleMeta, Fin (length sampleBody + length (encode sampleMeta)))"
    using decodes_encode [OF e] unfolding decodes_def by (metis append_Nil2)
  have f: "sampleMeta \<noteq> MNull" "fieldOf ''record_size'' sampleMeta = Some (MNum (Fin 24))" "fieldOf ''node_count'' sampleMeta = Some (MNum (Fin 1))"
    "fieldOf ''ip_version'' sampleMeta = Some (MNum (Fin 4))" "fieldOf ''database_type'' sampleMeta = None" "fieldOf ''build_epoch'' sampleMeta = None"
    by (simp_all add: sampleMeta_def fieldOf_def)
  show ?thesis unfolding fromBuffer_def readMetadata_def s option.case d sum.case prod.case
    by (simp add: f numberOf_def orElse_def keyText_def sampleReader_def)
qed

lemma sample_stored: "stored sampleReader 1 (Fin 0) (Split (Data 17) NoData)"
proof (rule stored_split)
  have "readRecord sampleReader (Fin 0) False = Fin 17" by code_simp
  then show "stored sampleReader 1 (readRecord sampleReader (Fin 0) False) (Data 17)" by (simp add: stored_data)
  have "readRecord sampleReader (Fin 0) True = Fin 1" by code_simp
  then show "stored sampleReader 1 (readRecord sampleReader (Fin 0) True) NoData" by (simp add: stored_none)
qed simp

theorem mmdb_lookup_witness: "fst (lookup noConversions sampleReader ''200.0.0.1'') = Inr None"
proof -
  have bits: "addressBits sampleReader ''200.0.0.1'' = Some (True # True # replicate 2 False @ True # replicate 26 False @ [True])" by code_simp
  have m: "nodeCount (meta sampleReader) = Fin 1" by (simp add: sampleReader_def)
  have n: "networks (Split (Data 17) NoData) = {([False], 17)}" by (auto simp: networks.simps(3))
  show ?thesis
    using mmdb_lookup [OF sample_open m sample_stored, of sampleReader "[]" "''200.0.0.1''"] unfolding bits n by simp
qed

end
