(* ===== verification/Causal_Graph.thy ===== *)
theory Causal_Graph
  imports Prelude
begin

text \<open>
  Reconstruction of attack timelines, domain/analysis/causal_graph_service.ts: the records found by the forensic search
  become nodes, indexes by parent process, process and path give the candidates for edges. The collation of
  \<open>localeCompare\<close> and the time a text denotes for \<open>Date\<close> are parameters; an invalid date is \<^const>\<open>None\<close>.
\<close>

section \<open>Records and nodes\<close>

record forensic_record =
  f_pid :: int
  f_ppid :: "int option"
  f_comm :: string
  f_syscall :: string
  f_timestamp :: string
  f_path :: "string option"
  f_port :: "nat option"

datatype node_type = PROCESS | NETWORK | FILE

record causal_node =
  c_id :: string
  c_type :: node_type
  c_label :: string
  c_timestamp :: string
  c_record :: forensic_record
  c_children :: "string list"
  c_parents :: "string list"

record dates =
  compareText :: "string \<Rightarrow> string \<Rightarrow> int"
  timeOf :: "string \<Rightarrow> int option"

definition getRecordId :: "forensic_record \<Rightarrow> string" where
  "getRecordId r = int_decimal (f_pid r) @ ''-'' @ f_timestamp r @ ''-'' @ f_syscall r"

definition hasPath :: "forensic_record \<Rightarrow> bool" where
  "hasPath r = (case f_path r of None \<Rightarrow> False | Some p \<Rightarrow> p \<noteq> [])"

definition hasPort :: "forensic_record \<Rightarrow> bool" where
  "hasPort r = (case f_port r of None \<Rightarrow> False | Some p \<Rightarrow> p \<noteq> 0)"

definition determineType :: "forensic_record \<Rightarrow> node_type" where
  "determineType r =
    (if f_syscall r = ''connect'' \<or> hasPort r then NETWORK
     else if hasPath r \<or> f_syscall r = ''openat'' then FILE else PROCESS)"

text \<open>\<open>new Date(a) < new Date(b)\<close>, false when one of them is invalid.\<close>

definition earlier :: "dates \<Rightarrow> string \<Rightarrow> string \<Rightarrow> bool" where
  "earlier d a b = (case (timeOf d a, timeOf d b) of (Some s, Some t) \<Rightarrow> s < t | _ \<Rightarrow> False)"

definition isCausallyRelated :: "dates \<Rightarrow> causal_node \<Rightarrow> causal_node \<Rightarrow> bool" where
  "isCausallyRelated d parent child =
    (if earlier d (c_timestamp child) (c_timestamp parent) then False
     else if f_ppid (c_record child) = Some (f_pid (c_record parent)) then True
     else if c_type parent = PROCESS \<and> c_type child = NETWORK \<and> f_pid (c_record parent) = f_pid (c_record child) then True
     else c_type parent = FILE \<and> c_type child = PROCESS \<and> f_path (c_record parent) = f_path (c_record child))"

section \<open>Reconstruction\<close>

text \<open>The stable sort of \<open>Array.prototype.sort\<close> for a comparison function.\<close>

fun insertBy :: "('a \<Rightarrow> 'a \<Rightarrow> int) \<Rightarrow> 'a \<Rightarrow> 'a list \<Rightarrow> 'a list" where
  "insertBy cmp x [] = [x]"
| "insertBy cmp x (y # ys) = (if cmp y x \<le> 0 then y # insertBy cmp x ys else x # y # ys)"

definition sortBy :: "('a \<Rightarrow> 'a \<Rightarrow> int) \<Rightarrow> 'a list \<Rightarrow> 'a list" where
  "sortBy cmp xs = foldl (\<lambda>ys x. insertBy cmp x ys) [] xs"

definition includedPids :: "dates \<Rightarrow> int \<Rightarrow> forensic_record list \<Rightarrow> int set" where
  "includedPids d root rs = foldl (\<lambda>pids r. case f_ppid r of
       Some q \<Rightarrow> (if q \<in> pids then insert (f_pid r) pids else pids)
     | None \<Rightarrow> pids) {root} (sortBy (\<lambda>a b. compareText d (f_timestamp a) (f_timestamp b)) rs)"

definition newNode :: "forensic_record \<Rightarrow> causal_node" where
  "newNode r = \<lparr>c_id = getRecordId r, c_type = determineType r,
     c_label = f_comm r @ '' ('' @ int_decimal (f_pid r) @ '') - '' @ f_syscall r,
     c_timestamp = f_timestamp r, c_record = r, c_children = [], c_parents = []\<rparr>"

definition makeNodes :: "forensic_record list \<Rightarrow> (string \<times> causal_node) list" where
  "makeNodes rs = foldl (\<lambda>ns r. if map_of ns (getRecordId r) = None then AList.update (getRecordId r) (newNode r) ns else ns) [] rs"

text \<open>An index from a key to the nodes that have it, in order.\<close>

definition indexAdd :: "'k \<Rightarrow> 'n \<Rightarrow> ('k \<times> 'n list) list \<Rightarrow> ('k \<times> 'n list) list" where
  "indexAdd k n idx = AList.update k ((case map_of idx k of None \<Rightarrow> [] | Some ns \<Rightarrow> ns) @ [n]) idx"

definition indexBy :: "('n \<Rightarrow> 'k option) \<Rightarrow> 'n list \<Rightarrow> ('k \<times> 'n list) list" where
  "indexBy key ns = foldl (\<lambda>idx n. case key n of None \<Rightarrow> idx | Some k \<Rightarrow> indexAdd k n idx) [] ns"

definition indexGet :: "('k \<times> 'n list) list \<Rightarrow> 'k \<Rightarrow> 'n list" where
  "indexGet idx k = (case map_of idx k of None \<Rightarrow> [] | Some ns \<Rightarrow> ns)"

definition pathKey :: "causal_node \<Rightarrow> string option" where
  "pathKey n = (if c_type n = PROCESS \<and> hasPath (c_record n) then f_path (c_record n) else None)"

text \<open>A \<open>Set\<close> of nodes: insertion order, identity by id.\<close>

definition addCandidate :: "causal_node \<Rightarrow> causal_node list \<Rightarrow> causal_node list" where
  "addCandidate n cs = (if n \<in> set cs then cs else cs @ [n])"

definition candidates :: "(int \<times> causal_node list) list \<Rightarrow> (int \<times> causal_node list) list \<Rightarrow> (string \<times> causal_node list) list \<Rightarrow> causal_node \<Rightarrow> causal_node list" where
  "candidates ppidIndex pidIndex pathIndex node =
    (let c1 = fold addCandidate (indexGet ppidIndex (f_pid (c_record node))) [];
         c2 = (if c_type node = PROCESS
               then fold addCandidate (filter (\<lambda>c. c_type c \<noteq> PROCESS) (indexGet pidIndex (f_pid (c_record node)))) c1 else c1)
     in if c_type node = FILE \<and> hasPath (c_record node)
        then fold addCandidate (indexGet pathIndex (the (f_path (c_record node)))) c2 else c2)"

definition linkNodes :: "string \<Rightarrow> string \<Rightarrow> (string \<times> causal_node) list \<Rightarrow> (string \<times> causal_node) list" where
  "linkNodes a b ns = map (\<lambda>(k, n). (k, n\<lparr>c_children := c_children n @ (if k = a then [b] else []),
     c_parents := c_parents n @ (if k = b then [a] else [])\<rparr>)) ns"

definition linkChildren :: "dates \<Rightarrow> causal_node \<Rightarrow> causal_node list \<Rightarrow> (string \<times> causal_node) list \<Rightarrow> (string \<times> causal_node) list" where
  "linkChildren d node cs ns = foldl (\<lambda>ns c. if c = node then ns
     else if isCausallyRelated d node c then linkNodes (c_id node) (c_id c) ns else ns) ns cs"

definition relevantRecords :: "dates \<Rightarrow> int option \<Rightarrow> forensic_record list \<Rightarrow> forensic_record list" where
  "relevantRecords d rootPid rs = (case rootPid of
     Some root \<Rightarrow> (if root \<noteq> 0 then filter (\<lambda>r. f_pid r \<in> includedPids d root rs) rs else rs)
   | None \<Rightarrow> rs)"

definition connect :: "dates \<Rightarrow> (string \<times> causal_node) list \<Rightarrow> (string \<times> causal_node) list" where
  "connect d nodes =
    (let allNodes = map snd nodes;
         ppidIndex = indexBy (\<lambda>n. f_ppid (c_record n)) allNodes;
         pidIndex = indexBy (\<lambda>n. Some (f_pid (c_record n))) allNodes;
         pathIndex = indexBy pathKey allNodes
     in foldl (\<lambda>ns node. linkChildren d node (candidates ppidIndex pidIndex pathIndex node) ns) nodes allNodes)"

text \<open>The search result is given; an error of the search is returned as it is.\<close>

definition reconstructGraph :: "dates \<Rightarrow> string + forensic_record list \<Rightarrow> int option \<Rightarrow> string + (string \<times> causal_node) list" where
  "reconstructGraph d found rootPid = (case found of
     Inl e \<Rightarrow> Inl e
   | Inr rs \<Rightarrow> Inr (connect d (makeNodes (relevantRecords d rootPid rs))))"

section \<open>The indexes\<close>

lemma indexGet_add: "indexGet (indexAdd k n idx) j = indexGet idx j @ (if j = k then [n] else [])"
  by (simp add: indexGet_def indexAdd_def split: option.split)

lemma indexGet_indexBy: "indexGet (indexBy key ns) k = filter (\<lambda>n. key n = Some k) ns"
proof (induction ns rule: rev_induct)
  case Nil
  show ?case by (simp add: indexBy_def indexGet_def)
next
  case (snoc n ns)
  then show ?case by (simp add: indexBy_def indexGet_add split: option.split)
qed

lemma set_addCandidates: "set (fold addCandidate ns cs) = set cs \<union> set ns"
  by (induction ns arbitrary: cs) (auto simp: addCandidate_def)

lemma distinct_addCandidates: "distinct cs \<Longrightarrow> distinct (fold addCandidate ns cs)"
  by (induction ns arbitrary: cs) (auto simp: addCandidate_def)

section \<open>Nodes\<close>

lemma makeNodes_snoc: "makeNodes (rs @ [r]) =
    (if map_of (makeNodes rs) (getRecordId r) = None then makeNodes rs @ [(getRecordId r, newNode r)] else makeNodes rs)"
  by (simp add: makeNodes_def update_fresh map_of_eq_None_iff)

lemma makeNodes_keys: "distinct (map fst (makeNodes rs)) \<and> fst ` set (makeNodes rs) = getRecordId ` set rs"
proof (induction rs rule: rev_induct)
  case (snoc r rs)
  then show ?case by (auto simp: makeNodes_snoc map_of_eq_None_iff)
qed (simp add: makeNodes_def)

lemma makeNodes_nodes: "(k, n) \<in> set (makeNodes rs) \<Longrightarrow> \<exists>r \<in> set rs. k = getRecordId r \<and> n = newNode r"
proof (induction rs rule: rev_induct)
  case (snoc r rs)
  then show ?case by (auto simp: makeNodes_snoc split: if_splits)
qed (simp add: makeNodes_def)

section \<open>Edges\<close>

definition childrenOf :: "dates \<Rightarrow> causal_node list \<Rightarrow> causal_node \<Rightarrow> causal_node list" where
  "childrenOf d ns node = filter (\<lambda>c. c \<noteq> node \<and> isCausallyRelated d node c)
    (candidates (indexBy (\<lambda>n. f_ppid (c_record n)) ns) (indexBy (\<lambda>n. Some (f_pid (c_record n))) ns) (indexBy pathKey ns) node)"

definition edges :: "dates \<Rightarrow> causal_node list \<Rightarrow> (string \<times> string) list" where
  "edges d ns = concat (map (\<lambda>node. map (\<lambda>c. (c_id node, c_id c)) (childrenOf d ns node)) ns)"

lemma linkChildren_edges: "linkChildren d node cs ns =
    foldl (\<lambda>ns (a, b). linkNodes a b ns) ns (map (\<lambda>c. (c_id node, c_id c)) (filter (\<lambda>c. c \<noteq> node \<and> isCausallyRelated d node c) cs))"
  by (induction cs arbitrary: ns) (simp_all add: linkChildren_def)

lemma foldl_nested: "foldl (\<lambda>s x. foldl f s (g x)) s xs = foldl f s (concat (map g xs))"
  by (induction xs arbitrary: s) simp_all

lemma connect_edges: "connect d nodes = foldl (\<lambda>ns (a, b). linkNodes a b ns) nodes (edges d (map snd nodes))"
  unfolding connect_def Let_def edges_def linkChildren_edges childrenOf_def by (rule foldl_nested)

lemma foldl_linkNodes: "foldl (\<lambda>ns (a, b). linkNodes a b ns) ns es =
    map (\<lambda>(k, n). (k, n\<lparr>c_children := c_children n @ map snd (filter (\<lambda>e. fst e = k) es),
      c_parents := c_parents n @ map fst (filter (\<lambda>e. snd e = k) es)\<rparr>)) ns"
  by (induction es arbitrary: ns) (auto simp: linkNodes_def)

text \<open>The pairs the indexes do not yield: a file and a process that are related by nothing but their paths.\<close>

definition byPathOnly :: "causal_node \<Rightarrow> causal_node \<Rightarrow> bool" where
  "byPathOnly a b \<longleftrightarrow> c_type a = FILE \<and> c_type b = PROCESS \<and> f_ppid (c_record b) \<noteq> Some (f_pid (c_record a))"

definition linked :: "dates \<Rightarrow> causal_node \<Rightarrow> causal_node \<Rightarrow> bool" where
  "linked d a b \<longleftrightarrow> isCausallyRelated d a b \<and> \<not> byPathOnly a b"

lemma pathKey_newNode: "pathKey (newNode r) = None"
  by (simp add: pathKey_def newNode_def determineType_def)

lemma childrenOf_linked:
  assumes "\<forall>n \<in> set ns. \<exists>r. n = newNode r" and "a \<in> set ns"
  shows "set (childrenOf d ns a) = {b \<in> set ns. b \<noteq> a \<and> linked d a b}" and "distinct (childrenOf d ns a)"
proof -
  have "pathKey n = None" if "n \<in> set ns" for n using assms(1) that pathKey_newNode by auto
  then have p: "filter (\<lambda>n. pathKey n = Some k) ns = []" for k by (auto simp: filter_empty_conv)
  show "set (childrenOf d ns a) = {b \<in> set ns. b \<noteq> a \<and> linked d a b}"
    by (auto simp: childrenOf_def candidates_def Let_def indexGet_indexBy p set_addCandidates linked_def byPathOnly_def isCausallyRelated_def split: if_splits)
  show "distinct (childrenOf d ns a)"
    by (simp add: childrenOf_def candidates_def Let_def distinct_addCandidates)
qed

lemma byPathOnly_paths:
  assumes "a = newNode r" and "b = newNode q" and "byPathOnly a b" and "isCausallyRelated d a b"
  shows "f_syscall r = ''openat'' \<and> f_path r = f_path q \<and> \<not> hasPath r"
  using assms by (auto simp: byPathOnly_def isCausallyRelated_def newNode_def determineType_def hasPath_def split: if_splits option.splits)

lemma edges_iff:
  assumes "\<forall>n \<in> set ns. \<exists>r. n = newNode r" and "inj_on c_id (set ns)" and "a \<in> set ns" and "b \<in> set ns"
  shows "(c_id a, c_id b) \<in> set (edges d ns) \<longleftrightarrow> a \<noteq> b \<and> linked d a b"
proof -
  have "(c_id a, c_id b) \<in> set (edges d ns) \<longleftrightarrow> (\<exists>n \<in> set ns. \<exists>c \<in> set (childrenOf d ns n). c_id a = c_id n \<and> c_id b = c_id c)"
    by (auto simp: edges_def)
  also have "\<dots> \<longleftrightarrow> (\<exists>n \<in> set ns. \<exists>c \<in> {c \<in> set ns. c \<noteq> n \<and> linked d n c}. c_id a = c_id n \<and> c_id b = c_id c)"
    using childrenOf_linked(1) [OF assms(1)] by (intro bex_cong) auto
  also have "\<dots> \<longleftrightarrow> a \<noteq> b \<and> linked d a b" using inj_onD [OF assms(2)] assms(3,4) by auto
  finally show ?thesis .
qed

lemma filter_concat_one:
  assumes "distinct xs" and "a \<in> set xs" and "filter P (f a) = f a" and "\<forall>x \<in> set xs. x \<noteq> a \<longrightarrow> filter P (f x) = []"
  shows "filter P (concat (map f xs)) = f a"
  using assms
proof (induction xs)
  case (Cons x xs)
  have "filter P (concat (map f ys)) = []" if "set ys \<subseteq> set xs" "a \<notin> set ys" for ys using that Cons.prems(4) by (induction ys) auto
  then show ?case using Cons by (cases "x = a") auto
qed simp

lemma distinct_children:
  assumes "\<forall>n \<in> set ns. \<exists>r. n = newNode r" and "inj_on c_id (set ns)" and "distinct ns" and "a \<in> set ns"
  shows "distinct (map snd (filter (\<lambda>e. fst e = c_id a) (edges d ns)))"
proof -
  have "filter (\<lambda>e. fst e = c_id a) (edges d ns) = map (\<lambda>c. (c_id a, c_id c)) (childrenOf d ns a)"
    unfolding edges_def by (rule filter_concat_one) (use assms inj_onD [OF assms(2)] in \<open>auto simp: filter_empty_conv\<close>)
  moreover have "inj_on c_id (set (childrenOf d ns a))"
    using childrenOf_linked(1) [OF assms(1,4)] assms(2) by (auto intro: inj_on_subset)
  ultimately show ?thesis using childrenOf_linked(2) [OF assms(1,4)] by (simp add: comp_def distinct_map)
qed


definition byLength :: dates where
  "byLength = \<lparr>compareText = (\<lambda>a b. int (length a) - int (length b)), timeOf = (\<lambda>s. Some (int (length s)))\<rparr>"

definition shell_and_curl :: "forensic_record list" where
  "shell_and_curl =
    [\<lparr>f_pid = 7, f_ppid = Some 1, f_comm = ''sh'', f_syscall = ''execve'', f_timestamp = ''t'', f_path = None, f_port = None\<rparr>,
     \<lparr>f_pid = 9, f_ppid = Some 7, f_comm = ''curl'', f_syscall = ''connect'', f_timestamp = ''tt'', f_path = None, f_port = Some 443\<rparr>]"

definition sh_node :: causal_node where
  "sh_node = (newNode (shell_and_curl ! 0))\<lparr>c_children := [''9-tt-connect'']\<rparr>"

definition curl_node :: causal_node where
  "curl_node = (newNode (shell_and_curl ! 1))\<lparr>c_parents := [''7-t-execve'']\<rparr>"

lemma shell_and_curl_graph:
  "reconstructGraph byLength (Inr shell_and_curl) (Some 7) = Inr [(''7-t-execve'', sh_node), (''9-tt-connect'', curl_node)]"
  by code_simp


text \<open>Such a pair exists: the definition relates the two records, the graph does not.\<close>

definition openat_and_exit :: "forensic_record list" where
  "openat_and_exit =
    [\<lparr>f_pid = 7, f_ppid = Some 1, f_comm = ''sh'', f_syscall = ''openat'', f_timestamp = ''t'', f_path = None, f_port = None\<rparr>,
     \<lparr>f_pid = 9, f_ppid = Some 1, f_comm = ''ls'', f_syscall = ''exit'', f_timestamp = ''tt'', f_path = None, f_port = None\<rparr>]"

lemma missing_edge:
  "isCausallyRelated byLength (newNode (openat_and_exit ! 0)) (newNode (openat_and_exit ! 1)) \<and>
   reconstructGraph byLength (Inr openat_and_exit) None = Inr (makeNodes openat_and_exit)"
  by code_simp

end
