(* ===== verification/Autonomous_Response.thy ===== *)
theory Autonomous_Response
  imports Bounded_Map Policy_Engine Complex_Main
begin

text \<open>
  The response engine, domain/orchestration/autonomous_response.ts: scores, recent events and active
  remediations per source, each in a bounded map of 500 entries, and the decision of the policy engine on every event.
  An evaluation is suspended while its log lines are written, so evaluations, the decay of scores, resets and changes of the policy
  interleave: every stretch of code between two suspensions is one step. \<open>saga.execute\<close> is recorded as a call. The reference
  is the same engine over unbounded maps; the two agree as long as at most 500 sources occur.
\<close>

section \<open>State\<close>

text \<open>A JavaScript number; scores are exact integers.\<close>

datatype jsnumber = Finite rat | PosInfinity | NegInfinity | NotANumber

record threat_event =
  e_source :: string
  e_type :: string
  e_severity :: "jsnumber option"
  e_description :: string
  e_data :: "(string \<times> rat fact) list option"
  e_timestamp :: "string option"

record remediation =
  r_tier :: action
  r_timestamp :: string
  r_reason :: string

type_synonym saga_call = "string \<times> action \<times> threat_event \<times> int"

record engine =
  scores :: "(string, int) bmap"
  history :: "(string, threat_event list) bmap"
  activeRemediations :: "(string, remediation) bmap"
  policy :: "rat policy"
  evaluating :: "(threat_event \<times> int) list"
  simulating :: "threat_event list"
  sagaCalls :: "saga_call list"

record socket_flow =
  fl_remoteIp :: string
  fl_threatScore :: "jsnumber option"
  fl_process :: "string option"
  fl_pid :: "nat option"

text \<open>Regular expressions of the policy, what its conditions see of \<open>{ ...event, currentScore }\<close>, and the data of a flow.\<close>

record policy_env =
  regexTest :: "string \<Rightarrow> string \<Rightarrow> bool option"
  factsOf :: "threat_event \<Rightarrow> int \<Rightarrow> (string \<times> rat fact) list"
  showNumber :: "jsnumber \<Rightarrow> string"
  flowData :: "socket_flow \<Rightarrow> (string \<times> rat fact) list"

definition newResponse :: "rat policy \<Rightarrow> engine" where
  "newResponse p = \<lparr>scores = new_bmap 500, history = new_bmap 500, activeRemediations = new_bmap 500, policy = p,
     evaluating = [], simulating = [], sagaCalls = []\<rparr>"

definition MAX_HISTORY_PER_SOURCE :: nat where "MAX_HISTORY_PER_SOURCE = 20"

section \<open>Evaluation\<close>

definition safeSeverity :: "threat_event \<Rightarrow> int" where
  "safeSeverity ev = (case e_severity ev of Some (Finite s) \<Rightarrow> (if s > 0 then \<lfloor>s\<rfloor> else 0) | _ \<Rightarrow> 0)"

definition orDefault :: "'a \<Rightarrow> 'a option \<Rightarrow> 'a" where
  "orDefault d x = (case x of None \<Rightarrow> d | Some y \<Rightarrow> y)"

definition stamped :: "string \<Rightarrow> threat_event \<Rightarrow> threat_event" where
  "stamped now ev = (if e_timestamp ev \<in> {None, Some []} then ev\<lparr>e_timestamp := Some now\<rparr> else ev)"

definition recorded :: "threat_event list \<Rightarrow> threat_event \<Rightarrow> threat_event list" where
  "recorded es ev = (let es' = es @ [ev] in if length es' > MAX_HISTORY_PER_SOURCE then drop (length es' - MAX_HISTORY_PER_SOURCE) es' else es')"

text \<open>\<open>evaluate\<close> up to its first suspension.\<close>

definition evaluate :: "string \<Rightarrow> threat_event \<Rightarrow> engine \<Rightarrow> engine option" where
  "evaluate now ev st = do {
     (old, sc) \<leftarrow> bm_get (scores st) (e_source ev);
     let currentScore = orDefault 0 old + safeSeverity ev;
     sc \<leftarrow> bm_set sc (e_source ev) currentScore;
     (es, h) \<leftarrow> bm_get (history st) (e_source ev);
     h \<leftarrow> bm_set h (e_source ev) (recorded (orDefault [] es) (stamped now ev));
     Some (st\<lparr>scores := sc, history := h, evaluating := evaluating st @ [(stamped now ev, currentScore)]\<rparr>) }"

definition executeRemediation :: "string \<Rightarrow> string \<Rightarrow> action \<Rightarrow> threat_event \<Rightarrow> engine \<Rightarrow> engine option" where
  "executeRemediation now source tier trigger st = do {
     (existing, act) \<leftarrow> bm_get (activeRemediations st) source;
     (if map_option r_tier existing = Some tier then Some (st\<lparr>activeRemediations := act\<rparr>)
      else do {
        act \<leftarrow> bm_set act source \<lparr>r_tier = tier, r_timestamp = now, r_reason = e_description trigger\<rparr>;
        (score, sc) \<leftarrow> bm_get (scores st) source;
        Some (st\<lparr>activeRemediations := act, scores := sc, sagaCalls := sagaCalls st @ [(source, tier, trigger, orDefault 0 score)]\<rparr>) }) }"

definition removeAt :: "nat \<Rightarrow> 'a list \<Rightarrow> 'a list" where
  "removeAt i xs = take i xs @ drop (Suc i) xs"

definition destructive :: "action \<Rightarrow> bool" where
  "destructive a = (a = BLOCK \<or> a = ISOLATE \<or> a = LOCKDOWN)"

text \<open>\<open>evaluate\<close> after the first log line: the decision. An error of the policy rejects the evaluation.\<close>

definition decide :: "policy_env \<Rightarrow> string \<Rightarrow> nat \<Rightarrow> engine \<Rightarrow> engine option" where
  "decide env now i st =
    (if i < length (evaluating st) then
       (let (ev, currentScore) = evaluating st ! i; st1 = st\<lparr>evaluating := removeAt i (evaluating st)\<rparr>
        in case policy_evaluate (regexTest env) (of_int currentScore) (Some (factsOf env ev currentScore)) (policy st) of
          Inl _ \<Rightarrow> Some st1
        | Inr d \<Rightarrow>
            (if p_shadowMode (policy st) \<and> destructive (t_action d) then Some (st1\<lparr>simulating := simulating st @ [ev]\<rparr>)
             else executeRemediation now (e_source ev) (t_action d) ev st1))
     else Some st)"

text \<open>\<open>evaluate\<close> after the log line of the simulation.\<close>

definition simulated :: "string \<Rightarrow> nat \<Rightarrow> engine \<Rightarrow> engine option" where
  "simulated now i st =
    (if i < length (simulating st)
     then executeRemediation now (e_source (simulating st ! i)) WATCH (simulating st ! i) (st\<lparr>simulating := removeAt i (simulating st)\<rparr>)
     else Some st)"

text \<open>\<open>threatScore < 85\<close>, false for \<open>NaN\<close>.\<close>

fun below85 :: "jsnumber \<Rightarrow> bool" where
  "below85 (Finite s) = (s < 85)"
| "below85 NegInfinity = True"
| "below85 _ = False"

definition flowEvent :: "policy_env \<Rightarrow> string \<Rightarrow> socket_flow \<Rightarrow> jsnumber \<Rightarrow> threat_event" where
  "flowEvent env now f score = \<lparr>e_source = fl_remoteIp f, e_type = ''HIGH_RISK_SOCKET_FLOW'', e_severity = Some score,
     e_description = ''Automated Response: High-risk socket flow detected from '' @ fl_remoteIp f @ '' (Process: '' @
       (if fl_process f \<in> {None, Some []} then ''unattributed'' else the (fl_process f)) @ '', PID: '' @
       (if fl_pid f \<in> {None, Some 0} then ''unknown'' else nat_decimal (the (fl_pid f))) @ '') with Threat Score '' @ showNumber env score,
     e_data = Some (flowData env f), e_timestamp = Some now\<rparr>"

definition evaluateSocketFlow :: "policy_env \<Rightarrow> string \<Rightarrow> socket_flow \<Rightarrow> engine \<Rightarrow> engine option" where
  "evaluateSocketFlow env now f st = (case fl_threatScore f of
     Some score \<Rightarrow> (if fl_remoteIp f = [] \<or> below85 score then Some st else evaluate now (flowEvent env now f score) st)
   | None \<Rightarrow> Some st)"

section \<open>Decay and reset\<close>

definition resetScore :: "string \<Rightarrow> engine \<Rightarrow> engine option" where
  "resetScore source st = do {
     (_, sc) \<leftarrow> bm_delete (scores st) source;
     (_, h) \<leftarrow> bm_delete (history st) source;
     (_, act) \<leftarrow> bm_delete (activeRemediations st) source;
     Some (st\<lparr>scores := sc, history := h, activeRemediations := act\<rparr>) }"

fun decayAll :: "(string \<times> int) list \<Rightarrow> engine \<Rightarrow> engine option" where
  "decayAll [] st = Some st"
| "decayAll ((source, score) # rest) st =
    (let newScore = max 0 (score - 1)
     in if newScore = 0 then resetScore source st \<bind> decayAll rest
        else bm_set (scores st) source newScore \<bind> (\<lambda>sc. decayAll rest (st\<lparr>scores := sc\<rparr>)))"

definition decayScores :: "engine \<Rightarrow> engine option" where
  "decayScores st = bm_entries (scores st) \<bind> (\<lambda>es. decayAll es st)"

section \<open>The view for the operator\<close>

record tactical =
  ti_source :: string
  ti_score :: int
  ti_events :: "threat_event list"
  ti_remediation :: "remediation option"

fun intelligenceOf :: "(string \<times> int) list \<Rightarrow> engine \<Rightarrow> (tactical list \<times> engine) option" where
  "intelligenceOf [] st = Some ([], st)"
| "intelligenceOf ((source, score) # rest) st = do {
     (es, h) \<leftarrow> bm_get (history st) source;
     (r, act) \<leftarrow> bm_get (activeRemediations st) source;
     (ts, st') \<leftarrow> intelligenceOf rest (st\<lparr>history := h, activeRemediations := act\<rparr>);
     let evs = orDefault [] es;
     Some (\<lparr>ti_source = source, ti_score = score, ti_events = drop (length evs - 5) evs, ti_remediation = r\<rparr> # ts, st') }"

definition getTacticalIntelligence :: "engine \<Rightarrow> (tactical list \<times> engine) option" where
  "getTacticalIntelligence st = do {
     es \<leftarrow> bm_entries (scores st);
     (ts, st') \<leftarrow> intelligenceOf es st;
     Some (sort_key (\<lambda>t. - ti_score t) ts, st') }"

section \<open>Steps\<close>

datatype response_op =
    Evaluate string threat_event
  | SocketFlow string socket_flow
  | Decide string nat
  | EvaluateLogFails nat
  | Simulated string nat
  | SimulatedLogFails nat
  | Decay
  | Reset string
  | Intelligence
  | ChangePolicy "rat policy_op"

fun response_step :: "policy_env \<Rightarrow> engine \<Rightarrow> response_op \<Rightarrow> engine option" where
  "response_step env st (Evaluate now ev) = evaluate now ev st"
| "response_step env st (SocketFlow now f) = evaluateSocketFlow env now f st"
| "response_step env st (Decide now i) = decide env now i st"
| "response_step env st (EvaluateLogFails i) = Some (st\<lparr>evaluating := removeAt i (evaluating st)\<rparr>)"
| "response_step env st (Simulated now i) = simulated now i st"
| "response_step env st (SimulatedLogFails i) = Some (st\<lparr>simulating := removeAt i (simulating st)\<rparr>)"
| "response_step env st Decay = decayScores st"
| "response_step env st (Reset s) = resetScore s st"
| "response_step env st Intelligence = map_option snd (getTacticalIntelligence st)"
| "response_step env st (ChangePolicy op) = Some (st\<lparr>policy := policy_step (policy st) op\<rparr>)"

fun response_run :: "policy_env \<Rightarrow> engine \<Rightarrow> response_op list \<Rightarrow> engine option" where
  "response_run env st [] = Some st"
| "response_run env st (op # ops) = response_step env st op \<bind> (\<lambda>st'. response_run env st' ops)"

section \<open>Bounded maps as plain maps\<close>

definition view :: "('k, 'v) bmap \<Rightarrow> 'k \<Rightarrow> 'v option" where
  "view m k = (case map_of (cache m) k of None \<Rightarrow> None | Some a \<Rightarrow> map_option nval (heap m a))"

definition sound :: "('k, 'v) bmap \<Rightarrow> bool" where
  "sound m \<longleftrightarrow> (\<exists>xs. represents m xs \<and> length xs \<le> max 1 (maxCapacity m))"

text \<open>The contract of a bounded store: no operation raises, and below the capacity it is a plain map.\<close>

locale bounded_store =
  fixes ok :: "'m \<Rightarrow> bool"
    and look :: "'m \<Rightarrow> 'k \<Rightarrow> 'v option"
    and cap :: "'m \<Rightarrow> nat"
    and get :: "'m \<Rightarrow> 'k \<Rightarrow> ('v option \<times> 'm) option"
    and put :: "'m \<Rightarrow> 'k \<Rightarrow> 'v \<Rightarrow> 'm option"
    and remove :: "'m \<Rightarrow> 'k \<Rightarrow> (bool \<times> 'm) option"
  assumes get_law: "ok m \<Longrightarrow> \<exists>m'. get m k = Some (look m k, m') \<and> ok m' \<and> cap m' = cap m \<and> look m' = look m"
    and put_law: "ok m \<Longrightarrow> \<exists>m'. put m k v = Some m' \<and> ok m' \<and> cap m' = cap m \<and>
      (card (insert k (dom (look m))) \<le> cap m \<longrightarrow> look m' = (look m)(k \<mapsto> v))"
    and remove_law: "ok m \<Longrightarrow> \<exists>b m'. remove m k = Some (b, m') \<and> ok m' \<and> cap m' = cap m \<and> look m' = (look m)(k := None)"
begin

definition fits :: "'k set \<Rightarrow> 'm \<Rightarrow> bool" where
  "fits S m \<longleftrightarrow> finite S \<and> card S \<le> cap m \<and> dom (look m) \<subseteq> S"

lemma put_fits:
  assumes "ok m"
  shows "\<exists>m'. put m k v = Some m' \<and> ok m' \<and> cap m' = cap m \<and> (fits S m \<and> k \<in> S \<longrightarrow> fits S m' \<and> look m' = (look m)(k \<mapsto> v))"
proof -
  obtain m' where m': "put m k v = Some m'" "ok m'" "cap m' = cap m"
    "card (insert k (dom (look m))) \<le> cap m \<longrightarrow> look m' = (look m)(k \<mapsto> v)" using put_law [OF assms] by blast
  have "card (insert k (dom (look m))) \<le> cap m" if "fits S m" "k \<in> S"
    using that card_mono [of S "insert k (dom (look m))"] by (auto simp: fits_def)
  then show ?thesis using m' by (auto simp: fits_def)
qed

lemma remove_fits:
  assumes "ok m"
  shows "\<exists>b m'. remove m k = Some (b, m') \<and> ok m' \<and> cap m' = cap m \<and> look m' = (look m)(k := None) \<and> (fits S m \<longrightarrow> fits S m')"
  using remove_law [OF assms, of k] by (auto simp: fits_def dom_def subset_iff)

end

lemma represents_view: assumes "represents m xs" shows "view m = map_of xs"
proof
  fix k
  obtain ns where ns: "lru_rep m ns" "xs = map snd ns" using assms by (auto simp: represents_def)
  have d: "distinct (map fst xs)" using represents_distinct [OF assms] .
  show "view m k = map_of xs k"
  proof (cases "map_of (cache m) k")
    case None
    then have "k \<notin> fst ` set xs" using lru_rep_lookup_None [OF ns(1)] ns(2) by force
    then have "map_of xs k = None" by (simp add: map_of_eq_None_iff)
    then show ?thesis using None by (simp add: view_def)
  next
    case (Some a)
    then obtain v where v: "(a, k, v) \<in> set ns" using lru_rep_lookup [OF ns(1)] by auto
    then obtain n where "heap m a = Some n" "nval n = v" using dll_heap [of "heap m"] ns(1) by (force simp: lru_rep_def dlist_def)
    moreover have "map_of xs k = Some v" using v d ns(2) by (force simp: map_of_eq_Some_iff [OF d])
    ultimately show ?thesis using Some by (simp add: view_def)
  qed
qed

lemma map_of_lru_set:
  assumes "distinct (map fst xs)" and "card (insert k (dom (map_of xs))) \<le> cap"
  shows "map_of (lru_set cap k v xs) = (map_of xs)(k \<mapsto> v)"
proof -
  have "length xs < cap" if "k \<notin> fst ` set xs"
  proof -
    have "card (dom (map_of xs)) = length xs" using assms(1) by (metis distinct_card dom_map_of_conv_image_fst length_map set_map)
    then show ?thesis using assms(2) that by (simp add: dom_map_of_conv_image_fst)
  qed
  then show ?thesis by (auto simp: lru_set_def)
qed

lemma map_of_lru_touch: "map_of (lru_touch k xs) = map_of xs"
  by (auto simp: lru_touch_def split: option.split)

lemma bm_get_sound: "sound m \<Longrightarrow> \<exists>m'. bm_get m k = Some (view m k, m') \<and> sound m' \<and> maxCapacity m' = maxCapacity m \<and> view m' = view m"
proof -
  assume "sound m"
  then obtain xs where xs: "represents m xs" "length xs \<le> max 1 (maxCapacity m)" by (auto simp: sound_def)
  obtain m' where "bm_get m k = Some (map_of xs k, m')" "represents m' (lru_touch k xs)" "maxCapacity m' = maxCapacity m"
    using bm_get_refines [OF xs(1)] by blast
  then show ?thesis using represents_view xs(1) map_of_lru_touch length_lru_step [OF xs(2), of "OpGet k"]
    by (fastforce simp: sound_def lru_step_def)
qed

lemma bm_set_sound:
  "sound m \<Longrightarrow> \<exists>m'. bm_set m k v = Some m' \<and> sound m' \<and> maxCapacity m' = maxCapacity m \<and>
    (card (insert k (dom (view m))) \<le> maxCapacity m \<longrightarrow> view m' = (view m)(k \<mapsto> v))"
proof -
  assume "sound m"
  then obtain xs where xs: "represents m xs" "length xs \<le> max 1 (maxCapacity m)" by (auto simp: sound_def)
  obtain m' where m': "bm_set m k v = Some m'" "represents m' (lru_set (maxCapacity m) k v xs)" "maxCapacity m' = maxCapacity m"
    using bm_set_refines [OF xs(1)] by blast
  then have "sound m'" using length_lru_step [OF xs(2), of "OpSet k v"] by (auto simp: sound_def lru_step_def)
  then show ?thesis using m' represents_view [OF xs(1)] represents_view [OF m'(2)] map_of_lru_set [OF represents_distinct [OF xs(1)]] by auto
qed

lemma bm_delete_sound:
  "sound m \<Longrightarrow> \<exists>b m'. bm_delete m k = Some (b, m') \<and> sound m' \<and> maxCapacity m' = maxCapacity m \<and> view m' = (view m)(k := None)"
proof -
  assume "sound m"
  then obtain xs where xs: "represents m xs" "length xs \<le> max 1 (maxCapacity m)" by (auto simp: sound_def)
  obtain m' where "bm_delete m k = Some (k \<in> fst ` set xs, m')" "represents m' (AList.delete k xs)" "maxCapacity m' = maxCapacity m"
    using bm_delete_refines [OF xs(1)] by blast
  then show ?thesis using represents_view xs(1) length_lru_step [OF xs(2), of "OpDelete k"]
    by (fastforce simp: sound_def lru_step_def)
qed

interpretation store: bounded_store sound view maxCapacity bm_get bm_set bm_delete
  by unfold_locales (rule bm_get_sound bm_set_sound bm_delete_sound; assumption)+

lemma those_map: "(\<And>x. x \<in> set xs \<Longrightarrow> f x = Some (g x)) \<Longrightarrow> those (map f xs) = Some (map g xs)"
  by (induction xs) auto

lemma bm_entries_sound:
  assumes "sound m" shows "\<exists>es. bm_entries m = Some es \<and> distinct (map fst es) \<and> map_of es = view m"
proof -
  obtain ns where ns: "lru_rep m ns" using assms by (auto simp: sound_def represents_def)
  have h: "heap m a = Some (the (heap m a))" if "(k, a) \<in> set (cache m)" for k a
    using that ns dll_heap [of "heap m"] by (fastforce simp: lru_rep_def dlist_def)
  let ?es = "map (\<lambda>(k, a). (k, nval (the (heap m a)))) (cache m)"
  have "bm_entries m = Some ?es" unfolding bm_entries_def
  proof (rule those_map)
    fix x assume x: "x \<in> set (cache m)"
    obtain k a where ka: "x = (k, a)" by (cases x)
    obtain n where "heap m a = Some n" using x h ka by blast
    then show "(case x of (k, a) \<Rightarrow> map_option (\<lambda>n. (k, nval n)) (heap m a)) = Some (case x of (k, a) \<Rightarrow> (k, nval (the (heap m a))))"
      by (simp add: ka)
  qed
  moreover have "distinct (map fst ?es)" using ns by (simp add: lru_rep_def comp_def split_beta)
  moreover have "map_of ?es = view m"
  proof
    fix k
    show "map_of ?es k = view m k"
    proof (cases "map_of (cache m) k")
      case (Some a)
      then obtain n where "heap m a = Some n" using h map_of_SomeD by metis
      then show ?thesis using Some by (simp add: map_of_map view_def)
    qed (simp add: map_of_map view_def)
  qed
  ultimately show ?thesis by blast
qed

lemma sound_new: "sound (new_bmap cap)"
  unfolding sound_def by (intro exI [of _ "[]"] conjI represents_new) simp

lemma view_new: "view (new_bmap cap) = Map.empty" "maxCapacity (new_bmap cap) = cap"
  by (auto simp: view_def new_bmap_def)

lemma sound_size: "sound m \<Longrightarrow> maxCapacity m = 500 \<Longrightarrow> bm_size m \<le> 500"
  by (auto simp: sound_def bm_size_refines)

section \<open>The engine over unbounded maps\<close>

record reference =
  m_scores :: "string \<Rightarrow> int option"
  m_history :: "string \<Rightarrow> threat_event list option"
  m_active :: "string \<Rightarrow> remediation option"
  m_policy :: "rat policy"
  m_evaluating :: "(threat_event \<times> int) list"
  m_simulating :: "threat_event list"
  m_calls :: "saga_call list"

definition ref_new :: "rat policy \<Rightarrow> reference" where
  "ref_new p = \<lparr>m_scores = Map.empty, m_history = Map.empty, m_active = Map.empty, m_policy = p, m_evaluating = [], m_simulating = [], m_calls = []\<rparr>"

definition ref_evaluate :: "string \<Rightarrow> threat_event \<Rightarrow> reference \<Rightarrow> reference" where
  "ref_evaluate now ev p = (let s = e_source ev; score = orDefault 0 (m_scores p s) + safeSeverity ev
     in p\<lparr>m_scores := (m_scores p)(s \<mapsto> score), m_history := (m_history p)(s \<mapsto> recorded (orDefault [] (m_history p s)) (stamped now ev)),
          m_evaluating := m_evaluating p @ [(stamped now ev, score)]\<rparr>)"

definition ref_remediate :: "string \<Rightarrow> string \<Rightarrow> action \<Rightarrow> threat_event \<Rightarrow> reference \<Rightarrow> reference" where
  "ref_remediate now s tier ev p = (if map_option r_tier (m_active p s) = Some tier then p
     else p\<lparr>m_active := (m_active p)(s \<mapsto> \<lparr>r_tier = tier, r_timestamp = now, r_reason = e_description ev\<rparr>),
            m_calls := m_calls p @ [(s, tier, ev, orDefault 0 (m_scores p s))]\<rparr>)"

definition ref_decide :: "policy_env \<Rightarrow> string \<Rightarrow> nat \<Rightarrow> reference \<Rightarrow> reference" where
  "ref_decide env now i p = (if i < length (m_evaluating p) then
     (let (ev, score) = m_evaluating p ! i; q = p\<lparr>m_evaluating := removeAt i (m_evaluating p)\<rparr>
      in case policy_evaluate (regexTest env) (of_int score) (Some (factsOf env ev score)) (m_policy p) of
        Inl _ \<Rightarrow> q
      | Inr d \<Rightarrow> (if p_shadowMode (m_policy p) \<and> destructive (t_action d) then q\<lparr>m_simulating := m_simulating p @ [ev]\<rparr>
                 else ref_remediate now (e_source ev) (t_action d) ev q))
     else p)"

definition ref_forget :: "(string \<Rightarrow> bool) \<Rightarrow> reference \<Rightarrow> reference" where
  "ref_forget gone p = p\<lparr>m_scores := (\<lambda>s. if gone s then None else m_scores p s), m_history := (\<lambda>s. if gone s then None else m_history p s),
     m_active := (\<lambda>s. if gone s then None else m_active p s)\<rparr>"

text \<open>Every score loses one; a source that reaches zero is forgotten.\<close>

definition ref_decay :: "reference \<Rightarrow> reference" where
  "ref_decay p = (let q = ref_forget (\<lambda>s. \<exists>v. m_scores p s = Some v \<and> v \<le> 1) p
     in q\<lparr>m_scores := (\<lambda>s. map_option (\<lambda>v. v - 1) (m_scores q s))\<rparr>)"

fun ref_step :: "policy_env \<Rightarrow> reference \<Rightarrow> response_op \<Rightarrow> reference" where
  "ref_step env p (Evaluate now ev) = ref_evaluate now ev p"
| "ref_step env p (SocketFlow now f) = (case fl_threatScore f of
     Some score \<Rightarrow> (if fl_remoteIp f \<noteq> [] \<and> \<not> below85 score then ref_evaluate now (flowEvent env now f score) p else p) | None \<Rightarrow> p)"
| "ref_step env p (Decide now i) = ref_decide env now i p"
| "ref_step env p (EvaluateLogFails i) = p\<lparr>m_evaluating := removeAt i (m_evaluating p)\<rparr>"
| "ref_step env p (Simulated now i) = (if i < length (m_simulating p)
     then ref_remediate now (e_source (m_simulating p ! i)) WATCH (m_simulating p ! i) (p\<lparr>m_simulating := removeAt i (m_simulating p)\<rparr>) else p)"
| "ref_step env p (SimulatedLogFails i) = p\<lparr>m_simulating := removeAt i (m_simulating p)\<rparr>"
| "ref_step env p Decay = ref_decay p"
| "ref_step env p (Reset s) = ref_forget (\<lambda>t. t = s) p"
| "ref_step env p Intelligence = p"
| "ref_step env p (ChangePolicy op) = p\<lparr>m_policy := policy_step (m_policy p) op\<rparr>"

definition absEngine :: "engine \<Rightarrow> reference" where
  "absEngine st = \<lparr>m_scores = view (scores st), m_history = view (history st), m_active = view (activeRemediations st), m_policy = policy st,
     m_evaluating = evaluating st, m_simulating = simulating st, m_calls = sagaCalls st\<rparr>"

section \<open>Refinement\<close>

definition good :: "engine \<Rightarrow> bool" where
  "good st \<longleftrightarrow> sound (scores st) \<and> sound (history st) \<and> sound (activeRemediations st) \<and>
     maxCapacity (scores st) = 500 \<and> maxCapacity (history st) = 500 \<and> maxCapacity (activeRemediations st) = 500"

definition inside :: "string set \<Rightarrow> engine \<Rightarrow> bool" where
  "inside S st \<longleftrightarrow> store.fits S (scores st) \<and> store.fits S (history st) \<and> store.fits S (activeRemediations st) \<and>
     e_source ` fst ` set (evaluating st) \<subseteq> S \<and> e_source ` set (simulating st) \<subseteq> S"

text \<open>One step that cannot fail, and agrees with the reference while the sources are within a set that fits.\<close>

definition simulates :: "string set \<Rightarrow> engine \<Rightarrow> engine option \<Rightarrow> reference \<Rightarrow> bool" where
  "simulates S st r p \<longleftrightarrow> (\<exists>st'. r = Some st' \<and> good st' \<and> (inside S st \<longrightarrow> inside S st' \<and> absEngine st' = p))"

lemma stamped_source [simp]: "e_source (stamped now ev) = e_source ev"
  by (simp add: stamped_def)

lemma evaluate_simulates:
  assumes "good st" and "e_source ev \<in> S" shows "simulates S st (evaluate now ev st) (ref_evaluate now ev (absEngine st))"
proof -
  let ?s = "e_source ev"
  let ?score = "orDefault 0 (view (scores st) ?s) + safeSeverity ev" and ?es = "recorded (orDefault [] (view (history st) ?s)) (stamped now ev)"
  obtain sc where sc: "bm_get (scores st) ?s = Some (view (scores st) ?s, sc)" "sound sc" "maxCapacity sc = 500" "view sc = view (scores st)"
    using bm_get_sound [of "scores st" ?s] assms(1) by (auto simp: good_def)
  obtain sc' where sc': "bm_set sc ?s ?score = Some sc'" "sound sc'" "maxCapacity sc' = 500" "store.fits S sc \<longrightarrow> store.fits S sc' \<and> view sc' = (view sc)(?s \<mapsto> ?score)"
    using store.put_fits [OF sc(2), of ?s ?score S] sc(3) assms(2) by auto
  obtain h where h: "bm_get (history st) ?s = Some (view (history st) ?s, h)" "sound h" "maxCapacity h = 500" "view h = view (history st)"
    using bm_get_sound [of "history st" ?s] assms(1) by (auto simp: good_def)
  obtain h' where h': "bm_set h ?s ?es = Some h'" "sound h'" "maxCapacity h' = 500" "store.fits S h \<longrightarrow> store.fits S h' \<and> view h' = (view h)(?s \<mapsto> ?es)"
    using store.put_fits [OF h(2), of ?s ?es S] h(3) assms(2) by auto
  have "store.fits S sc = store.fits S (scores st)" "store.fits S h = store.fits S (history st)"
    using assms(1) sc(3,4) h(3,4) by (auto simp: store.fits_def good_def)
  then show ?thesis using assms sc sc' h h'
    by (auto simp: simulates_def evaluate_def ref_evaluate_def Let_def good_def inside_def absEngine_def)
qed

lemma remediate_simulates:
  assumes "good st" and "s \<in> S" shows "simulates S st (executeRemediation now s tier ev st) (ref_remediate now s tier ev (absEngine st))"
proof -
  let ?r = "\<lparr>r_tier = tier, r_timestamp = now, r_reason = e_description ev\<rparr>"
  obtain a where a: "bm_get (activeRemediations st) s = Some (view (activeRemediations st) s, a)" "sound a" "maxCapacity a = 500" "view a = view (activeRemediations st)"
    using bm_get_sound [of "activeRemediations st" s] assms(1) by (auto simp: good_def)
  obtain a' where a': "bm_set a s ?r = Some a'" "sound a'" "maxCapacity a' = 500" "store.fits S a \<longrightarrow> store.fits S a' \<and> view a' = (view a)(s \<mapsto> ?r)"
    using store.put_fits [OF a(2), of s ?r S] a(3) assms(2) by auto
  obtain sc where sc: "bm_get (scores st) s = Some (view (scores st) s, sc)" "sound sc" "maxCapacity sc = 500" "view sc = view (scores st)"
    using bm_get_sound [of "scores st" s] assms(1) by (auto simp: good_def)
  have "store.fits S sc = store.fits S (scores st)" "store.fits S a = store.fits S (activeRemediations st)"
    using assms(1) sc(3,4) a(3,4) by (auto simp: store.fits_def good_def)
  then show ?thesis using assms a a' sc
    by (auto simp: simulates_def executeRemediation_def ref_remediate_def good_def inside_def absEngine_def)
qed

lemma reset_simulates:
  assumes "good st"
  shows "\<exists>st'. resetScore s st = Some st' \<and> good st' \<and> absEngine st' = ref_forget (\<lambda>t. t = s) (absEngine st) \<and> (inside S st \<longrightarrow> inside S st')"
proof -
  obtain b1 sc where "bm_delete (scores st) s = Some (b1, sc)" "sound sc" "maxCapacity sc = 500" "view sc = (view (scores st))(s := None)"
      "store.fits S (scores st) \<longrightarrow> store.fits S sc"
    using store.remove_fits [of "scores st" s S] assms by (auto simp: good_def)
  moreover obtain b2 h where "bm_delete (history st) s = Some (b2, h)" "sound h" "maxCapacity h = 500" "view h = (view (history st))(s := None)"
      "store.fits S (history st) \<longrightarrow> store.fits S h"
    using store.remove_fits [of "history st" s S] assms by (auto simp: good_def)
  moreover obtain b3 a where "bm_delete (activeRemediations st) s = Some (b3, a)" "sound a" "maxCapacity a = 500"
      "view a = (view (activeRemediations st))(s := None)" "store.fits S (activeRemediations st) \<longrightarrow> store.fits S a"
    using store.remove_fits [of "activeRemediations st" s S] assms by (auto simp: good_def)
  ultimately show ?thesis by (auto simp: resetScore_def good_def inside_def absEngine_def ref_forget_def fun_upd_def)
qed

fun decays :: "(string \<times> int) list \<Rightarrow> reference \<Rightarrow> reference" where
  "decays [] p = p"
| "decays ((s, v) # es) p = decays es (if v \<le> 1 then ref_forget (\<lambda>t. t = s) p else p\<lparr>m_scores := (m_scores p)(s \<mapsto> v - 1)\<rparr>)"

lemma decayAll_simulates: "good st \<Longrightarrow> fst ` set es \<subseteq> S \<Longrightarrow> simulates S st (decayAll es st) (decays es (absEngine st))"
proof (induction es arbitrary: st)
  case (Cons e es)
  obtain s v where e: "e = (s, v)" by (cases e)
  show ?case
  proof (cases "v \<le> 1")
    case True
    obtain st1 where st1: "resetScore s st = Some st1" "good st1" "absEngine st1 = ref_forget (\<lambda>t. t = s) (absEngine st)" "inside S st \<longrightarrow> inside S st1"
      using reset_simulates [OF Cons.prems(1)] by blast
    have "simulates S st1 (decayAll es st1) (decays es (absEngine st1))" using Cons.IH [OF st1(2)] Cons.prems(2) by simp
    then show ?thesis using True st1 by (auto simp: e simulates_def)
  next
    case False
    obtain sc where sc: "bm_set (scores st) s (v - 1) = Some sc" "sound sc" "maxCapacity sc = 500"
        "store.fits S (scores st) \<longrightarrow> store.fits S sc \<and> view sc = (view (scores st))(s \<mapsto> v - 1)"
      using store.put_fits [of "scores st" s "v - 1" S] Cons.prems by (auto simp: good_def e)
    have g: "good (st\<lparr>scores := sc\<rparr>)" using sc Cons.prems(1) by (auto simp: good_def)
    have "inside S (st\<lparr>scores := sc\<rparr>) \<and> absEngine (st\<lparr>scores := sc\<rparr>) = (absEngine st)\<lparr>m_scores := (m_scores (absEngine st))(s \<mapsto> v - 1)\<rparr>" if "inside S st"
      using that sc(4) by (auto simp: inside_def absEngine_def)
    then show ?thesis using Cons.IH [OF g] Cons.prems(2) False sc(1) by (auto simp: e simulates_def)
  qed
qed (simp add: simulates_def)

lemma decays_all:
  "distinct (map fst es) \<Longrightarrow> decays es p = p\<lparr>
     m_scores := (\<lambda>s. case map_of es s of None \<Rightarrow> m_scores p s | Some v \<Rightarrow> if v \<le> 1 then None else Some (v - 1)),
     m_history := (\<lambda>s. case map_of es s of None \<Rightarrow> m_history p s | Some v \<Rightarrow> if v \<le> 1 then None else m_history p s),
     m_active := (\<lambda>s. case map_of es s of None \<Rightarrow> m_active p s | Some v \<Rightarrow> if v \<le> 1 then None else m_active p s)\<rparr>"
proof (induction es arbitrary: p)
  case (Cons e es)
  obtain s v where e: "e = (s, v)" by (cases e)
  have "map_of es s = None" using Cons.prems by (simp add: e map_of_eq_None_iff)
  then show ?case using Cons by (cases "v \<le> 1") (auto simp: e ref_forget_def fun_eq_iff split: option.split)
qed simp

lemma decay_simulates: assumes "good st" shows "simulates S st (decayScores st) (ref_decay (absEngine st))"
proof -
  obtain es where es: "bm_entries (scores st) = Some es" "distinct (map fst es)" "map_of es = view (scores st)"
    using bm_entries_sound assms by (auto simp: good_def)
  have d: "decays es (absEngine st) = ref_decay (absEngine st)"
    unfolding decays_all [OF es(2)] es(3) by (auto simp: ref_decay_def ref_forget_def absEngine_def Let_def fun_eq_iff split: option.split)
  show ?thesis
  proof (cases "inside S st")
    case True
    then have "fst ` set es \<subseteq> S" using es(3) by (simp add: inside_def store.fits_def flip: dom_map_of_conv_image_fst)
    then show ?thesis using decayAll_simulates [OF assms, of es S] d es(1) by (simp add: decayScores_def)
  next
    case False
    then show ?thesis using decayAll_simulates [OF assms, of es UNIV] es(1) by (auto simp: decayScores_def simulates_def)
  qed
qed

lemma intelligence_keeps:
  "good st \<Longrightarrow> \<exists>ts st'. intelligenceOf es st = Some (ts, st') \<and> good st' \<and> absEngine st' = absEngine st \<and> (inside S st \<longrightarrow> inside S st')"
proof (induction es arbitrary: st)
  case (Cons e es)
  obtain s v where e: "e = (s, v)" by (cases e)
  obtain h where h: "bm_get (history st) s = Some (view (history st) s, h)" "sound h" "maxCapacity h = 500" "view h = view (history st)"
    using bm_get_sound [of "history st" s] Cons.prems by (auto simp: good_def)
  obtain a where a: "bm_get (activeRemediations st) s = Some (view (activeRemediations st) s, a)" "sound a" "maxCapacity a = 500" "view a = view (activeRemediations st)"
    using bm_get_sound [of "activeRemediations st" s] Cons.prems by (auto simp: good_def)
  let ?st = "st\<lparr>history := h, activeRemediations := a\<rparr>"
  have "good ?st" "absEngine ?st = absEngine st" "inside S st \<longrightarrow> inside S ?st"
    using h a Cons.prems by (auto simp: good_def absEngine_def inside_def store.fits_def)
  then show ?case using Cons.IH [of ?st] h(1) a(1) by (fastforce simp: e Let_def)
qed simp

lemma intelligence_simulates:
  assumes "good st" shows "simulates S st (map_option snd (getTacticalIntelligence st)) (absEngine st)"
proof -
  obtain es where es: "bm_entries (scores st) = Some es" using bm_entries_sound assms by (auto simp: good_def)
  from intelligence_keeps [OF assms, of es S] show ?thesis by (auto simp: getTacticalIntelligence_def simulates_def es)
qed

lemma set_removeAt: "set (removeAt i xs) \<subseteq> set xs"
  using set_take_subset [of i xs] set_drop_subset [of "Suc i" xs] by (auto simp: removeAt_def)

lemma abs_simps [simp]: "m_evaluating (absEngine st) = evaluating st" "m_simulating (absEngine st) = simulating st" "m_policy (absEngine st) = policy st"
  by (simp_all add: absEngine_def)

lemma abs_updates:
  "absEngine (st\<lparr>evaluating := xs\<rparr>) = (absEngine st)\<lparr>m_evaluating := xs\<rparr>" "absEngine (st\<lparr>simulating := ys\<rparr>) = (absEngine st)\<lparr>m_simulating := ys\<rparr>"
  by (simp_all add: absEngine_def)

lemma remediate_any:
  assumes "good st1" and "inside S st \<Longrightarrow> inside S st1" and "inside S st \<Longrightarrow> s \<in> S"
  shows "simulates S st (executeRemediation now s tier ev st1) (ref_remediate now s tier ev (absEngine st1))"
proof (cases "inside S st")
  case True
  then show ?thesis using remediate_simulates [OF assms(1), of s S now tier ev] assms by (auto simp: simulates_def)
next
  case False
  then show ?thesis using remediate_simulates [OF assms(1), of s UNIV now tier ev] by (auto simp: simulates_def)
qed

lemma decide_simulates: assumes "good st" shows "simulates S st (decide env now i st) (ref_decide env now i (absEngine st))"
proof (cases "i < length (evaluating st)")
  case True
  obtain ev n where e: "evaluating st ! i = (ev, n)" by (cases "evaluating st ! i")
  let ?st = "st\<lparr>evaluating := removeAt i (evaluating st)\<rparr>"
  have g: "good ?st" using assms by (simp add: good_def)
  have m: "(ev, n) \<in> set (evaluating st)" using True e by (metis nth_mem)
  have i: "inside S ?st" "e_source ev \<in> S" if "inside S st"
  proof -
    have "e_source ` fst ` set (removeAt i (evaluating st)) \<subseteq> e_source ` fst ` set (evaluating st)" by (intro image_mono set_removeAt)
    then show "inside S ?st" using that by (simp add: inside_def) (metis subset_trans)
    have "e_source ev \<in> e_source ` fst ` set (evaluating st)" using imageI [OF imageI [OF m, of fst], of e_source] by simp
    then show "e_source ev \<in> S" using that by (auto simp: inside_def)
  qed
  show ?thesis
  proof (cases "policy_evaluate (regexTest env) (of_int n) (Some (factsOf env ev n)) (policy st)")
    case (Inl a)
    then have "decide env now i st = Some ?st" "ref_decide env now i (absEngine st) = absEngine ?st"
      using True e by (simp_all add: decide_def ref_decide_def abs_updates)
    then show ?thesis using g i(1) by (simp add: simulates_def)
  next
    case (Inr d)
    show ?thesis
    proof (cases "p_shadowMode (policy st) \<and> destructive (t_action d)")
      case True
      let ?st2 = "?st\<lparr>simulating := simulating st @ [ev]\<rparr>"
      have "decide env now i st = Some ?st2" "ref_decide env now i (absEngine st) = absEngine ?st2"
        using True \<open>i < length (evaluating st)\<close> e Inr by (simp_all add: decide_def ref_decide_def abs_updates)
      moreover have "good ?st2" "inside S st \<Longrightarrow> inside S ?st2" using g i by (auto simp: good_def inside_def)
      ultimately show ?thesis by (simp add: simulates_def)
    next
      case False
      have "decide env now i st = executeRemediation now (e_source ev) (t_action d) ev ?st"
        "ref_decide env now i (absEngine st) = ref_remediate now (e_source ev) (t_action d) ev (absEngine ?st)"
        using False \<open>i < length (evaluating st)\<close> e Inr by (auto simp: decide_def ref_decide_def abs_updates Let_def)
      then show ?thesis using remediate_any [of ?st S st "e_source ev" now "t_action d" ev] g i by simp
    qed
  qed
qed (use assms in \<open>simp add: decide_def ref_decide_def simulates_def\<close>)

lemma simulated_simulates:
  assumes "good st" shows "simulates S st (simulated now i st) (ref_step env (absEngine st) (Simulated now i))"
proof (cases "i < length (simulating st)")
  case True
  let ?st = "st\<lparr>simulating := removeAt i (simulating st)\<rparr>"
  have "good ?st" using assms by (simp add: good_def)
  moreover have "inside S ?st" "e_source (simulating st ! i) \<in> S" if "inside S st"
    using that set_removeAt [of i "simulating st"] nth_mem [OF True] by (force simp: inside_def)+
  ultimately show ?thesis using remediate_any [of ?st S st] True by (simp add: simulated_def abs_updates)
qed (use assms in \<open>simp add: simulated_def simulates_def\<close>)

fun sourcesOf :: "response_op \<Rightarrow> string set" where
  "sourcesOf (Evaluate now ev) = {e_source ev}"
| "sourcesOf (SocketFlow now f) = {fl_remoteIp f}"
| "sourcesOf _ = {}"

lemma step_simulates:
  assumes "good st" and "sourcesOf op \<subseteq> S" shows "simulates S st (response_step env st op) (ref_step env (absEngine st) op)"
proof (cases op)
  case (Evaluate now ev)
  then show ?thesis using evaluate_simulates [OF assms(1)] assms(2) by simp
next
  case (SocketFlow now f)
  then show ?thesis using assms evaluate_simulates [OF assms(1), of "flowEvent env now f (the (fl_threatScore f))" S now]
    by (auto simp: evaluateSocketFlow_def flowEvent_def simulates_def split: option.split)
next
  case (Decide now i)
  then show ?thesis using decide_simulates [OF assms(1)] by simp
next
  case (EvaluateLogFails i)
  have "inside S (st\<lparr>evaluating := removeAt i (evaluating st)\<rparr>)" if "inside S st"
    using that set_removeAt [of i "evaluating st"] by (force simp: inside_def)
  then show ?thesis using assms(1) EvaluateLogFails by (simp add: simulates_def good_def abs_updates)
next
  case (Simulated now i)
  then show ?thesis using simulated_simulates [OF assms(1)] by simp
next
  case (SimulatedLogFails i)
  have "inside S (st\<lparr>simulating := removeAt i (simulating st)\<rparr>)" if "inside S st"
    using that set_removeAt [of i "simulating st"] by (force simp: inside_def)
  then show ?thesis using assms(1) SimulatedLogFails by (simp add: simulates_def good_def abs_updates)
next
  case Decay
  then show ?thesis using decay_simulates [OF assms(1)] by simp
next
  case (Reset s)
  then show ?thesis using reset_simulates [OF assms(1), of s S] by (auto simp: simulates_def)
next
  case Intelligence
  then show ?thesis using intelligence_simulates [OF assms(1)] by simp
next
  case (ChangePolicy op)
  then show ?thesis using assms(1) by (auto simp: simulates_def good_def inside_def absEngine_def)
qed

lemma run_simulates:
  "good st \<Longrightarrow> \<Union> (sourcesOf ` set ops) \<subseteq> S \<Longrightarrow> simulates S st (response_run env st ops) (foldl (ref_step env) (absEngine st) ops)"
proof (induction ops arbitrary: st)
  case (Cons op ops)
  obtain st1 where st1: "response_step env st op = Some st1" "good st1" "inside S st \<longrightarrow> inside S st1 \<and> absEngine st1 = ref_step env (absEngine st) op"
    using step_simulates [OF Cons.prems(1), of op S env] Cons.prems(2) by (auto simp: simulates_def)
  have "simulates S st1 (response_run env st1 ops) (foldl (ref_step env) (absEngine st1) ops)" using Cons.IH [OF st1(2)] Cons.prems(2) by simp
  then show ?case using st1 by (auto simp: simulates_def)
qed (simp add: simulates_def)

lemma good_new: "good (newResponse p)" "absEngine (newResponse p) = ref_new p" "finite S \<Longrightarrow> card S \<le> 500 \<Longrightarrow> inside S (newResponse p)"
  by (simp_all add: good_def newResponse_def sound_new view_new absEngine_def ref_new_def inside_def store.fits_def)

lemma good_size: "good st \<Longrightarrow> bm_size (scores st) \<le> 500 \<and> bm_size (history st) \<le> 500 \<and> bm_size (activeRemediations st) \<le> 500"
  by (simp add: good_def sound_size)


section \<open>Calls of the saga\<close>

definition tierOf :: "engine \<Rightarrow> string \<Rightarrow> action option" where
  "tierOf st s = map_option r_tier (view (activeRemediations st) s)"

lemma remediate_calls:
  assumes "good st" and "executeRemediation now s tier ev st = Some st'"
  shows "sagaCalls st' = sagaCalls st \<or> sagaCalls st' = sagaCalls st @ [(s, tier, ev, orDefault 0 (view (scores st) s))] \<and> tierOf st s \<noteq> Some tier \<and> tierOf st' s = Some tier"
proof -
  let ?r = "\<lparr>r_tier = tier, r_timestamp = now, r_reason = e_description ev\<rparr>"
  obtain a where a: "bm_get (activeRemediations st) s = Some (view (activeRemediations st) s, a)" "sound a"
    using bm_get_sound [of "activeRemediations st" s] assms(1) by (auto simp: good_def)
  obtain xs where xs: "represents a xs" using a(2) by (auto simp: sound_def)
  obtain a' where a': "bm_set a s ?r = Some a'" "represents a' (lru_set (maxCapacity a) s ?r xs)" using bm_set_refines [OF xs] by blast
  have "view a' s = Some ?r" unfolding represents_view [OF a'(2)] by (simp add: lru_set_def)
  moreover obtain sc where "bm_get (scores st) s = Some (view (scores st) s, sc)" using bm_get_sound [of "scores st" s] assms(1) by (auto simp: good_def)
  ultimately show ?thesis using assms(2) a(1) a'(1) by (auto simp: executeRemediation_def tierOf_def split: if_splits)
qed

lemma decayAll_calls: "decayAll es st = Some st' \<Longrightarrow> sagaCalls st' = sagaCalls st"
proof (induction es arbitrary: st)
  case (Cons e es)
  then show ?case by (cases e) (fastforce simp: Let_def resetScore_def split: if_splits bind_splits)
qed simp

lemma intelligenceOf_calls: "intelligenceOf es st = Some (ts, st') \<Longrightarrow> sagaCalls st' = sagaCalls st"
proof (induction es arbitrary: st ts)
  case (Cons e es)
  then show ?case by (cases e) (auto simp: bind_eq_Some_conv Let_def)
qed simp

lemma quiet_steps:
  "evaluate now ev st = Some st' \<Longrightarrow> sagaCalls st' = sagaCalls st"
  "evaluateSocketFlow env now f st = Some st' \<Longrightarrow> sagaCalls st' = sagaCalls st"
  "decayScores st = Some st' \<Longrightarrow> sagaCalls st' = sagaCalls st"
  "resetScore s st = Some st' \<Longrightarrow> sagaCalls st' = sagaCalls st"
  "map_option snd (getTacticalIntelligence st) = Some st' \<Longrightarrow> sagaCalls st' = sagaCalls st"
proof -
  show e: "evaluate now ev st = Some st' \<Longrightarrow> sagaCalls st' = sagaCalls st" for now ev by (auto simp: evaluate_def bind_eq_Some_conv Let_def)
  show "evaluateSocketFlow env now f st = Some st' \<Longrightarrow> sagaCalls st' = sagaCalls st"
    by (auto simp: evaluateSocketFlow_def e split: option.splits if_splits)
  show "decayScores st = Some st' \<Longrightarrow> sagaCalls st' = sagaCalls st" by (auto simp: decayScores_def bind_eq_Some_conv decayAll_calls)
  show "resetScore s st = Some st' \<Longrightarrow> sagaCalls st' = sagaCalls st" by (auto simp: resetScore_def bind_eq_Some_conv)
  show "map_option snd (getTacticalIntelligence st) = Some st' \<Longrightarrow> sagaCalls st' = sagaCalls st"
    by (auto simp: getTacticalIntelligence_def bind_eq_Some_conv intelligenceOf_calls)
qed

lemma decide_calls:
  assumes "good st" and "i < length (evaluating st)" and "evaluating st ! i = (ev, n)" and "decide env now i st = Some st'"
  shows "sagaCalls st' = sagaCalls st \<or> (\<exists>d.
    policy_evaluate (regexTest env) (of_int n) (Some (factsOf env ev n)) (policy st) = Inr d \<and> \<not> (p_shadowMode (policy st) \<and> destructive (t_action d)) \<and>
    sagaCalls st' = sagaCalls st @ [(e_source ev, t_action d, ev, orDefault 0 (view (scores st) (e_source ev)))] \<and>
    tierOf st (e_source ev) \<noteq> Some (t_action d) \<and> tierOf st' (e_source ev) = Some (t_action d))"
proof (cases "policy_evaluate (regexTest env) (of_int n) (Some (factsOf env ev n)) (policy st)")
  case (Inl e)
  then show ?thesis using assms(2-4) by (auto simp: decide_def)
next
  case (Inr d)
  let ?st = "st\<lparr>evaluating := removeAt i (evaluating st)\<rparr>"
  show ?thesis
  proof (cases "p_shadowMode (policy st) \<and> destructive (t_action d)")
    case True
    then show ?thesis using assms(2-4) Inr by (auto simp: decide_def)
  next
    case False
    then have "executeRemediation now (e_source ev) (t_action d) ev ?st = Some st'" using assms(2-4) Inr by (auto simp: decide_def Let_def split: if_splits)
    moreover have "good ?st" using assms(1) by (simp add: good_def)
    ultimately show ?thesis using remediate_calls [of ?st now "e_source ev" "t_action d" ev st'] False Inr by (simp add: tierOf_def)
  qed
qed

text \<open>
  C20: a step makes at most one call of the saga, and never repeats one. A call is made for the source of a pending event,
  with the current score, only when the tier is not the one already recorded for the source, and records it. Its tier is what the
  policy decides at that moment for the score the event had when it was counted, and BLOCK, ISOLATE and LOCKDOWN are never called while shadow mode is on;
  an event whose action was simulated leads to WATCH only.
\<close>

theorem response_calls:
  assumes "response_run env (newResponse p) ops = Some st" and "response_step env st op = Some st'"
  shows "sagaCalls st' = sagaCalls st \<or>
    (\<exists>t ev. sagaCalls st' = sagaCalls st @ [(e_source ev, t, ev, orDefault 0 (view (scores st) (e_source ev)))] \<and>
      tierOf st (e_source ev) \<noteq> Some t \<and> tierOf st' (e_source ev) = Some t \<and>
      (t = WATCH \<and> ev \<in> set (simulating st) \<or>
       (\<exists>score d. (ev, score) \<in> set (evaluating st) \<and>
          policy_evaluate (regexTest env) (of_int score) (Some (factsOf env ev score)) (policy st) = Inr d \<and> t = t_action d \<and>
          \<not> (p_shadowMode (policy st) \<and> t \<in> {BLOCK, ISOLATE, LOCKDOWN}))))"
proof -
  have g: "good st" using run_simulates [OF good_new(1) [of p], of ops UNIV env] assms(1) by (auto simp: simulates_def)
  show ?thesis
  proof (cases op)
    case (Decide now i)
    show ?thesis
    proof (cases "i < length (evaluating st)")
      case True
      obtain ev n where e: "evaluating st ! i = (ev, n)" by (cases "evaluating st ! i")
      have m: "(ev, n) \<in> set (evaluating st)" using True e by (metis nth_mem)
      have "decide env now i st = Some st'" using assms(2) Decide by simp
      from decide_calls [OF g True e this] show ?thesis using m unfolding destructive_def by blast
    qed (use assms(2) Decide in \<open>simp add: decide_def\<close>)
  next
    case (Simulated now i)
    show ?thesis
    proof (cases "i < length (simulating st)")
      case True
      let ?st = "st\<lparr>simulating := removeAt i (simulating st)\<rparr>"
      have "good ?st" using g by (simp add: good_def)
      moreover have "executeRemediation now (e_source (simulating st ! i)) WATCH (simulating st ! i) ?st = Some st'"
        using assms(2) Simulated True by (simp add: simulated_def)
      moreover have "tierOf ?st = tierOf st" by (simp add: tierOf_def fun_eq_iff)
      ultimately show ?thesis
        using remediate_calls [of ?st now "e_source (simulating st ! i)" WATCH "simulating st ! i" st'] nth_mem [OF True] by auto
    qed (use assms(2) Simulated in \<open>simp add: simulated_def\<close>)
  qed (use assms(2) quiet_steps in \<open>auto\<close>)
qed

section \<open>An attack\<close>

definition attackEnv :: policy_env where
  "attackEnv = \<lparr>regexTest = (\<lambda>_ _. None), factsOf = (\<lambda>_ _. []), showNumber = (\<lambda>_. []), flowData = (\<lambda>_. [])\<rparr>"

definition livePolicy :: "rat policy" where
  "livePolicy = newEngine None (Some ''false'') noUpdate"

definition attack :: threat_event where
  "attack = \<lparr>e_source = ''10.0.0.9'', e_type = ''SCAN'', e_severity = Some (Finite (191 / 2)), e_description = ''scan'', e_data = None, e_timestamp = Some ''t''\<rparr>"

lemma attack_decision: "policy_evaluate (\<lambda>_ _. None) 95 (Some []) livePolicy = Inr \<lparr>t_score = 90, t_action = ISOLATE, t_description = ''Full node network isolation''\<rparr>"
  by (simp add: livePolicy_def newEngine_def mergePolicy_def defaultPolicy_def noUpdate_def keepOr_def policy_evaluate_def thresholdVerdict_def)

lemma attack_severity: "safeSeverity attack = 95" "stamped now attack = attack"
proof -
  have "\<lfloor>191 / 2 :: rat\<rfloor> = 95" by (rule floor_unique) simp_all
  then show "safeSeverity attack = 95" by (simp add: safeSeverity_def attack_def)
qed (simp add: attack_def stamped_def)

lemmas attack_eval = attack_decision attack_severity ref_new_def ref_evaluate_def ref_decide_def ref_remediate_def ref_decay_def ref_forget_def
  Let_def orDefault_def removeAt_def recorded_def MAX_HISTORY_PER_SOURCE_def


theorem response_calls_witness:
  "\<exists>st st'. response_run attackEnv (newResponse livePolicy) [Evaluate ''t'' attack] = Some st \<and> response_step attackEnv st (Decide ''u'' 0) = Some st' \<and>
    (sagaCalls st' = sagaCalls st \<or> (\<exists>(ev :: threat_event) t. tierOf st (e_source ev) \<noteq> Some t \<and> tierOf st' (e_source ev) = Some t))"
proof -
  obtain st where st: "response_run attackEnv (newResponse livePolicy) [Evaluate ''t'' attack] = Some st" "good st"
    using run_simulates [OF good_new(1) [of livePolicy], of "[Evaluate ''t'' attack]" UNIV attackEnv] by (auto simp: simulates_def)
  obtain st' where st': "response_step attackEnv st (Decide ''u'' 0) = Some st'"
    using step_simulates [OF st(2), of "Decide ''u'' 0" UNIV attackEnv] by (auto simp: simulates_def)
  have "sagaCalls st' = sagaCalls st \<or> (\<exists>(ev :: threat_event) t. tierOf st (e_source ev) \<noteq> Some t \<and> tierOf st' (e_source ev) = Some t)"
    using response_calls [OF st(1) st'] by blast
  then show ?thesis using st(1) st' by (intro exI [of _ st] exI [of _ st'] conjI)
qed

end
