(* ===== verification/Response_Saga.thy ===== *)
theory Response_Saga
  imports Policy_Engine
begin

text \<open>
  The responses to a threat, domain/orchestration/sagas/threat_response_saga.ts: for each tier the calls to the firewall, the mesh,
  the packet capture and the forensics, in order. The ports are a parameter: what a call answers may
  depend on every call before it, and a call may reject. A saga is a function from the calls made so far to
  its outcome and the calls after it; \<^const>\<open>Inl\<close> as outcome is an exception.
\<close>

section \<open>Ports\<close>

datatype port_call =
    LogEvent action string
  | Lockdown
  | BlockIp string
  | BroadcastQuarantine string
  | IsolateNode string
  | QuarantineProcess int
  | CalculateProcessHash int
  | BroadcastThreatHash string
  | KillLater int
  | ShadowBanIp string
  | SyscallAllowlist int
  | StartCapture string string
  | CaptureForensics int

record reply =
  re_success :: bool
  re_stderr :: string
  re_hash :: "string option"

record ports =
  answer :: "port_call list \<Rightarrow> port_call \<Rightarrow> string + reply"
  hasQuarantine :: bool

type_synonym 'a saga = "port_call list \<Rightarrow> (string + 'a) \<times> port_call list"

definition ret :: "'a \<Rightarrow> 'a saga" where
  "ret x tr = (Inr x, tr)"

definition andThen :: "'a saga \<Rightarrow> ('a \<Rightarrow> 'b saga) \<Rightarrow> 'b saga" where
  "andThen m f tr = (case m tr of (Inl e, tr') \<Rightarrow> (Inl e, tr') | (Inr x, tr') \<Rightarrow> f x tr')"

definition attempt :: "'a saga \<Rightarrow> unit saga" where
  "attempt m tr = (Inr (), snd (m tr))"

definition call :: "ports \<Rightarrow> port_call \<Rightarrow> reply saga" where
  "call ps c tr = (answer ps tr c, tr @ [c])"

definition start :: "port_call \<Rightarrow> unit saga" where
  "start c tr = (Inr (), tr @ [c])"

section \<open>The tiers\<close>

text \<open>\<open>Result<void>\<close>: the error message or nothing.\<close>

definition resultOf :: "string \<Rightarrow> reply \<Rightarrow> string + unit" where
  "resultOf msg r = (if re_success r then Inr () else Inl msg)"

definition dotted :: "string \<Rightarrow> bool" where
  "dotted source = js_includes source ''.''"

definition handleLockdown :: "ports \<Rightarrow> (string + unit) saga" where
  "handleLockdown ps = andThen (call ps Lockdown) (\<lambda>r. ret (resultOf (re_stderr r) r))"

definition handleIsolation :: "ports \<Rightarrow> string \<Rightarrow> (string + unit) saga" where
  "handleIsolation ps source =
    (if dotted source then
       andThen (if hasQuarantine ps then andThen (call ps (BroadcastQuarantine source)) (\<lambda>_. ret ()) else ret ()) (\<lambda>_.
       andThen (call ps (BlockIp source)) (\<lambda>r. ret (resultOf (re_stderr r) r)))
     else andThen (call ps (IsolateNode ''local'')) (\<lambda>r. ret (resultOf ''Mesh isolation failed'' r)))"

definition shareHash :: "ports \<Rightarrow> int \<Rightarrow> unit saga" where
  "shareHash ps pid = attempt (andThen (call ps (CalculateProcessHash pid)) (\<lambda>r.
     case re_hash r of
       Some h \<Rightarrow> (if h \<noteq> [] then andThen (call ps (BroadcastThreatHash h)) (\<lambda>_. ret ()) else ret ())
     | None \<Rightarrow> ret ()))"

definition handleBlock :: "ports \<Rightarrow> string \<Rightarrow> (string + unit) saga" where
  "handleBlock ps source =
    (if dotted source then andThen (call ps (BlockIp source)) (\<lambda>r. ret (resultOf (re_stderr r) r))
     else case parseInt source of
       Some pid \<Rightarrow>
         andThen (call ps (QuarantineProcess pid)) (\<lambda>_.
         andThen (shareHash ps pid) (\<lambda>_.
         andThen (start (KillLater pid)) (\<lambda>_. ret (Inr ()))))
     | None \<Rightarrow> ret (Inl (''Invalid source for BLOCK: '' @ source)))"

definition handleShadow :: "ports \<Rightarrow> string \<Rightarrow> (string + unit) saga" where
  "handleShadow ps source =
    (if dotted source then andThen (call ps (ShadowBanIp source)) (\<lambda>r. ret (resultOf (re_stderr r) r))
     else case parseInt source of
       Some pid \<Rightarrow> andThen (call ps (SyscallAllowlist pid)) (\<lambda>r. ret (resultOf (re_stderr r) r))
     | None \<Rightarrow> ret (Inl (''Invalid source for SHADOW: '' @ source)))"

definition handleWatch :: "ports \<Rightarrow> string \<Rightarrow> (string + unit) saga" where
  "handleWatch ps source =
    (if dotted source
     then andThen (call ps (StartCapture (''forensics_'' @ source @ ''.pcap'') (''host '' @ source))) (\<lambda>_. ret (Inr ()))
     else case parseInt source of
       Some pid \<Rightarrow> andThen (start (CaptureForensics pid)) (\<lambda>_. ret (Inr ()))
     | None \<Rightarrow> ret (Inr ()))"

fun handleTier :: "ports \<Rightarrow> string \<Rightarrow> action \<Rightarrow> (string + unit) saga" where
  "handleTier ps source LOCKDOWN = handleLockdown ps"
| "handleTier ps source ISOLATE = handleIsolation ps source"
| "handleTier ps source BLOCK = handleBlock ps source"
| "handleTier ps source SHADOW = handleShadow ps source"
| "handleTier ps source WATCH = handleWatch ps source"
| "handleTier ps source LOG = ret (Inr ())"

section \<open>A saga\<close>

datatype saga_state = PENDING | EXECUTING | COMPLETED | FAILED | ROLLED_BACK

record saga_instance =
  sg_source :: string
  sg_tier :: action
  sg_state :: saga_state
  sg_steps :: "string list"
  sg_timestamp :: string

record sagas =
  activeSagas :: "(string \<times> saga_instance) list"
  portCalls :: "port_call list"

fun tierName :: "action \<Rightarrow> string" where
  "tierName LOG = ''LOG''" | "tierName WATCH = ''WATCH''" | "tierName SHADOW = ''SHADOW''"
| "tierName BLOCK = ''BLOCK''" | "tierName ISOLATE = ''ISOLATE''" | "tierName LOCKDOWN = ''LOCKDOWN''"

definition setState :: "string \<Rightarrow> saga_state \<Rightarrow> sagas \<Rightarrow> sagas" where
  "setState sagaId s st = st\<lparr>activeSagas := AList.map_entry sagaId (\<lambda>i. i\<lparr>sg_state := s\<rparr>) (activeSagas st)\<rparr>"

text \<open>The outer sum is the rejection of the promise, the inner one the returned result.\<close>

definition saga_execute :: "ports \<Rightarrow> string \<Rightarrow> string \<Rightarrow> string \<Rightarrow> action \<Rightarrow> string \<Rightarrow> sagas \<Rightarrow> (string + (string + unit)) \<times> sagas" where
  "saga_execute ps sagaId now source tier triggerType st =
    (let st1 = st\<lparr>activeSagas := AList.update sagaId \<lparr>sg_source = source, sg_tier = tier, sg_state = PENDING, sg_steps = [], sg_timestamp = now\<rparr> (activeSagas st)\<rparr>;
         (logged, tr1) = call ps (LogEvent tier (''Saga ['' @ take 8 sagaId @ ''] Remediation Tier ['' @ tierName tier @ ''] engaged for '' @ source @ ''. Reason: '' @ triggerType)) (portCalls st1);
         st2 = st1\<lparr>portCalls := tr1\<rparr>
     in case logged of
       Inl e \<Rightarrow> (Inl e, st2)
     | Inr _ \<Rightarrow>
        (let st3 = setState sagaId EXECUTING st2;
             (res, tr2) = handleTier ps source tier (portCalls st3);
             st4 = st3\<lparr>portCalls := tr2\<rparr>
         in case res of
           Inr (Inr _) \<Rightarrow> (Inr (Inr ()), setState sagaId COMPLETED st4)
         | Inr (Inl e) \<Rightarrow> (Inr (Inl e), setState sagaId FAILED st4)
         | Inl e \<Rightarrow> (Inr (Inl e), setState sagaId FAILED st4)))"

lemmas saga_defs = ret_def andThen_def attempt_def call_def start_def

section \<open>What a saga does\<close>

text \<open>The calls a tier may make for a source: an address (a source with a dot) is only blocked, quarantined, redirected or
  captured as itself, any other source is the process it denotes.\<close>

fun proper :: "action \<Rightarrow> string \<Rightarrow> port_call \<Rightarrow> bool" where
  "proper tier source (LogEvent _ _) = False"
| "proper tier source Lockdown = (tier = LOCKDOWN)"
| "proper tier source (BlockIp ip) = (tier \<in> {BLOCK, ISOLATE} \<and> dotted source \<and> ip = source)"
| "proper tier source (BroadcastQuarantine ip) = (tier = ISOLATE \<and> dotted source \<and> ip = source)"
| "proper tier source (IsolateNode n) = (tier = ISOLATE \<and> \<not> dotted source \<and> n = ''local'')"
| "proper tier source (QuarantineProcess p) = (tier = BLOCK \<and> \<not> dotted source \<and> parseInt source = Some p)"
| "proper tier source (CalculateProcessHash p) = (tier = BLOCK \<and> \<not> dotted source \<and> parseInt source = Some p)"
| "proper tier source (BroadcastThreatHash h) = (tier = BLOCK \<and> \<not> dotted source \<and> h \<noteq> [])"
| "proper tier source (KillLater p) = (tier = BLOCK \<and> \<not> dotted source \<and> parseInt source = Some p)"
| "proper tier source (ShadowBanIp ip) = (tier = SHADOW \<and> dotted source \<and> ip = source)"
| "proper tier source (SyscallAllowlist p) = (tier = SHADOW \<and> \<not> dotted source \<and> parseInt source = Some p)"
| "proper tier source (StartCapture f e) = (tier = WATCH \<and> dotted source \<and> e = ''host '' @ source)"
| "proper tier source (CaptureForensics p) = (tier = WATCH \<and> \<not> dotted source \<and> parseInt source = Some p)"

lemma shareHash_calls: "\<exists>cs. shareHash ps pid tr = (Inr (), tr @ CalculateProcessHash pid # cs) \<and> length cs \<le> 1 \<and> (\<forall>c \<in> set cs. \<exists>h. c = BroadcastThreatHash h \<and> h \<noteq> [])"
  by (auto simp: shareHash_def saga_defs split: sum.split option.split)

lemma handleBlock_calls:
  assumes "handleBlock ps source tr = (r, tr')"
  shows "\<exists>cs. tr' = tr @ cs \<and> list_all (proper BLOCK source) cs \<and>
    (\<forall>p. KillLater p \<in> set cs \<longrightarrow> hd cs = QuarantineProcess p \<and> last cs = KillLater p \<and> CalculateProcessHash p \<in> set cs \<and> r = Inr (Inr ()))"
proof (cases "\<not> dotted source \<and> parseInt source \<noteq> None")
  case True
  then obtain p where p: "parseInt source = Some p" by auto
  obtain cs where cs: "shareHash ps p (tr @ [QuarantineProcess p]) = (Inr (), (tr @ [QuarantineProcess p]) @ CalculateProcessHash p # cs)"
    "\<forall>c \<in> set cs. \<exists>h. c = BroadcastThreatHash h \<and> h \<noteq> []"
    using shareHash_calls by blast
  then have "list_all (proper BLOCK source) cs" "KillLater q \<notin> set cs" for q using True by (auto simp: list_all_iff)
  then show ?thesis using assms True p cs(1) by (auto simp: handleBlock_def saga_defs split: sum.splits)
qed (use assms in \<open>auto simp: handleBlock_def saga_defs split: sum.splits if_splits option.splits\<close>)

lemma handleTier_calls:
  assumes "handleTier ps source tier tr = (r, tr')"
  shows "\<exists>cs. tr' = tr @ cs \<and> list_all (proper tier source) cs \<and>
    (\<forall>p. KillLater p \<in> set cs \<longrightarrow> hd cs = QuarantineProcess p \<and> last cs = KillLater p \<and> CalculateProcessHash p \<in> set cs \<and> r = Inr (Inr ()))"
proof (cases tier)
  case BLOCK
  then show ?thesis using handleBlock_calls assms by simp
next
  case ISOLATE
  then show ?thesis using assms by (auto simp: handleIsolation_def saga_defs split: sum.splits if_splits)
next
  case SHADOW
  then show ?thesis using assms by (auto simp: handleShadow_def saga_defs split: sum.splits if_splits option.splits)
next
  case WATCH
  then show ?thesis using assms by (auto simp: handleWatch_def saga_defs split: sum.splits if_splits option.splits)
qed (use assms in \<open>auto simp: handleLockdown_def saga_defs split: sum.splits\<close>)

lemma map_of_map_entry: "map_of (AList.map_entry k f m) k = map_option f (map_of m k)"
  by (induction m) auto

text \<open>
  C25: nothing happens without an audit record, and only what the tier stands for. The first call of a saga is its audit event; if that
  rejects, nothing follows and the instance stays pending. Otherwise every call is one the tier may make for this source; a process is killed
  only at the end of a successful saga, after it was quarantined and its hash asked for; and the recorded state is COMPLETED exactly when
  the result is a success, FAILED when it is an error.
\<close>

theorem saga_effects:
  assumes "saga_execute ps sagaId now source tier triggerType st = (out, st')"
  shows "\<exists>msg cs. portCalls st' = portCalls st @ LogEvent tier msg # cs \<and> list_all (proper tier source) cs \<and>
    (\<forall>p. KillLater p \<in> set cs \<longrightarrow> hd cs = QuarantineProcess p \<and> last cs = KillLater p \<and> CalculateProcessHash p \<in> set cs \<and> out = Inr (Inr ())) \<and>
    (\<forall>e. out = Inl e \<longrightarrow> cs = []) \<and>
    map_option sg_state (map_of (activeSagas st') sagaId) =
      Some (case out of Inl _ \<Rightarrow> PENDING | Inr (Inl _) \<Rightarrow> FAILED | Inr (Inr _) \<Rightarrow> COMPLETED)"
proof -
  let ?c = "LogEvent tier (''Saga ['' @ take 8 sagaId @ ''] Remediation Tier ['' @ tierName tier @ ''] engaged for '' @ source @ ''. Reason: '' @ triggerType)"
  show ?thesis
  proof (cases "answer ps (portCalls st) ?c")
    case (Inl e)
    then show ?thesis using assms by (auto simp: saga_execute_def call_def Let_def)
  next
    case (Inr r)
    obtain res tr where h: "handleTier ps source tier (portCalls st @ [?c]) = (res, tr)" by (cases "handleTier ps source tier (portCalls st @ [?c])")
    obtain cs where cs: "tr = (portCalls st @ [?c]) @ cs" "list_all (proper tier source) cs"
        "\<forall>p. KillLater p \<in> set cs \<longrightarrow> hd cs = QuarantineProcess p \<and> last cs = KillLater p \<and> CalculateProcessHash p \<in> set cs \<and> res = Inr (Inr ())"
      using handleTier_calls [OF h] by blast
    have "portCalls st' = portCalls st @ ?c # cs \<and> out = Inr (case res of Inl e \<Rightarrow> Inl e | Inr x \<Rightarrow> x) \<and>
        map_option sg_state (map_of (activeSagas st') sagaId) = Some (case res of Inr (Inr _) \<Rightarrow> COMPLETED | _ \<Rightarrow> FAILED)"
      using assms Inr h cs(1) by (auto simp: saga_execute_def call_def Let_def setState_def map_of_map_entry split: sum.splits)
    then show ?thesis using cs(2,3) by (intro exI) (auto split: sum.split)
  qed
qed

section \<open>Sources that are neither addresses with a dot nor process ids\<close>

lemma digitIn_digit: "d < 10 \<Longrightarrow> digitIn 10 (char_of (48 + d)) = Some d"
  by (simp add: digitIn_def Let_def of_char_of)

lemma decimal_char_digits: "list_all (\<lambda>c. \<exists>d < 10. c = char_of (48 + d :: nat)) (nat_decimal n)"
proof (induction n rule: nat_decimal.induct)
  case (1 n)
  have "\<exists>d < 10. char_of (48 + n mod 10) = (char_of (48 + d :: nat) :: char)" by (rule exI [of _ "n mod 10"]) simp
  then show ?case using 1 by (subst nat_decimal.simps) auto
qed

lemma nat_decimal_value: "foldl (\<lambda>m d. m * 10 + d) 0 (map (\<lambda>c. the (digitIn 10 c)) (nat_decimal n)) = n"
proof (induction n rule: nat_decimal.induct)
  case (1 n)
  then show ?case by (subst nat_decimal.simps) (simp add: digitIn_digit)
qed

lemma nat_decimal_Cons: "\<exists>d cs. nat_decimal n = char_of (48 + d :: nat) # cs \<and> d < 10"
proof -
  have "nat_decimal n \<noteq> []" by (subst nat_decimal.simps) simp
  then show ?thesis using decimal_char_digits [of n] by (cases "nat_decimal n") auto
qed

lemma digit_cases: "d < 10 \<Longrightarrow> char_of (48 + d :: nat) \<in> set ''0123456789''"
proof -
  have "\<forall>d \<in> {0..<10}. char_of (48 + d :: nat) \<in> set ''0123456789''" by code_simp
  then show "d < 10 \<Longrightarrow> ?thesis" by auto
qed

lemma trimStart_digit: assumes "c \<in> set ''0123456789''" shows "trimStart (c # s) = c # s"
proof -
  have "\<forall>w \<in> set WHITE_SPACE. hd w \<notin> set ''0123456789''" by code_simp
  then have "\<not> (w \<noteq> [] \<and> starts_with (c # s) w)" if "w \<in> set WHITE_SPACE" for w
    using that assms by (cases w) auto
  then have "find (\<lambda>w. w \<noteq> [] \<and> starts_with (c # s) w) WHITE_SPACE = None" by (auto simp: find_None_iff)
  then show ?thesis by (subst trimStart.simps) simp
qed

text \<open>\<open>parseInt\<close> of a text that begins with a decimal number followed by a colon.\<close>

lemma parseInt_colon: "parseInt (nat_decimal n @ CHR '':'' # rest) = Some (int n)"
proof -
  obtain d :: nat and cs where d: "nat_decimal n = char_of (48 + d) # cs" "d < 10" using nat_decimal_Cons by blast
  let ?s = "nat_decimal n @ CHR '':'' # rest"
  have c: "char_of (48 + d) \<in> set ''0123456789''" using digit_cases [OF d(2)] .
  have t: "trimStart ?s = ?s" using trimStart_digit [OF c] by (simp add: d(1))
  have all: "\<forall>c \<in> set ''0123456789''. digitIn 10 c \<noteq> None \<and> c \<noteq> CHR ''x'' \<and> c \<noteq> CHR ''X'' \<and> c \<noteq> CHR ''-'' \<and> c \<noteq> CHR ''+''" by code_simp
  have digit: "digitIn 10 c \<noteq> None \<and> c \<noteq> CHR ''x'' \<and> c \<noteq> CHR ''X''" if m: "c \<in> set (nat_decimal n)" for c
  proof -
    obtain e :: nat where "e < 10" "c = char_of (48 + e)" using decimal_char_digits [of n] m unfolding list_all_iff by blast
    then have "c \<in> set ''0123456789''" by (simp only: digit_cases)
    with all show ?thesis by blast
  qed
  have "hd (cs @ CHR '':'' # rest) \<noteq> CHR ''x'' \<and> hd (cs @ CHR '':'' # rest) \<noteq> CHR ''X''" using digit by (cases cs) (simp_all add: d(1))
  moreover have "hd (cs @ CHR '':'' # rest) = y" if y: "starts_with ?s [CHR ''0'', y]" for y
  proof -
    obtain z where "?s = [CHR ''0'', y] @ z" using y by (rule prefixE)
    then have "tl ?s = y # z" by (simp only: append_Cons append_Nil list.sel)
    then show ?thesis by (simp only: d(1) append_Cons list.sel)
  qed
  ultimately have x: "\<not> starts_with ?s ''0x''" "\<not> starts_with ?s ''0X''" by blast+
  have colon: "digitIn 10 (CHR '':'') = None" by code_simp
  have tw: "takeWhile (\<lambda>c. digitIn 10 c \<noteq> None) ?s = nat_decimal n"
    using digit takeWhile_append2 [of "nat_decimal n" "\<lambda>c. digitIn 10 c \<noteq> None" "CHR '':'' # rest"] colon by simp
  have "char_of (48 + d) \<noteq> CHR ''-''" "char_of (48 + d) \<noteq> CHR ''+''" using all c by blast+
  then have sign: "(case ?s of c # u \<Rightarrow> if c = CHR ''-'' \<or> c = CHR ''+'' then u else ?s | [] \<Rightarrow> []) = ?s"
    "(case ?s of [] \<Rightarrow> False | c # u \<Rightarrow> c = CHR ''-'') = False"
    by (simp_all only: d(1) append_Cons list.case if_False disj_not1 simp_thms)
  have ne: "map (\<lambda>c. the (digitIn 10 c)) (nat_decimal n) \<noteq> []" by (simp add: d(1))
  show ?thesis unfolding parseInt_def Let_def t sign
    by (simp only: x if_False simp_thms prod.case tw nat_decimal_value ne)
qed

text \<open>
  C38: an IPv6 source kills a process. The text of an IPv6 address has no dot, so it is not recognised as an address; if its first group
  is written in decimal digits, blocking it quarantines and kills the process with that number, whichever process that is, and
  the address is not blocked.
\<close>

theorem ipv6_block_kills:
  assumes "source = nat_decimal n @ CHR '':'' # rest" and "CHR ''.'' \<notin> set source" and "\<forall>tr c. \<exists>r. answer ps tr c = Inr r"
    and "saga_execute ps sagaId now source BLOCK triggerType st = (out, st')"
  shows "out = Inr (Inr ()) \<and> KillLater (int n) \<in> set (portCalls st') \<and> QuarantineProcess (int n) \<in> set (portCalls st') \<and>
    count_list (portCalls st') (BlockIp source) = count_list (portCalls st) (BlockIp source)"
proof -
  let ?c = "LogEvent BLOCK (''Saga ['' @ take 8 sagaId @ ''] Remediation Tier ['' @ tierName BLOCK @ ''] engaged for '' @ source @ ''. Reason: '' @ triggerType)"
  have nd: "\<not> dotted source" using assms(2) set_mono_sublist by (fastforce simp: dotted_def)
  have p: "parseInt source = Some (int n)" unfolding assms(1) by (rule parseInt_colon)
  have "\<exists>cs. handleBlock ps source tr = (Inr (Inr ()), tr @ QuarantineProcess (int n) # cs @ [KillLater (int n)]) \<and> BlockIp source \<notin> set cs" for tr
  proof -
    obtain r where r: "answer ps tr (QuarantineProcess (int n)) = Inr r" using assms(3) by blast
    obtain cs where "shareHash ps (int n) (tr @ [QuarantineProcess (int n)]) = (Inr (), (tr @ [QuarantineProcess (int n)]) @ CalculateProcessHash (int n) # cs)"
      "\<forall>c \<in> set cs. \<exists>h. c = BroadcastThreatHash h \<and> h \<noteq> []" using shareHash_calls by blast
    then show ?thesis using nd p r by (intro exI [of _ "CalculateProcessHash (int n) # cs"]) (auto simp: handleBlock_def saga_defs)
  qed
  then obtain cs where cs: "handleBlock ps source (portCalls st @ [?c]) = (Inr (Inr ()), (portCalls st @ [?c]) @ QuarantineProcess (int n) # cs @ [KillLater (int n)])"
    "BlockIp source \<notin> set cs" by blast
  obtain r where "answer ps (portCalls st) ?c = Inr r" using assms(3) by blast
  then have "out = Inr (Inr ())" "portCalls st' = (portCalls st @ [?c]) @ QuarantineProcess (int n) # cs @ [KillLater (int n)]"
    using assms(4) cs(1) by (auto simp: saga_execute_def call_def Let_def setState_def)
  moreover have "count_list cs (BlockIp source) = 0" using cs(2) by (simp add: count_list_0_iff)
  ultimately show ?thesis by simp
qed

definition workingPorts :: ports where
  "workingPorts = \<lparr>answer = (\<lambda>_ _. Inr \<lparr>re_success = True, re_stderr = [], re_hash = Some ''ab''\<rparr>), hasQuarantine = True\<rparr>"

definition noSagas :: sagas where
  "noSagas = \<lparr>activeSagas = [], portCalls = []\<rparr>"

theorem saga_effects_witness:
  "\<exists>msg cs. portCalls (snd (saga_execute workingPorts ''id'' ''t'' ''10.0.0.9'' BLOCK ''SCAN'' noSagas)) = LogEvent BLOCK msg # cs \<and>
     list_all (proper BLOCK ''10.0.0.9'') cs"
  using saga_effects [of workingPorts "''id''" "''t''" "''10.0.0.9''" BLOCK "''SCAN''" noSagas] by (auto simp: noSagas_def) (metis prod.collapse)

theorem ipv6_block_kills_witness:
  "KillLater 2001 \<in> set (portCalls (snd (saga_execute workingPorts ''id'' ''t'' ''2001:db8::1'' BLOCK ''SCAN'' noSagas)))"
proof -
  have "''2001:db8::1'' = nat_decimal 2001 @ CHR '':'' # ''db8::1''" by code_simp
  from ipv6_block_kills [OF this, of workingPorts "''id''" "''t''" "''SCAN''" noSagas] show ?thesis
    by (cases "saga_execute workingPorts ''id'' ''t'' ''2001:db8::1'' BLOCK ''SCAN'' noSagas") (simp add: workingPorts_def)
qed

end
