(* ===== verification/Event_Bus.thy ===== *)
theory Event_Bus
  imports Prelude
begin

text \<open>
  The event bus, domain/analysis/events.ts. Handlers and middleware are identified by numbers. A published event runs through the
  chain of middleware: each activation is a frame that may call \<open>next\<close> any number of times, return, throw or exceed its five seconds, also
  after other events have been published and the lists have changed, so these are steps on the bus. Dispatching
  runs every handler of the moment once; what a handler does is a step of its own. \<open>validateEvent\<close> and the random
  identifiers are parameters.
\<close>

section \<open>Events\<close>

text \<open>The data of an event; an object is the list of its properties.\<close>

datatype edata = Undefined | Flag bool | Text string | Obj "(string \<times> edata) list" | OtherValue

fun truthy :: "edata \<Rightarrow> bool" where
  "truthy Undefined = False"
| "truthy (Flag b) = b"
| "truthy (Text s) = (s \<noteq> [])"
| "truthy (Obj _) = True"
| "truthy OtherValue = True"

definition property :: "string \<Rightarrow> edata \<Rightarrow> edata" where
  "property k d = (case d of Obj ps \<Rightarrow> (case map_of ps k of None \<Rightarrow> Undefined | Some v \<Rightarrow> v) | _ \<Rightarrow> Undefined)"

record bus_event =
  ev_type :: string
  ev_message :: string
  ev_timestamp :: string
  ev_data :: edata
  ev_correlationId :: edata
  ev_fromAudit :: edata

datatype severity = INFO | WARNING | ERROR

definition mapTypeToSeverity :: "string \<Rightarrow> severity" where
  "mapTypeToSeverity t =
    (if t = ''EMERGENCY'' then ERROR
     else if t \<in> {''CRITICAL'', ''EBPF_CRITICAL''} then ERROR
     else if t \<in> {''BLOCK'', ''THREAT''} then WARNING
     else if t \<in> {''WARN'', ''DRIFT_PORT'', ''DRIFT_PROCESS'', ''EBPF_STRAY_SHELL''} then WARNING
     else INFO)"

definition isNoise :: "string \<Rightarrow> bool" where
  "isNoise t = (t = ''DEBUG'' \<or> t = ''METRIC_UPDATE'' \<or> t = ''INFO'')"

definition isHighPriority :: "string \<Rightarrow> bool" where
  "isHighPriority t = (t = ''CRITICAL'' \<or> t = ''EMERGENCY'' \<or> t = ''EXFIL_ALERT'' \<or> t = ''THREAT'')"

section \<open>The bus\<close>

text \<open>A delivery: the handler, the event object and, for a keyed listener, the data argument.\<close>

record delivery =
  dl_handler :: nat
  dl_event :: nat
  dl_data :: "edata option"
  dl_timeout :: nat

record log_line =
  lg_severity :: severity
  lg_audit :: bool
  lg_event :: nat
  lg_payload :: "edata option"

text \<open>An activation of the middleware with index \<open>fr_index\<close> for an event: whether it has called \<open>next\<close>, and whether it has failed.\<close>

record frame =
  fr_event :: nat
  fr_index :: nat
  fr_next :: bool
  fr_failed :: bool

record bus =
  handlers :: "nat list"
  keyedListeners :: "(string \<times> nat list) list"
  middleware :: "nat list"
  finalized :: "nat set"
  pendingHandlers :: "(nat \<times> nat) list"
  events :: "bus_event list"
  frames :: "frame list"
  deliveries :: "delivery list"
  logLines :: "log_line list"

definition newBus :: bus where
  "newBus = \<lparr>handlers = [], keyedListeners = [], middleware = [], finalized = {}, pendingHandlers = [], events = [], frames = [], deliveries = [], logLines = []\<rparr>"

definition use :: "nat \<Rightarrow> bus \<Rightarrow> bus" where
  "use mw b = b\<lparr>middleware := middleware b @ [mw]\<rparr>"

definition subscribe :: "nat \<Rightarrow> bus \<Rightarrow> bus" where
  "subscribe h b = b\<lparr>handlers := handlers b @ [h]\<rparr>"

definition listenersOf :: "string \<Rightarrow> bus \<Rightarrow> nat list" where
  "listenersOf t b = (case map_of (keyedListeners b) t of None \<Rightarrow> [] | Some ls \<Rightarrow> ls)"

definition on :: "string \<Rightarrow> nat \<Rightarrow> bus \<Rightarrow> bus" where
  "on t h b = b\<lparr>keyedListeners := AList.update t (listenersOf t b @ [h]) (keyedListeners b)\<rparr>"

definition dropListener :: "nat \<Rightarrow> (string \<times> nat list) list \<Rightarrow> string \<times> nat list \<Rightarrow> (string \<times> nat list) list" where
  "dropListener h m = (\<lambda>(t, ls). let filtered = filter (\<lambda>x. x \<noteq> h) ls
     in if length filtered \<noteq> length ls then (if filtered = [] then AList.delete t m else AList.update t filtered m) else m)"

definition unsubscribe :: "nat \<Rightarrow> bus \<Rightarrow> bus" where
  "unsubscribe h b = b\<lparr>handlers := filter (\<lambda>x. x \<noteq> h) (handlers b),
     keyedListeners := foldl (dropListener h) (keyedListeners b) (keyedListeners b)\<rparr>"

text \<open>The marks put on the data of an event that is dispatched.\<close>

definition enrich :: "edata \<Rightarrow> edata \<Rightarrow> edata" where
  "enrich cid d = (case d of
     Obj ps \<Rightarrow> (let ps1 = AList.update ''fromEventBus'' (Flag True) ps
       in if truthy (property ''correlationId'' (Obj ps1)) then Obj ps1 else Obj (AList.update ''correlationId'' cid ps1))
   | _ \<Rightarrow> d)"

text \<open>\<open>finalizePublish(event, validatedData)\<close>; the data object is the one of the event unless that is falsy.\<close>

definition finalizePublish :: "nat \<Rightarrow> edata \<Rightarrow> bus \<Rightarrow> bus" where
  "finalizePublish e d b =
    (if e \<in> finalized b then b
     else
       (let ev = events b ! e; t = ev_type ev; d' = enrich (ev_correlationId ev) d;
            hs = handlers b; ls = listenersOf t b;
            timeoutMs = (if isHighPriority t then 1000 else 2000)
        in b\<lparr>finalized := insert e (finalized b),
             events := (if truthy (ev_data ev) then (events b)[e := ev\<lparr>ev_data := d'\<rparr>] else events b),
             logLines := logLines b @ [\<lparr>lg_severity = mapTypeToSeverity t, lg_audit = (\<not> isNoise t), lg_event = e,
               lg_payload = (if isNoise t then None else Some d')\<rparr>],
             deliveries := deliveries b @ map (\<lambda>h. \<lparr>dl_handler = h, dl_event = e, dl_data = None, dl_timeout = timeoutMs\<rparr>) hs
               @ map (\<lambda>h. \<lparr>dl_handler = h, dl_event = e, dl_data = Some d', dl_timeout = timeoutMs\<rparr>) ls,
             pendingHandlers := pendingHandlers b @ map (\<lambda>h. (h, e)) (hs @ ls)\<rparr>))"

definition orEmpty :: "edata \<Rightarrow> edata" where
  "orEmpty d = (if truthy d then d else Obj [])"

definition runMiddleware :: "nat \<Rightarrow> nat \<Rightarrow> bus \<Rightarrow> bus" where
  "runMiddleware i e b =
    (if i \<ge> length (middleware b) then finalizePublish e (ev_data (events b ! e)) b
     else b\<lparr>frames := frames b @ [\<lparr>fr_event = e, fr_index = i, fr_next = False, fr_failed = False\<rparr>]\<rparr>)"

text \<open>A middleware calls its \<open>next\<close>; it throws or runs out of time; the chain itself throws.\<close>

definition callNext :: "nat \<Rightarrow> bus \<Rightarrow> bus" where
  "callNext k b = (if k < length (frames b)
     then runMiddleware (Suc (fr_index (frames b ! k))) (fr_event (frames b ! k)) (b\<lparr>frames := (frames b)[k := (frames b ! k)\<lparr>fr_next := True\<rparr>]\<rparr>)
     else b)"

definition failMiddleware :: "nat \<Rightarrow> bus \<Rightarrow> bus" where
  "failMiddleware k b = (if k < length (frames b)
     then (let e = fr_event (frames b ! k)
           in finalizePublish e (orEmpty (ev_data (events b ! e))) (b\<lparr>frames := (frames b)[k := (frames b ! k)\<lparr>fr_failed := True\<rparr>]\<rparr>))
     else b)"

text \<open>\<open>validateEvent\<close> throws when the data do not conform to the schema of the type.\<close>

definition publish :: "(string \<Rightarrow> edata \<Rightarrow> edata option) \<Rightarrow> string \<Rightarrow> string \<Rightarrow> string \<Rightarrow> string \<Rightarrow> edata \<Rightarrow> bus \<Rightarrow> bus" where
  "publish validateEvent uuid now t msg d b = (case validateEvent t d of None \<Rightarrow> b
   | Some validatedData \<Rightarrow>
    (let cid = (if truthy (property ''correlationId'' d) then property ''correlationId'' d else Text uuid);
         ev = \<lparr>ev_type = t, ev_message = msg, ev_timestamp = now, ev_data = validatedData, ev_correlationId = cid, ev_fromAudit = property ''fromAudit'' d\<rparr>;
         e = length (events b); b1 = b\<lparr>events := events b @ [ev]\<rparr>
     in if middleware b1 \<noteq> [] then runMiddleware 0 e b1 else finalizePublish e (orEmpty validatedData) b1))"

definition emit :: "(string \<Rightarrow> edata \<Rightarrow> edata option) \<Rightarrow> string \<Rightarrow> string \<Rightarrow> string \<Rightarrow> edata \<Rightarrow> bus \<Rightarrow> bus" where
  "emit validateEvent uuid now t d b = publish validateEvent uuid now t (''Emitted event: '' @ t) d b"

text \<open>An execution ends, by itself or by its timeout.\<close>

definition settle :: "nat \<Rightarrow> nat \<Rightarrow> bus \<Rightarrow> bus" where
  "settle h e b = b\<lparr>pendingHandlers := remove1 (h, e) (pendingHandlers b)\<rparr>"

definition shutdown :: "bus \<Rightarrow> bus" where
  "shutdown b = b\<lparr>handlers := [], keyedListeners := [], middleware := [], pendingHandlers := []\<rparr>"

text \<open>\<open>WriteData\<close>: a middleware or handler changes the data of the event it was given.\<close>

datatype bus_op =
    Use nat | Subscribe nat | On string nat | Unsubscribe nat
  | Publish string string string string edata
  | CallNext nat | FailMiddleware nat | WriteData nat edata
  | Settle nat nat | Shutdown

fun bus_step :: "(string \<Rightarrow> edata \<Rightarrow> edata option) \<Rightarrow> bus \<Rightarrow> bus_op \<Rightarrow> bus" where
  "bus_step v b (Use m) = use m b"
| "bus_step v b (Subscribe h) = subscribe h b"
| "bus_step v b (On t h) = on t h b"
| "bus_step v b (Unsubscribe h) = unsubscribe h b"
| "bus_step v b (Publish uuid now t msg d) = publish v uuid now t msg d b"
| "bus_step v b (CallNext k) = callNext k b"
| "bus_step v b (FailMiddleware k) = failMiddleware k b"
| "bus_step v b (WriteData e d) = (if e < length (events b) then b\<lparr>events := (events b)[e := (events b ! e)\<lparr>ev_data := d\<rparr>]\<rparr> else b)"
| "bus_step v b (Settle h e) = settle h e b"
| "bus_step v b Shutdown = shutdown b"

section \<open>At most once, and not lost\<close>

definition delivered :: "nat \<Rightarrow> bus \<Rightarrow> nat list" where
  "delivered e b = map dl_handler (filter (\<lambda>d. dl_event d = e) (deliveries b))"

text \<open>A frame that has neither failed nor called \<open>next\<close>: it is running, or its middleware has swallowed the event.\<close>

definition holds :: "nat \<Rightarrow> bus \<Rightarrow> bool" where
  "holds e b \<longleftrightarrow> (\<exists>f \<in> set (frames b). fr_event f = e \<and> \<not> fr_next f \<and> \<not> fr_failed f)"

definition bus_ok :: "bus \<Rightarrow> bool" where
  "bus_ok b \<longleftrightarrow> finalized b \<subseteq> {..<length (events b)} \<and> (\<forall>f \<in> set (frames b). fr_event f < length (events b)) \<and>
     (\<forall>e < length (events b). e \<in> finalized b \<or> holds e b)"

text \<open>What one step does to dispatching: nothing, or it dispatches one event that was not dispatched before, to all handlers of the moment.\<close>

definition dispatches :: "nat \<Rightarrow> bus \<Rightarrow> bus \<Rightarrow> bool" where
  "dispatches e b b' \<longleftrightarrow> e \<notin> finalized b \<and> finalized b' = insert e (finalized b) \<and> map lg_event (logLines b') = map lg_event (logLines b) @ [e] \<and>
     (\<exists>ds. deliveries b' = deliveries b @ ds \<and> (\<forall>d \<in> set ds. dl_event d = e) \<and> map dl_handler ds = handlers b @ listenersOf (ev_type (events b' ! e)) b)"

definition silent :: "bus \<Rightarrow> bus \<Rightarrow> bool" where
  "silent b b' \<longleftrightarrow> finalized b' = finalized b \<and> logLines b' = logLines b \<and> deliveries b' = deliveries b"

definition extends :: "bus \<Rightarrow> bus \<Rightarrow> bool" where
  "extends b b' \<longleftrightarrow> length (events b) \<le> length (events b') \<and> (\<forall>e < length (events b). ev_type (events b' ! e) = ev_type (events b ! e))"

lemma listenersOf_cong [simp]: "listenersOf t (b\<lparr>frames := fs\<rparr>) = listenersOf t b" "listenersOf t (b\<lparr>events := es\<rparr>) = listenersOf t b"
  by (simp_all add: listenersOf_def)

lemma finalize_effect:
  assumes "e < length (events b)"
  shows "silent b (finalizePublish e d b) \<and> e \<in> finalized b \<or> dispatches e b (finalizePublish e d b)"
  using assms by (auto simp: silent_def dispatches_def finalizePublish_def Let_def comp_def)

lemma write_type: "i < length es \<Longrightarrow> ev_type ((es[e := (es ! e)\<lparr>ev_data := d\<rparr>]) ! i) = ev_type (es ! i)"
  by (cases "e = i") auto

lemma finalize_facts:
  "frames (finalizePublish e d b) = frames b" "length (events (finalizePublish e d b)) = length (events b)"
  "extends b (finalizePublish e d b)" "finalized (finalizePublish e d b) = insert e (finalized b)"
  by (auto simp: finalizePublish_def Let_def extends_def write_type)

lemma runMiddleware_effect:
  assumes "e < length (events b)" and "b' = runMiddleware i e b"
  shows "extends b b' \<and> length (events b') = length (events b) \<and> (silent b b' \<or> dispatches e b b') \<and> (e \<in> finalized b' \<or> holds e b') \<and>
    set (frames b) \<subseteq> set (frames b') \<and> (\<forall>f \<in> set (frames b'). f \<in> set (frames b) \<or> fr_event f = e) \<and>
    finalized b \<subseteq> finalized b' \<and> finalized b' \<subseteq> insert e (finalized b)"
proof (cases "i \<ge> length (middleware b)")
  case True
  then have "b' = finalizePublish e (ev_data (events b ! e)) b" using assms(2) by (simp add: runMiddleware_def)
  then show ?thesis using finalize_effect [OF assms(1), of "ev_data (events b ! e)"] finalize_facts [where e = e and d = "ev_data (events b ! e)" and b = b] by auto
next
  case False
  then show ?thesis using assms(2) by (auto simp: runMiddleware_def silent_def extends_def holds_def)
qed

lemma kept_update: "x \<in> set xs \<Longrightarrow> x \<noteq> xs ! k \<Longrightarrow> x \<in> set (xs[k := y])"
  by (metis in_set_conv_nth length_list_update nth_list_update_neq)

lemma relative_to [simp]:
  "silent (b\<lparr>frames := fs\<rparr>) b' = silent b b'" "silent (b\<lparr>events := es\<rparr>) b' = silent b b'"
  "dispatches e (b\<lparr>frames := fs\<rparr>) b' = dispatches e b b'" "dispatches e (b\<lparr>events := es\<rparr>) b' = dispatches e b b'"
  "extends (b\<lparr>frames := fs\<rparr>) b' = extends b b'"
  by (simp_all add: silent_def dispatches_def extends_def)

definition good_step :: "bus \<Rightarrow> bus \<Rightarrow> bool" where
  "good_step b b' \<longleftrightarrow> bus_ok b' \<and> extends b b' \<and> (silent b b' \<or> (\<exists>e < length (events b'). dispatches e b b'))"

lemma good_stepI:
  assumes "finalized b' \<subseteq> {..<length (events b')}" and "\<And>x. x \<in> set (frames b') \<Longrightarrow> fr_event x < length (events b')"
    and "\<And>i. i < length (events b') \<Longrightarrow> i \<in> finalized b' \<or> holds i b'" and "extends b b'" and "silent b b' \<or> dispatches e b b'" and "e < length (events b')"
  shows "good_step b b'"
  using assms by (auto simp: good_step_def bus_ok_def)

lemma keeps_holding:
  assumes "bus_ok b" and "i < length (events b)" and "finalized b \<subseteq> finalized b'" and "\<And>x. x \<in> set (frames b) \<Longrightarrow> fr_event x = i \<Longrightarrow> x \<in> set (frames b')"
  shows "i \<in> finalized b' \<or> holds i b'"
proof -
  have "i \<in> finalized b \<or> holds i b" using assms(1,2) by (simp add: bus_ok_def)
  then show ?thesis using assms(3,4) unfolding holds_def by blast
qed

lemma callNext_good: assumes "bus_ok b" shows "good_step b (callNext k b)"
proof (cases "k < length (frames b)")
  case True
  let ?f = "frames b ! k" and ?b = "b\<lparr>frames := (frames b)[k := (frames b ! k)\<lparr>fr_next := True\<rparr>]\<rparr>"
  have f: "?f \<in> set (frames b)" using True by simp
  then have e: "fr_event ?f < length (events ?b)" using assms by (simp add: bus_ok_def)
  have b': "callNext k b = runMiddleware (Suc (fr_index ?f)) (fr_event ?f) ?b" using True by (simp add: callNext_def)
  note r = runMiddleware_effect [OF e b']
  have kept: "x \<in> set (frames (callNext k b))" if "x \<in> set (frames b)" "x \<noteq> ?f" for x using r kept_update [OF that] by auto
  have "fr_event x < length (events b)" if "x \<in> set (frames ?b)" for x
    using that assms f set_update_subset_insert [of "frames b" k "?f\<lparr>fr_next := True\<rparr>"] by (auto simp: bus_ok_def)
  moreover have "i \<in> finalized (callNext k b) \<or> holds i (callNext k b)" if "i < length (events b)" for i
  proof (cases "i = fr_event ?f")
    case False
    show ?thesis by (rule keeps_holding [OF assms that]) (use r kept False in auto)
  qed (use r in auto)
  moreover have "finalized b \<subseteq> {..<length (events b)}" "length (events (callNext k b)) = length (events b)" using assms r by (auto simp: bus_ok_def)
  ultimately show ?thesis using r e by (intro good_stepI [where e = "fr_event ?f"]) auto
qed (use assms in \<open>simp add: callNext_def good_step_def silent_def extends_def\<close>)

lemma failMiddleware_good: assumes "bus_ok b" shows "good_step b (failMiddleware k b)"
proof (cases "k < length (frames b)")
  case True
  let ?f = "frames b ! k" and ?b = "b\<lparr>frames := (frames b)[k := (frames b ! k)\<lparr>fr_failed := True\<rparr>]\<rparr>"
  let ?d = "orEmpty (ev_data (events b ! fr_event ?f))"
  have f: "?f \<in> set (frames b)" using True by simp
  then have e: "fr_event ?f < length (events ?b)" using assms by (simp add: bus_ok_def)
  have b': "failMiddleware k b = finalizePublish (fr_event ?f) ?d ?b" using True by (simp add: failMiddleware_def Let_def)
  note r = finalize_effect [OF e, of ?d] finalize_facts [where e = "fr_event ?f" and d = ?d and b = ?b]
  have kept: "x \<in> set (frames (failMiddleware k b))" if "x \<in> set (frames b)" "x \<noteq> ?f" for x using r(2) kept_update [OF that] by (simp add: b')
  have "fr_event x < length (events b)" if "x \<in> set (frames ?b)" for x
    using that assms f set_update_subset_insert [of "frames b" k "?f\<lparr>fr_failed := True\<rparr>"] by (auto simp: bus_ok_def)
  moreover have "i \<in> finalized (failMiddleware k b) \<or> holds i (failMiddleware k b)" if "i < length (events b)" for i
  proof (cases "i = fr_event ?f")
    case False
    show ?thesis by (rule keeps_holding [OF assms that]) (use r(5) kept False in \<open>auto simp: b'\<close>)
  qed (use r(5) in \<open>simp add: b'\<close>)
  moreover have "finalized b \<subseteq> {..<length (events b)}" "length (events (failMiddleware k b)) = length (events b)" using assms r(3) by (auto simp: bus_ok_def b')
  ultimately show ?thesis using r e by (intro good_stepI [where e = "fr_event ?f"]) (auto simp: b')
qed (use assms in \<open>simp add: failMiddleware_def good_step_def silent_def extends_def\<close>)

lemma publish_good: assumes "bus_ok b" shows "good_step b (publish v uuid now t msg d b)"
proof (cases "v t d")
  case (Some vd)
  let ?cid = "if truthy (property ''correlationId'' d) then property ''correlationId'' d else Text uuid"
  let ?ev = "\<lparr>ev_type = t, ev_message = msg, ev_timestamp = now, ev_data = vd, ev_correlationId = ?cid, ev_fromAudit = property ''fromAudit'' d\<rparr>"
  let ?e = "length (events b)" and ?b = "b\<lparr>events := events b @ [?ev]\<rparr>" and ?b' = "publish v uuid now t msg d b"
  have e: "?e < length (events ?b)" by simp
  have "?b' = runMiddleware 0 ?e ?b \<or> ?b' = finalizePublish ?e (orEmpty vd) ?b" using Some by (simp add: publish_def Let_def)
  then have r: "extends ?b ?b' \<and> length (events ?b') = Suc ?e \<and> (silent ?b ?b' \<or> dispatches ?e ?b ?b') \<and> (?e \<in> finalized ?b' \<or> holds ?e ?b') \<and>
      set (frames b) \<subseteq> set (frames ?b') \<and> (\<forall>f \<in> set (frames ?b'). f \<in> set (frames b) \<or> fr_event f = ?e) \<and>
      finalized b \<subseteq> finalized ?b' \<and> finalized ?b' \<subseteq> insert ?e (finalized b)"
  proof
    assume "?b' = runMiddleware 0 ?e ?b"
    from runMiddleware_effect [OF e this] show ?thesis by simp
  next
    assume f: "?b' = finalizePublish ?e (orEmpty vd) ?b"
    show ?thesis using finalize_effect [OF e, of "orEmpty vd"] finalize_facts [where e = ?e and d = "orEmpty vd" and b = ?b] unfolding f by auto
  qed
  have x: "extends b ?b'" using r by (auto simp: extends_def nth_append)
  have "i \<in> finalized ?b' \<or> holds i ?b'" if "i < Suc ?e" for i
  proof (cases "i = ?e")
    case False
    then show ?thesis using that by (intro keeps_holding [OF assms]) (use r in auto)
  qed (use r in simp)
  moreover have "finalized b \<subseteq> {..<?e}" "\<And>x. x \<in> set (frames b) \<Longrightarrow> fr_event x < ?e" using assms by (auto simp: bus_ok_def)
  ultimately show ?thesis using r x by (intro good_stepI [where e = ?e]) (auto simp: less_Suc_eq)
qed (use assms in \<open>simp add: publish_def good_step_def silent_def extends_def\<close>)

lemma quiet_good:
  assumes "bus_ok b" and "finalized b' = finalized b" "frames b' = frames b" "logLines b' = logLines b" "deliveries b' = deliveries b" "extends b b'" "length (events b') = length (events b)"
  shows "good_step b b'"
  using assms by (auto simp: good_step_def bus_ok_def silent_def holds_def)

lemma bus_step_good: assumes "bus_ok b" shows "good_step b (bus_step v b op)"
proof (cases op)
  case (Publish uuid now t msg d)
  then show ?thesis using publish_good [OF assms] by simp
next
  case (CallNext k)
  then show ?thesis using callNext_good [OF assms] by simp
next
  case (FailMiddleware k)
  then show ?thesis using failMiddleware_good [OF assms] by simp
next
  case (WriteData e d)
  then show ?thesis using assms by (intro quiet_good) (auto simp: extends_def write_type)
qed (use assms in \<open>auto intro!: quiet_good simp: use_def subscribe_def on_def unsubscribe_def settle_def shutdown_def extends_def\<close>)

lemma run_ok: "bus_ok (foldl (bus_step v) newBus ops)"
proof (induction ops rule: rev_induct)
  case (snoc op ops)
  then show ?case using bus_step_good by (simp add: good_step_def)
qed (simp add: bus_ok_def newBus_def)

lemma delivered_append: "deliveries b' = deliveries b @ ds \<Longrightarrow> delivered e b' = delivered e b @ map dl_handler (filter (\<lambda>d. dl_event d = e) ds)"
  by (simp add: delivered_def)

definition dispatched :: "(string \<Rightarrow> edata \<Rightarrow> edata option) \<Rightarrow> bus_op list \<Rightarrow> nat \<Rightarrow> bool" where
  "dispatched v ops e \<longleftrightarrow> (let b = foldl (bus_step v) newBus ops in
     if e \<in> finalized b
     then count_list (map lg_event (logLines b)) e = 1 \<and>
       (\<exists>ops1 ops2. ops = ops1 @ ops2 \<and> ops2 \<noteq> [] \<and> (let b1 = foldl (bus_step v) newBus ops1 in
          e \<notin> finalized b1 \<and> delivered e b = handlers b1 @ listenersOf (ev_type (events b ! e)) b1))
     else count_list (map lg_event (logLines b)) e = 0 \<and> delivered e b = [])"

lemma filter_all: "(\<forall>x \<in> set xs. P x) \<Longrightarrow> filter P xs = xs" "(\<forall>x \<in> set xs. \<not> P x) \<Longrightarrow> filter P xs = []"
  by (induction xs) auto

lemma run_dispatched: "dispatched v ops e"
proof (induction ops rule: rev_induct)
  case Nil
  show ?case by (simp add: dispatched_def newBus_def delivered_def)
next
  case (snoc op ops)
  let ?b = "foldl (bus_step v) newBus ops" and ?b' = "foldl (bus_step v) newBus (ops @ [op])"
  have ok: "bus_ok ?b" "good_step ?b ?b'" using run_ok bus_step_good by auto
  have old: "\<exists>ops1 ops2. ops @ [op] = ops1 @ ops2 \<and> ops2 \<noteq> [] \<and> Q ops1" if "\<exists>ops1 ops2. ops = ops1 @ ops2 \<and> ops2 \<noteq> [] \<and> Q ops1" for Q
    using that by (metis append.assoc append_is_Nil_conv)
  have type: "ev_type (events ?b' ! e) = ev_type (events ?b ! e)" if "e \<in> finalized ?b"
    using that ok by (auto simp: good_step_def extends_def bus_ok_def)
  show ?case
  proof (cases "silent ?b ?b'")
    case True
    then have "delivered e ?b' = delivered e ?b" by (simp add: silent_def delivered_def)
    then show ?thesis using snoc.IH True type old [of "\<lambda>ops1. let b1 = foldl (bus_step v) newBus ops1 in
        e \<notin> finalized b1 \<and> delivered e ?b' = handlers b1 @ listenersOf (ev_type (events ?b' ! e)) b1"]
      unfolding dispatched_def Let_def silent_def by (metis (no_types, lifting))
  next
    case False
    then obtain i ds where i: "i \<notin> finalized ?b" "finalized ?b' = insert i (finalized ?b)" "map lg_event (logLines ?b') = map lg_event (logLines ?b) @ [i]"
        "deliveries ?b' = deliveries ?b @ ds" "\<forall>d \<in> set ds. dl_event d = i" "map dl_handler ds = handlers ?b @ listenersOf (ev_type (events ?b' ! i)) ?b"
      using ok(2) unfolding good_step_def dispatches_def by blast
    show ?thesis
    proof (cases "e = i")
      case True
      have "delivered e ?b = []" "count_list (map lg_event (logLines ?b)) e = 0" using snoc.IH i(1) True by (auto simp: dispatched_def Let_def)
      moreover have "delivered e ?b' = delivered e ?b @ map dl_handler ds"
        using delivered_append [OF i(4), of e] filter_all(1) [of ds "\<lambda>d. dl_event d = e"] i(5) True by simp
      ultimately have "delivered e ?b' = handlers ?b @ listenersOf (ev_type (events ?b' ! e)) ?b" "count_list (map lg_event (logLines ?b')) e = 1"
        using i(3,6) True by simp_all
      then show ?thesis using i(1,2) True unfolding dispatched_def Let_def by (metis append_is_Nil_conv insertI1 not_Cons_self2)
    next
      case False
      then have d: "delivered e ?b' = delivered e ?b"
        using delivered_append [OF i(4), of e] filter_all(2) [of ds "\<lambda>d. dl_event d = e"] i(5) by simp
      have c: "count_list (map lg_event (logLines ?b')) e = count_list (map lg_event (logLines ?b)) e" "e \<in> finalized ?b' \<longleftrightarrow> e \<in> finalized ?b"
        using i(2,3) False by simp_all
      show ?thesis using snoc.IH type old [of "\<lambda>ops1. let b1 = foldl (bus_step v) newBus ops1 in
          e \<notin> finalized b1 \<and> delivered e ?b' = handlers b1 @ listenersOf (ev_type (events ?b' ! e)) b1"]
        unfolding dispatched_def Let_def c d by (metis (no_types, lifting))
    qed
  qed
qed

text \<open>
  C15: every event is dispatched at most once, to everybody of one moment, and is never lost by a failure. Whatever the middleware do, in whatever order:
  call \<open>next\<close> not at all, once or many times, throw, exceed their time before or after that, while handlers and middleware come and go. An event that is
  dispatched is logged once and delivered exactly to the handlers and the listeners of its type registered at one moment, in their order and
  once for each registration; an event that is not dispatched is delivered to nobody, and then a middleware is still running for it or returned without
  calling \<open>next\<close>.
\<close>

theorem bus_exactly_once:
  assumes "b = foldl (bus_step v) newBus ops" and "e < length (events b)"
  shows "(e \<notin> finalized b \<longrightarrow> delivered e b = [] \<and> count_list (map lg_event (logLines b)) e = 0 \<and>
      (\<exists>f \<in> set (frames b). fr_event f = e \<and> \<not> fr_next f \<and> \<not> fr_failed f)) \<and>
    (e \<in> finalized b \<longrightarrow> count_list (map lg_event (logLines b)) e = 1 \<and>
      (\<exists>ops1 ops2. ops = ops1 @ ops2 \<and> ops2 \<noteq> [] \<and> (let b1 = foldl (bus_step v) newBus ops1 in
         e \<notin> finalized b1 \<and> delivered e b = handlers b1 @ listenersOf (ev_type (events b ! e)) b1)))"
  using run_ok [of v ops] run_dispatched [of v ops e] assms by (auto simp: dispatched_def bus_ok_def holds_def Let_def)

text \<open>A middleware that calls \<open>next\<close> and then fails.\<close>

definition lateFailure :: "bus_op list" where
  "lateFailure = [Use 1, Subscribe 5, On ''THREAT'' 6, Publish ''u'' ''t'' ''THREAT'' ''m'' (Obj []), CallNext 0, FailMiddleware 0]"

theorem bus_exactly_once_witness:
  "delivered 0 (foldl (bus_step (\<lambda>_. Some)) newBus lateFailure) = [5, 6] \<and>
   count_list (map lg_event (logLines (foldl (bus_step (\<lambda>_. Some)) newBus lateFailure))) 0 = 1"
proof -
  have "0 < length (events (foldl (bus_step (\<lambda>_. Some)) newBus lateFailure))" "0 \<in> finalized (foldl (bus_step (\<lambda>_. Some)) newBus lateFailure)"
    "delivered 0 (foldl (bus_step (\<lambda>_. Some)) newBus lateFailure) = [5, 6]" by code_simp+
  with bus_exactly_once [OF refl this(1)] show ?thesis by blast
qed

section \<open>Registration\<close>

text \<open>Unsubscribing removes a handler from the general handlers and from every type of event, and nothing else, also when it was only
  the subscription to one of the types that was to be cancelled.\<close>

definition listed :: "(string \<times> nat list) list \<Rightarrow> string \<Rightarrow> nat list" where
  "listed m t = (case map_of m t of None \<Rightarrow> [] | Some ls \<Rightarrow> ls)"

lemma listed_drop: "listed (dropListener h m (u, ls)) t = (if u = t \<and> h \<in> set ls then filter (\<lambda>x. x \<noteq> h) ls else listed m t)"
proof -
  have "length (filter (\<lambda>x. x \<noteq> h) ls) = length ls \<longleftrightarrow> h \<notin> set ls"
    by (metis (mono_tags, lifting) filter_True length_filter_less less_irrefl)
  then show ?thesis by (auto simp: dropListener_def listed_def Let_def)
qed

lemma listed_foldl:
  "distinct (map fst ks) \<Longrightarrow> listed (foldl (dropListener h) m ks) t =
    (case map_of ks t of Some ls \<Rightarrow> (if h \<in> set ls then filter (\<lambda>x. x \<noteq> h) ls else listed m t) | None \<Rightarrow> listed m t)"
proof (induction ks arbitrary: m)
  case (Cons k ks)
  obtain u ls where k: "k = (u, ls)" by (cases k)
  have "map_of ks u = None" using Cons.prems by (simp add: k map_of_eq_None_iff)
  then show ?case using Cons by (cases "u = t") (simp_all add: k listed_drop split: option.split)
qed simp

lemma unsubscribe_all:
  assumes "distinct (map fst (keyedListeners b))"
  shows "handlers (unsubscribe h b) = filter (\<lambda>x. x \<noteq> h) (handlers b) \<and> listenersOf t (unsubscribe h b) = filter (\<lambda>x. x \<noteq> h) (listenersOf t b)"
proof -
  have "listenersOf t b = listed (keyedListeners b) t" for b by (simp add: listenersOf_def listed_def)
  then show ?thesis using listed_foldl [OF assms, of h "keyedListeners b" t]
    by (auto simp: unsubscribe_def listed_def filter_id split: option.split)
qed

end
