(* ===== verification/Ipc_Ring.thy ===== *)
theory Ipc_Ring
  imports Prelude "HOL-Library.Word" "HOL-Library.Monad_Syntax"
begin

text \<open>
  The shared-memory ring between an agent and the orchestrator. The producer is \<open>IpcRingBuffer\<close> of agents/cts_ipc/src/lib.rs, the consumer
  \<open>shmem_ring_pull\<close> and \<open>shmem_ring_commit\<close> of agents/cts_sec/src/lib.rs. The header words are machine words whose arithmetic wraps, as in the
  release build; an index outside the segment, on which Rust panics, is \<^const>\<open>None\<close>. For any contents of the segment the consumer stays inside it.
  If both sides are the only ones to write, the ring is a queue, also when the single bytes a producer writes
  interleave with the steps of the consumer.
\<close>

section \<open>Bytes\<close>

type_synonym u32 = "32 word"
type_synonym octets = "8 word list"

text \<open>\<open>to_le_bytes\<close>, \<open>from_le_bytes\<close> and \<open>checked_add\<close> of \<open>u32\<close>.\<close>

definition to_le_bytes :: "u32 \<Rightarrow> octets" where
  "to_le_bytes w = map (\<lambda>i. word_of_nat (unat w div 256 ^ i)) [0, 1, 2, 3]"

definition from_le_bytes :: "octets \<Rightarrow> u32" where
  "from_le_bytes bs = word_of_nat (foldr (\<lambda>b n. unat b + 256 * n) bs 0)"

definition checked_add :: "u32 \<Rightarrow> u32 \<Rightarrow> u32 option" where
  "checked_add a b = (if unat a + unat b < 2 ^ 32 then Some (a + b) else None)"

text \<open>\<open>slice[a..a + n]\<close> and \<open>slice[a..a + n].copy_from_slice(bs)\<close>; the latter also panics when the lengths differ.\<close>

definition slice :: "nat \<Rightarrow> nat \<Rightarrow> octets \<Rightarrow> octets option" where
  "slice a n d = (if a + n \<le> length d then Some (take n (drop a d)) else None)"

definition copy_from_slice :: "nat \<Rightarrow> nat \<Rightarrow> octets \<Rightarrow> octets \<Rightarrow> octets option" where
  "copy_from_slice a n bs d = (if a + n \<le> length d \<and> n = length bs then Some (take a d @ bs @ drop (a + n) d) else None)"

section \<open>The segment\<close>

text \<open>The sixteen header bytes hold the three words and a reserved one; the data are the bytes behind them.\<close>

record segment =
  sm_head :: u32
  sm_tail :: u32
  sm_capacity :: u32
  sm_data :: octets

section \<open>The producer\<close>

text \<open>\<open>IpcRingBuffer::new\<close>.\<close>

definition ring_new :: "segment \<Rightarrow> segment option" where
  "ring_new s = (if length (sm_data s) < 16 then None else Some (s\<lparr>sm_capacity := word_of_nat (length (sm_data s))\<rparr>))"

datatype push_plan = Refuse | Wrap | Append

text \<open>What \<open>push\<close> decides from the header words it loads, for the truncated length of the message.\<close>

definition plan_push :: "u32 \<Rightarrow> u32 \<Rightarrow> u32 \<Rightarrow> u32 \<Rightarrow> push_plan" where
  "plan_push capacity head tail msg_len =
    (let total_len = 4 + msg_len;
         used = (if head \<ge> tail then head - tail else capacity - (tail - head));
         free_space = capacity - used - 1
     in if capacity < 8 \<or> total_len > capacity - 4 then Refuse
        else if free_space < total_len then Refuse
        else if head + total_len + 4 > capacity then (if tail > total_len then Wrap else Refuse)
        else Append)"

text \<open>The writes of a plan, in order, and the head stored after them.\<close>

definition push_writes :: "push_plan \<Rightarrow> u32 \<Rightarrow> octets \<Rightarrow> (nat \<times> nat \<times> octets) list" where
  "push_writes p head msg = (let msg_len = word_of_nat (length msg) :: u32 in case p of
     Refuse \<Rightarrow> []
   | Wrap \<Rightarrow> [(unat head, 4, to_le_bytes (- 1)), (0, 4, to_le_bytes msg_len), (4, unat msg_len, msg)]
   | Append \<Rightarrow> [(unat head, 4, to_le_bytes msg_len), (unat head + 4, unat msg_len, msg)])"

definition push_head :: "push_plan \<Rightarrow> u32 \<Rightarrow> octets \<Rightarrow> u32" where
  "push_head p head msg = (let total_len = 4 + word_of_nat (length msg) in case p of
     Refuse \<Rightarrow> head
   | Wrap \<Rightarrow> total_len
   | Append \<Rightarrow> head + total_len)"

fun copy_all :: "(nat \<times> nat \<times> octets) list \<Rightarrow> octets \<Rightarrow> octets option" where
  "copy_all [] d = Some d"
| "copy_all ((a, n, bs) # ws) d = copy_from_slice a n bs d \<bind> copy_all ws"

definition push :: "octets \<Rightarrow> segment \<Rightarrow> (bool \<times> segment) option" where
  "push msg s =
    (let p = plan_push (sm_capacity s) (sm_head s) (sm_tail s) (word_of_nat (length msg))
     in map_option (\<lambda>d. (p \<noteq> Refuse, s\<lparr>sm_data := d, sm_head := push_head p (sm_head s) msg\<rparr>)) (copy_all (push_writes p (sm_head s) msg) (sm_data s)))"

section \<open>The consumer\<close>

definition validated_capacity :: "nat \<Rightarrow> u32 \<Rightarrow> u32 option" where
  "validated_capacity usable declared =
    (let mx = (if usable < 2 ^ 32 then word_of_nat usable else - 1)
     in if declared = 0 \<or> declared > mx then None else Some declared)"

definition exceeds :: "u32 option \<Rightarrow> u32 \<Rightarrow> bool" where
  "exceeds end capacity = (case end of None \<Rightarrow> True | Some e \<Rightarrow> e > capacity)"

text \<open>The pointer as an offset into the data, and the length; the null pointer is the inner \<^const>\<open>None\<close>.\<close>

definition message_at :: "u32 \<Rightarrow> u32 \<Rightarrow> u32 \<Rightarrow> (nat \<times> u32) option" where
  "message_at capacity tail msg_len =
    (if msg_len = 0 \<or> msg_len > capacity - 4 \<or> exceeds (checked_add tail 4 \<bind> (\<lambda>v. checked_add v msg_len)) capacity then None
     else Some (unat tail + 4, msg_len))"

definition shmem_ring_pull :: "segment \<Rightarrow> (nat \<times> u32) option option" where
  "shmem_ring_pull s =
    (if length (sm_data s) < 16 then Some None
     else case validated_capacity (length (sm_data s)) (sm_capacity s) of None \<Rightarrow> Some None
     | Some capacity \<Rightarrow>
        if sm_head s = sm_tail s then Some None
        else if exceeds (checked_add (sm_tail s) 4) capacity then Some None
        else slice (unat (sm_tail s)) 4 (sm_data s) \<bind> (\<lambda>len_bytes.
          if from_le_bytes len_bytes = - 1 then
            (if capacity < 4 then Some None
             else slice 0 4 (sm_data s) \<bind> (\<lambda>len_bytes.
               if from_le_bytes len_bytes = 0 \<or> from_le_bytes len_bytes = - 1 then Some None
               else Some (message_at capacity 0 (from_le_bytes len_bytes))))
          else Some (message_at capacity (sm_tail s) (from_le_bytes len_bytes))))"

definition shmem_ring_commit :: "segment \<Rightarrow> segment option" where
  "shmem_ring_commit s =
    (if length (sm_data s) < 16 then Some s
     else case validated_capacity (length (sm_data s)) (sm_capacity s) of None \<Rightarrow> Some s
     | Some capacity \<Rightarrow>
        if sm_head s = sm_tail s then Some s
        else if exceeds (checked_add (sm_tail s) 4) capacity then Some s
        else slice (unat (sm_tail s)) 4 (sm_data s) \<bind> (\<lambda>len_bytes.
          if from_le_bytes len_bytes = - 1 then
            (if capacity < 4 then Some s
             else slice 0 4 (sm_data s) \<bind> (\<lambda>len_bytes. let wrapped_msg_len = from_le_bytes len_bytes in
               if wrapped_msg_len \<noteq> 0 \<and> wrapped_msg_len \<noteq> - 1 \<and> \<not> exceeds (checked_add wrapped_msg_len 4) capacity
               then Some (s\<lparr>sm_tail := 4 + wrapped_msg_len\<rparr>) else Some s))
          else (case checked_add (sm_tail s) 4 \<bind> (\<lambda>v. checked_add v (from_le_bytes len_bytes)) of
              None \<Rightarrow> Some s
            | Some next \<Rightarrow> Some (if next \<le> capacity then s\<lparr>sm_tail := next\<rparr> else s))))"

section \<open>Memory safety against any contents of the segment\<close>

lemma checked_add_Some: "checked_add a b = Some c \<longleftrightarrow> c = a + b \<and> unat a + unat b < 2 ^ 32"
  by (auto simp: checked_add_def)

lemma unat_add: "unat a + unat b < 2 ^ 32 \<Longrightarrow> unat (a + b :: u32) = unat a + unat b"
  by (simp add: unat_word_ariths)

lemma u32_bound: "unat (c :: u32) < 4294967296"
  using unsigned_less [of c, where ?'a = nat] by simp

lemma within: "\<not> exceeds (checked_add a b) c \<longleftrightarrow> unat a + unat b \<le> unat c"
  using u32_bound [of c] by (auto simp: exceeds_def checked_add_def unat_add word_less_nat_alt not_less)

lemma validated_capacity_le: "validated_capacity n c = Some k \<Longrightarrow> k = c \<and> c \<noteq> 0 \<and> unat c \<le> n"
  using u32_bound [of c] by (auto simp: validated_capacity_def Let_def word_less_nat_alt not_less unat_of_nat split: if_splits)

lemma within3: "\<not> exceeds (checked_add a b \<bind> (\<lambda>v. checked_add v d)) c \<longleftrightarrow> unat a + unat b + unat d \<le> unat c"
proof (cases "unat a + unat b < 2 ^ 32")
  case True
  then show ?thesis using within [of "a + b" d c] unat_add [OF True] by (simp add: checked_add_def)
next
  case False
  then show ?thesis using u32_bound [of c] by (simp add: checked_add_def exceeds_def)
qed

lemma message_at_inside: "message_at c t m = Some (off, len) \<Longrightarrow> off = unat t + 4 \<and> len = m \<and> m \<noteq> 0 \<and> off + unat m \<le> unat c"
  using within3 [of t 4 m c] by (auto simp: message_at_def split: if_splits)

text \<open>
  C5: whatever the segment contains, the consumer stays inside it. For every head, tail, capacity and data, which a hostile producer may have
  written, pulling never indexes outside the mapping, and a returned pointer with its length lies inside the mapping; committing never
  indexes outside it, changes nothing but the tail, and leaves the tail unchanged or inside the declared capacity.
\<close>

theorem ring_memory_safe:
  "\<exists>r. shmem_ring_pull s = Some r \<and> (case r of None \<Rightarrow> True | Some (off, len) \<Rightarrow> 4 \<le> off \<and> 0 < unat len \<and> off + unat len \<le> length (sm_data s)) \<and>
    (\<exists>t. shmem_ring_commit s = Some (s\<lparr>sm_tail := t\<rparr>) \<and> (t = sm_tail s \<or> unat t \<le> unat (sm_capacity s) \<and> unat (sm_capacity s) \<le> length (sm_data s)))"
proof (cases "length (sm_data s) < 16 \<or> validated_capacity (length (sm_data s)) (sm_capacity s) = None \<or> sm_head s = sm_tail s \<or>
    exceeds (checked_add (sm_tail s) 4) (sm_capacity s)")
  case True
  then have "shmem_ring_pull s = Some None" "shmem_ring_commit s = Some s"
    by (auto simp: shmem_ring_pull_def shmem_ring_commit_def dest: validated_capacity_le split: option.split)
  then show ?thesis by (auto intro: exI [of _ "sm_tail s"])
next
  case False
  let ?c = "sm_capacity s" and ?d = "sm_data s"
  have c: "validated_capacity (length ?d) ?c = Some ?c" "unat ?c \<le> length ?d" "unat (sm_tail s) + 4 \<le> unat ?c"
    using False validated_capacity_le [of "length ?d" ?c] within [of "sm_tail s" 4 ?c] by auto
  obtain lb lb0 where lb: "slice (unat (sm_tail s)) 4 ?d = Some lb" "slice 0 4 ?d = Some lb0" using c by (simp add: slice_def)
  let ?m = "from_le_bytes lb" and ?w = "from_le_bytes lb0"
  have inside: "case message_at ?c t m of None \<Rightarrow> True | Some (off, len) \<Rightarrow> 4 \<le> off \<and> 0 < unat len \<and> off + unat len \<le> length ?d" for t m
    using message_at_inside [of ?c t m] c(2) by (cases "message_at ?c t m") (auto simp: unat_gt_0)
  have pull: "shmem_ring_pull s = Some (if ?m = - 1 then (if ?c < 4 \<or> ?w = 0 \<or> ?w = - 1 then None else message_at ?c 0 ?w) else message_at ?c (sm_tail s) ?m)"
    using False c(1) lb by (simp add: shmem_ring_pull_def)
  have next_le: "unat (4 + ?w) \<le> unat ?c" if "\<not> exceeds (checked_add ?w 4) ?c"
    using that within [of ?w 4 ?c] u32_bound [of ?c] unat_add [of ?w 4] by (simp add: add.commute)
  have "\<exists>t. shmem_ring_commit s = Some (s\<lparr>sm_tail := t\<rparr>) \<and> (t = sm_tail s \<or> unat t \<le> unat ?c)"
  proof (cases "?m = - 1")
    case True
    then have "shmem_ring_commit s = Some s \<or> shmem_ring_commit s = Some (s\<lparr>sm_tail := 4 + ?w\<rparr>) \<and> unat (4 + ?w) \<le> unat ?c"
      using False c(1) lb next_le by (auto simp: shmem_ring_commit_def Let_def)
    then show ?thesis by (auto intro: exI [of _ "sm_tail s"])
  next
    case m: False
    then have "shmem_ring_commit s = Some s \<or> (\<exists>t. shmem_ring_commit s = Some (s\<lparr>sm_tail := t\<rparr>) \<and> unat t \<le> unat ?c)"
      using False c(1) lb by (auto simp: shmem_ring_commit_def word_le_nat_alt split: option.split)
    then show ?thesis by (auto intro: exI [of _ "sm_tail s"])
  qed
  then show ?thesis using pull inside c(2) by auto
qed

section \<open>The contents of a ring\<close>

text \<open>Bytes that lie in the data at an offset; a message with its length in front.\<close>

definition lies :: "octets \<Rightarrow> nat \<Rightarrow> octets \<Rightarrow> bool" where
  "lies d a bs \<longleftrightarrow> a + length bs \<le> length d \<and> (\<forall>i < length bs. d ! (a + i) = bs ! i)"

definition framed :: "octets \<Rightarrow> octets" where
  "framed m = to_le_bytes (word_of_nat (length m)) @ m"

definition stream :: "octets list \<Rightarrow> octets" where
  "stream q = concat (map framed q)"

text \<open>The messages between the tail and the head: in one piece, or in two with a skip marker behind the first.\<close>

definition unwrapped :: "octets \<Rightarrow> nat \<Rightarrow> nat \<Rightarrow> octets list \<Rightarrow> bool" where
  "unwrapped d h t q \<longleftrightarrow> t + length (stream q) = h \<and> lies d t (stream q)"

definition wrapped :: "octets \<Rightarrow> nat \<Rightarrow> nat \<Rightarrow> octets list \<Rightarrow> bool" where
  "wrapped d h t q \<longleftrightarrow> (\<exists>q1 q2. q = q1 @ q2 \<and> q2 \<noteq> [] \<and> h < t \<and> lies d t (stream q1 @ to_le_bytes (- 1)) \<and> lies d 0 (stream q2) \<and> h = length (stream q2))"

definition queued :: "octets \<Rightarrow> nat \<Rightarrow> nat \<Rightarrow> octets list \<Rightarrow> bool" where
  "queued d h t q \<longleftrightarrow> 16 \<le> length d \<and> length d \<le> 2 ^ 31 \<and> h + 4 \<le> length d \<and> t + 4 \<le> length d \<and>
     (\<forall>m \<in> set q. m \<noteq> [] \<and> length m + 8 \<le> length d) \<and> (unwrapped d h t q \<or> wrapped d h t q)"

text \<open>The positions that hold messages.\<close>

definition live :: "nat \<Rightarrow> nat \<Rightarrow> nat \<Rightarrow> nat set" where
  "live c h t = (if t \<le> h then {t..<h} else {t..<c} \<union> {0..<h})"

lemma length_le_bytes [simp]: "length (to_le_bytes w) = 4"
  by (simp add: to_le_bytes_def)

lemma two_digits: "(n :: nat) mod 256 + 256 * (n div 256) = n"
  by (simp add: mult.commute)

lemma four_digits:
  assumes "n < 2 ^ 32"
  shows "n mod 256 + 256 * (n div 256 mod 256 + 256 * (n div 65536 mod 256 + 256 * (n div 16777216 mod 256))) = (n :: nat)"
proof -
  have top: "n div 16777216 mod 256 = n div 16777216" using assms by (simp add: div_less_iff_less_mult)
  have steps: "n div 65536 = n div 256 div 256" "n div 16777216 = n div 256 div 256 div 256" by (simp_all add: div_mult2_eq [symmetric])
  show ?thesis unfolding top unfolding steps two_digits ..
qed

lemma from_to_le_bytes [simp]: "from_le_bytes (to_le_bytes w) = w"
proof -
  have "foldr (\<lambda>b n. unat b + 256 * n) (to_le_bytes w) 0 = unat w"
    using four_digits [of "unat w"] u32_bound [of w] by (simp add: to_le_bytes_def unat_of_nat unsigned_ucast_eq take_bit_eq_mod)
  then show ?thesis by (simp add: from_le_bytes_def)
qed

lemma all_less_add: "(\<forall>i < m + n. P i) \<longleftrightarrow> (\<forall>i < m. P i) \<and> (\<forall>i < n. P (m + i :: nat))"
proof -
  have "P i" if "\<forall>i < m. P i" "\<forall>i < n. P (m + i)" "i < m + n" for i
    using that by (cases "i < m") (simp, metis add_diff_inverse_nat add_less_cancel_left)
  then show ?thesis by auto
qed

lemma lies_append: "lies d a (xs @ ys) \<longleftrightarrow> lies d a xs \<and> lies d (a + length xs) ys"
  unfolding lies_def length_append all_less_add by (auto simp: nth_append add.assoc)

lemma lies_slice: "lies d a bs \<Longrightarrow> length bs = n \<Longrightarrow> slice a n d = Some bs"
  by (auto simp: lies_def slice_def intro!: nth_equalityI)

lemma lies_cong: "lies d a bs \<Longrightarrow> length d' = length d \<Longrightarrow> (\<And>i. i \<in> {a..<a + length bs} \<Longrightarrow> d' ! i = d ! i) \<Longrightarrow> lies d' a bs"
  by (simp add: lies_def)

lemma stream_simps [simp]: "stream [] = []" "stream (m # q) = framed m @ stream q" "stream (p @ q) = stream p @ stream q"
  by (simp_all add: stream_def)

lemma length_framed [simp]: "length (framed m) = length m + 4"
  by (simp add: framed_def)

lemma queued_cong:
  assumes "queued d h t q" and "length d' = length d" and "\<And>i. i \<in> live (length d) h t \<Longrightarrow> d' ! i = d ! i"
  shows "queued d' h t q"
proof -
  have "unwrapped d' h t q" if u: "unwrapped d h t q"
    using u assms(3) lies_cong [of d t "stream q" d'] assms(2) by (auto simp: unwrapped_def live_def)
  moreover have "wrapped d' h t q" if w: "wrapped d h t q"
  proof -
    obtain q1 q2 where q: "q = q1 @ q2" "q2 \<noteq> []" "h < t" "lies d t (stream q1 @ to_le_bytes (- 1))" "lies d 0 (stream q2)" "h = length (stream q2)"
      using w by (auto simp: wrapped_def)
    have l: "live (length d) h t = {t..<length d} \<union> {0..<h}" using q(3) by (simp add: live_def)
    have "lies d' t (stream q1 @ to_le_bytes (- 1))"
      by (rule lies_cong [OF q(4) assms(2)]) (rule assms(3), use q(4) in \<open>simp add: l lies_def\<close>)
    moreover have "lies d' 0 (stream q2)"
      by (rule lies_cong [OF q(5) assms(2)]) (rule assms(3), unfold l, use q(6) in simp)
    ultimately show ?thesis using q(1-3,6) unfolding wrapped_def by blast
  qed
  ultimately show ?thesis using assms(1,2) by (auto simp: queued_def)
qed

text \<open>The first message lies at the tail, or at the beginning when the tail is at the skip marker.\<close>

definition first_at :: "octets \<Rightarrow> nat \<Rightarrow> nat \<Rightarrow> octets \<Rightarrow> nat \<Rightarrow> bool" where
  "first_at d h t m a \<longleftrightarrow> lies d a (framed m) \<and> {a..<a + (length m + 4)} \<subseteq> live (length d) h t \<and>
     live (length d) h (a + (length m + 4)) \<subseteq> live (length d) h t"

lemma first_message:
  assumes "queued d h t (m # q)"
  shows "first_at d h t m t \<and> queued d h (t + (length m + 4)) q \<or> lies d t (to_le_bytes (- 1)) \<and> first_at d h t m 0 \<and> queued d h (length m + 4) q"
proof -
  have b: "16 \<le> length d" "length d \<le> 2 ^ 31" "h + 4 \<le> length d" "t + 4 \<le> length d" "\<forall>m \<in> set q. m \<noteq> [] \<and> length m + 8 \<le> length d"
    using assms by (auto simp: queued_def)
  consider "unwrapped d h t (m # q)" | "wrapped d h t (m # q)" using assms by (auto simp: queued_def)
  then show ?thesis
  proof cases
    case 1
    then have "first_at d h t m t" "unwrapped d h (t + (length m + 4)) q"
      by (auto simp: unwrapped_def lies_append first_at_def live_def)
    then show ?thesis using b 1 by (auto simp: queued_def unwrapped_def)
  next
    case 2
    then obtain q1 q2 where q: "m # q = q1 @ q2" "q2 \<noteq> []" "h < t" "lies d t (stream q1 @ to_le_bytes (- 1))" "lies d 0 (stream q2)" "h = length (stream q2)"
      by (auto simp: wrapped_def)
    show ?thesis
    proof (cases q1)
      case Nil
      then have q2: "q2 = m # q" using q(1) by simp
      have "unwrapped d h (length m + 4) q" "first_at d h t m 0"
        using q(3,5,6) by (auto simp: q2 unwrapped_def lies_append first_at_def live_def add.commute)
      then show ?thesis using b q(4) Nil by (auto simp: queued_def unwrapped_def)
    next
      case (Cons m' q1')
      then have m: "m' = m" "q = q1' @ q2" using q(1) by auto
      have l: "lies d t (framed m)" "lies d (t + (length m + 4)) (stream q1' @ to_le_bytes (- 1))" using q(4) by (auto simp: Cons m lies_append add.assoc)
      then have e: "t + (length m + 4) + 4 \<le> length d" by (simp add: lies_def)
      have "wrapped d h (t + (length m + 4)) q" using q(2,3,5,6) l(2) m(2) by (auto simp: wrapped_def)
      moreover have "first_at d h t m t" using l(1) q(3) e by (auto simp: first_at_def live_def)
      ultimately show ?thesis using b e by (auto simp: queued_def)
    qed
  qed
qed

lemma u32_max: "unat (- 1 :: u32) = 4294967295"
  by (simp add: unsigned_minus_1_eq_mask mask_eq_exp_minus_1)

lemma length_word: "length m + 8 \<le> n \<Longrightarrow> n \<le> 2 ^ 31 \<Longrightarrow> unat (word_of_nat (length m) :: u32) = length m"
  by (simp add: unat_of_nat)

lemma pull_first:
  assumes "queued (sm_data s) h (unat (sm_tail s)) (m # q)" and "sm_capacity s = word_of_nat (length (sm_data s))" and "sm_head s \<noteq> sm_tail s"
  shows "\<exists>a. first_at (sm_data s) h (unat (sm_tail s)) m a \<and> shmem_ring_pull s = Some (Some (a + 4, word_of_nat (length m))) \<and>
    (\<exists>t'. unat t' = a + (length m + 4) \<and> shmem_ring_commit s = Some (s\<lparr>sm_tail := t'\<rparr>) \<and> queued (sm_data s) h (unat t') q)"
proof -
  let ?d = "sm_data s" and ?t = "sm_tail s" and ?c = "sm_capacity s" and ?n = "word_of_nat (length m) :: u32"
  have b: "16 \<le> length ?d" "length ?d \<le> 2 ^ 31" "unat ?t + 4 \<le> length ?d" "m \<noteq> []" "length m + 8 \<le> length ?d"
    using assms(1) by (auto simp: queued_def)
  have c: "unat ?c = length ?d" using b assms(2) by (simp add: unat_of_nat)
  have n: "unat ?n = length m" using length_word b by simp
  then have n0: "?n \<noteq> 0" "?n \<noteq> - 1" using b u32_max by auto
  have v: "validated_capacity (length ?d) ?c = Some ?c"
    using b c by (auto simp: validated_capacity_def assms(2) unat_eq_0)
  have e: "\<not> exceeds (checked_add ?t 4) ?c" using within [of ?t 4 ?c] b c by simp
  have at: "message_at ?c t ?n = Some (unat t + 4, ?n)" if "unat t + (length m + 4) \<le> length ?d" for t
  proof -
    have "\<not> ?n > ?c - 4" using b c n by (simp add: word_less_nat_alt unat_sub word_le_nat_alt)
    then show ?thesis using within3 [of t 4 ?n ?c] that n c n0 by (simp add: message_at_def)
  qed
  have field: "slice a 4 ?d = Some (to_le_bytes ?n)" "a + (length m + 4) \<le> length ?d" if f: "first_at ?d h (unat ?t) m a" for a
  proof -
    have "lies ?d a (to_le_bytes ?n)" using f by (simp add: first_at_def framed_def lies_append)
    then show "slice a 4 ?d = Some (to_le_bytes ?n)" by (rule lies_slice) simp
    show "a + (length m + 4) \<le> length ?d" using f by (simp add: first_at_def lies_def)
  qed
  consider (here) "first_at ?d h (unat ?t) m (unat ?t)" "queued ?d h (unat ?t + (length m + 4)) q"
    | (skip) "lies ?d (unat ?t) (to_le_bytes (- 1))" "first_at ?d h (unat ?t) m 0" "queued ?d h (length m + 4) q"
    using first_message [OF assms(1)] by blast
  then show ?thesis
  proof cases
    case here
    let ?next = "?t + 4 + ?n"
    have u: "unat (?t + 4) = unat ?t + 4" "unat ?next = unat ?t + (length m + 4)"
      using field(2) [OF here(1)] b(2) n by (simp_all add: unat_add)
    have "checked_add ?t 4 \<bind> (\<lambda>v. checked_add v ?n) = Some ?next" using u n u32_bound [of ?next] by (simp add: checked_add_def)
    moreover have "?next \<le> ?c" using u field(2) [OF here(1)] c by (simp add: word_le_nat_alt)
    ultimately have "shmem_ring_commit s = Some (s\<lparr>sm_tail := ?next\<rparr>)"
      using field(1) [OF here(1)] v e assms(3) b n0 by (simp add: shmem_ring_commit_def)
    moreover have "shmem_ring_pull s = Some (Some (unat ?t + 4, ?n))"
      using field(1) [OF here(1)] at [OF field(2) [OF here(1)]] v e assms(3) b n0 by (simp add: shmem_ring_pull_def)
    ultimately show ?thesis using here u(2) by (intro exI [of _ "unat ?t"]) auto
  next
    case skip
    have f: "slice (unat ?t) 4 ?d = Some (to_le_bytes (- 1))" using lies_slice [OF skip(1)] by simp
    have u: "unat (4 + ?n) = length m + 4" using b n unat_add [of 4 ?n] by simp
    have c4: "\<not> ?c < 4" using b c by (simp add: word_less_nat_alt)
    have "\<not> exceeds (checked_add ?n 4) ?c" using within [of ?n 4 ?c] b c n by simp
    then have "shmem_ring_commit s = Some (s\<lparr>sm_tail := 4 + ?n\<rparr>)"
      using f field(1) [OF skip(2)] v e assms(3) b n0 c4 by (simp add: shmem_ring_commit_def Let_def)
    moreover have "shmem_ring_pull s = Some (Some (4, ?n))"
      using f field(1) [OF skip(2)] at [of 0] field(2) [OF skip(2)] v e assms(3) b n0 c4 by (simp add: shmem_ring_pull_def)
    ultimately show ?thesis using skip u by (intro exI [of _ 0]) (auto simp: add.commute)
  qed
qed

section \<open>Producer and consumer interleaved\<close>

lemma plan_facts:
  assumes "queued d (unat h) (unat t) q" and "c = word_of_nat (length d)" and "length msg + 4 < 2 ^ 32" and "p = plan_push c h t (word_of_nat (length msg))"
    and "p \<noteq> Refuse"
  shows "length msg + 8 \<le> length d" and "p = Append \<Longrightarrow> unat h + (length msg + 4) + 4 \<le> length d \<and> (unat h < unat t \<longrightarrow> unat h + (length msg + 4) < unat t)"
    and "p = Wrap \<Longrightarrow> unat t \<le> unat h \<and> length msg + 4 < unat t"
proof -
  let ?n = "length msg + 4" and ?total = "4 + word_of_nat (length msg) :: u32" and ?used = "if h \<ge> t then h - t else c - (t - h)"
  have b: "16 \<le> length d" "length d \<le> 2 ^ 31" "unat h + 4 \<le> length d" "unat t + 4 \<le> length d" using assms(1) by (auto simp: queued_def)
  have c: "unat c = length d" using b assms(2) by (simp add: unat_of_nat)
  have n: "unat ?total = ?n" using assms(3) unat_add [of 4 "word_of_nat (length msg)"] by (simp add: unat_of_nat)
  have used: "unat ?used = (if unat t \<le> unat h then unat h - unat t else length d - (unat t - unat h))"
    using b c by (auto simp: word_le_nat_alt unat_sub)
  have "1 \<le> c - ?used" "?used \<le> c" using used b c by (auto simp: word_le_nat_alt unat_sub split: if_splits)
  then have free: "unat (c - ?used - 1) = length d - unat ?used - 1" using c by (simp add: unat_sub)
  have p: "\<not> c < 8" "\<not> ?total > c - 4" "\<not> c - ?used - 1 < ?total" "p = (if h + ?total + 4 > c then (if t > ?total then Wrap else Refuse) else Append)"
    using assms(4,5) by (auto simp: plan_push_def Let_def split: if_splits)
  show fits: "length msg + 8 \<le> length d" using p(1,2) c n by (auto simp: word_less_nat_alt unat_sub word_le_nat_alt)
  have room: "?n \<le> length d - unat ?used - 1" using p(3) free n by (simp add: word_less_nat_alt)
  have sum: "unat (h + ?total + 4) = unat h + ?n + 4" using b fits n unat_add [of h ?total] unat_add [of "h + ?total" 4] by simp
  have gap: "unat h < unat t \<longrightarrow> unat h + ?n < unat t" using room used b by auto
  show "p = Append \<Longrightarrow> unat h + ?n + 4 \<le> length d \<and> (unat h < unat t \<longrightarrow> unat h + ?n < unat t)"
    using p(4) sum c gap by (auto simp: word_less_nat_alt split: if_splits)
  show "p = Wrap \<Longrightarrow> unat t \<le> unat h \<and> ?n < unat t"
    using p(4) sum c gap b n by (auto simp: word_less_nat_alt split: if_splits)
qed

text \<open>
  The producer loads the header words and decides, writes byte by byte, and stores the head. The consumer loads the head, reads the rest with that
  possibly outdated head, copies the message out of the mapping, and commits. \<open>rs_accepted\<close> and \<open>rs_received\<close> record the messages.
\<close>

datatype producer = Idle | Writing push_plan octets "(nat \<times> 8 word) list"
datatype consumer = Waiting | Loaded u32 | Holding nat u32 | Copied

record ring_sys =
  rs_seg :: segment
  rs_producer :: producer
  rs_consumer :: consumer
  rs_accepted :: "octets list"
  rs_received :: "octets list"

datatype ring_op = Begin octets | WriteByte | Publish | LoadHead | Pull | Copy | Commit

definition single_bytes :: "(nat \<times> nat \<times> octets) list \<Rightarrow> (nat \<times> 8 word) list" where
  "single_bytes ws = concat (map (\<lambda>(a, n, bs). zip [a..<a + length bs] bs) ws)"

definition begin_push :: "octets \<Rightarrow> ring_sys \<Rightarrow> ring_sys" where
  "begin_push msg y = (case (rs_producer y, ring_new (rs_seg y)) of
     (Idle, Some s) \<Rightarrow>
       (let p = plan_push (sm_capacity s) (sm_head s) (sm_tail s) (word_of_nat (length msg))
        in y\<lparr>rs_seg := s, rs_producer := (if p = Refuse then Idle else Writing p msg (single_bytes (push_writes p (sm_head s) msg)))\<rparr>)
   | _ \<Rightarrow> y)"

fun ring_step :: "ring_op \<Rightarrow> ring_sys \<Rightarrow> ring_sys option" where
  "ring_step (Begin msg) y = Some (begin_push msg y)"
| "ring_step WriteByte y = (case rs_producer y of
     Writing p msg ((a, b) # todo) \<Rightarrow>
       (if a < length (sm_data (rs_seg y))
        then Some (y\<lparr>rs_seg := (rs_seg y)\<lparr>sm_data := (sm_data (rs_seg y))[a := b]\<rparr>, rs_producer := Writing p msg todo\<rparr>) else None)
   | _ \<Rightarrow> Some y)"
| "ring_step Publish y = (case rs_producer y of
     Writing p msg [] \<Rightarrow> Some (y\<lparr>rs_seg := (rs_seg y)\<lparr>sm_head := push_head p (sm_head (rs_seg y)) msg\<rparr>, rs_producer := Idle, rs_accepted := rs_accepted y @ [msg]\<rparr>)
   | _ \<Rightarrow> Some y)"
| "ring_step LoadHead y = Some (case rs_consumer y of Waiting \<Rightarrow> y\<lparr>rs_consumer := Loaded (sm_head (rs_seg y))\<rparr> | _ \<Rightarrow> y)"
| "ring_step Pull y = (case rs_consumer y of
     Loaded h \<Rightarrow> map_option (\<lambda>r. y\<lparr>rs_consumer := (case r of None \<Rightarrow> Waiting | Some (off, len) \<Rightarrow> Holding off len)\<rparr>) (shmem_ring_pull ((rs_seg y)\<lparr>sm_head := h\<rparr>))
   | _ \<Rightarrow> Some y)"
| "ring_step Copy y = (case rs_consumer y of
     Holding off len \<Rightarrow> map_option (\<lambda>m. y\<lparr>rs_consumer := Copied, rs_received := rs_received y @ [m]\<rparr>) (slice off (unat len) (sm_data (rs_seg y)))
   | _ \<Rightarrow> Some y)"
| "ring_step Commit y = (case rs_consumer y of
     Copied \<Rightarrow> map_option (\<lambda>s. y\<lparr>rs_seg := s, rs_consumer := Waiting\<rparr>) (shmem_ring_commit (rs_seg y))
   | _ \<Rightarrow> Some y)"

fun ring_run :: "ring_op list \<Rightarrow> ring_sys \<Rightarrow> ring_sys option" where
  "ring_run [] y = Some y"
| "ring_run (op # ops) y = ring_step op y \<bind> ring_run ops"

definition new_ring :: "octets \<Rightarrow> ring_sys" where
  "new_ring d = \<lparr>rs_seg = \<lparr>sm_head = 0, sm_tail = 0, sm_capacity = 0, sm_data = d\<rparr>, rs_producer = Idle, rs_consumer = Waiting, rs_accepted = [], rs_received = []\<rparr>"

subsection \<open>Bytes still to be written\<close>

definition written :: "(nat \<times> 8 word) list \<Rightarrow> octets \<Rightarrow> octets" where
  "written todo d = fold (\<lambda>(a, b) d. d[a := b]) todo d"

definition placed :: "nat \<Rightarrow> octets \<Rightarrow> (nat \<times> 8 word) list" where
  "placed a bs = zip [a..<a + length bs] bs"

lemma length_written [simp]: "length (written todo d) = length d"
  by (induction todo arbitrary: d) (auto simp: written_def)

lemma written_simps [simp]: "written [] d = d" "written ((a, b) # todo) d = written todo (d[a := b])" "written (xs @ ys) d = written ys (written xs d)"
  by (simp_all add: written_def)

lemma written_other: "i \<notin> fst ` set todo \<Longrightarrow> written todo d ! i = d ! i"
  by (induction todo arbitrary: d) auto

lemma placed_Cons: "placed a (b # bs) = (a, b) # placed (Suc a) bs"
  by (simp add: placed_def upt_conv_Cons del: upt_Suc)

lemma placed_append: "placed a (xs @ ys) = placed a xs @ placed (a + length xs) ys"
  by (induction xs arbitrary: a) (simp_all add: placed_Cons, simp add: placed_def)

lemma placed_positions [simp]: "fst ` set (placed a bs) = {a..<a + length bs}"
  by (induction bs arbitrary: a) (simp add: placed_def, auto simp: placed_Cons)

lemma written_placed: "a + length bs \<le> length d \<Longrightarrow> lies (written (placed a bs) d) a bs"
proof (induction bs arbitrary: a d)
  case (Cons b bs)
  let ?d = "written (placed (Suc a) bs) (d[a := b])"
  have rest: "lies ?d (Suc a) bs" using Cons by simp
  have "?d ! a = b" using written_other [of a "placed (Suc a) bs" "d[a := b]"] Cons.prems by simp
  then have "lies ?d a ([b] @ bs)" unfolding lies_append using rest Cons.prems by (simp add: lies_def)
  then show ?case by (simp add: placed_Cons)
qed (simp add: lies_def)

lemma lies_written:
  assumes "lies d a bs" and "fst ` set todo \<inter> {a..<a + length bs} = {}" shows "lies (written todo d) a bs"
proof (rule lies_cong [OF assms(1)])
  fix i assume "i \<in> {a..<a + length bs}"
  then show "written todo d ! i = d ! i" using assms(2) by (intro written_other) blast
qed simp

lemma single_bytes_simps [simp]: "single_bytes [] = []" "single_bytes ((a, n, bs) # ws) = placed a bs @ single_bytes ws"
  by (simp_all add: single_bytes_def placed_def)

lemma append_bytes: "single_bytes (push_writes Append h msg) = placed (unat h) (framed msg)"
  by (simp add: push_writes_def Let_def framed_def placed_append)

lemma wrap_bytes: "single_bytes (push_writes Wrap h msg) = placed (unat h) (to_le_bytes (- 1)) @ placed 0 (framed msg)"
  by (simp add: push_writes_def Let_def framed_def placed_append)

subsection \<open>The invariant\<close>

definition producing :: "segment \<Rightarrow> producer \<Rightarrow> bool" where
  "producing s pr \<longleftrightarrow> (case pr of Idle \<Rightarrow> True | Writing p msg todo \<Rightarrow>
     (let d = sm_data s; h = unat (sm_head s); t = unat (sm_tail s); n = length msg + 4
      in msg \<noteq> [] \<and> n + 4 \<le> length d \<and> sm_capacity s = word_of_nat (length d) \<and>
         fst ` set todo \<inter> live (length d) h t = {} \<and> fst ` set todo \<subseteq> {..<length d} \<and>
         (p = Append \<and> h + n + 4 \<le> length d \<and> (h < t \<longrightarrow> h + n < t) \<and> lies (written todo d) h (framed msg) \<or>
          p = Wrap \<and> t \<le> h \<and> n < t \<and> lies (written todo d) h (to_le_bytes (- 1)) \<and> lies (written todo d) 0 (framed msg))))"

definition consuming :: "segment \<Rightarrow> consumer \<Rightarrow> octets list \<Rightarrow> octets list \<Rightarrow> octets list \<Rightarrow> bool" where
  "consuming s co out q rcv \<longleftrightarrow> (case co of
     Waiting \<Rightarrow> rcv = out
   | Loaded h \<Rightarrow> rcv = out \<and> (h \<noteq> sm_tail s \<longrightarrow> q \<noteq> [])
   | Holding off len \<Rightarrow> rcv = out \<and> (\<exists>m q'. q = m # q' \<and> len = word_of_nat (length m) \<and> lies (sm_data s) off m \<and>
        {off..<off + length m} \<subseteq> live (length (sm_data s)) (unat (sm_head s)) (unat (sm_tail s)))
   | Copied \<Rightarrow> \<exists>m q'. q = m # q' \<and> rcv = out @ [m])"

definition ring_inv :: "ring_sys \<Rightarrow> octets list \<Rightarrow> octets list \<Rightarrow> bool" where
  "ring_inv y out q \<longleftrightarrow> rs_accepted y = out @ q \<and> (q \<noteq> [] \<longrightarrow> sm_capacity (rs_seg y) = word_of_nat (length (sm_data (rs_seg y)))) \<and>
     queued (sm_data (rs_seg y)) (unat (sm_head (rs_seg y))) (unat (sm_tail (rs_seg y))) q \<and>
     producing (rs_seg y) (rs_producer y) \<and> consuming (rs_seg y) (rs_consumer y) out q (rs_received y)"

lemma begin_inv:
  assumes "ring_inv y out q" and "msg \<noteq> []" and "length msg + 4 < 2 ^ 32"
  shows "ring_inv (begin_push msg y) out q"
proof (cases "rs_producer y = Idle")
  case True
  let ?s = "rs_seg y" let ?d = "sm_data ?s" let ?c = "word_of_nat (length ?d) :: u32"
  let ?p = "plan_push ?c (sm_head ?s) (sm_tail ?s) (word_of_nat (length msg))"
  have qd: "queued ?d (unat (sm_head ?s)) (unat (sm_tail ?s)) q" using assms(1) by (simp add: ring_inv_def)
  then have l: "16 \<le> length ?d" by (simp add: queued_def)
  note f = plan_facts [OF qd refl assms(3) refl]
  have "producing (?s\<lparr>sm_capacity := ?c\<rparr>) (Writing ?p msg (single_bytes (push_writes ?p (sm_head ?s) msg)))" if np: "?p \<noteq> Refuse"
  proof (cases "?p = Append")
    case a: True
    have "unat (sm_head ?s) + (length msg + 4) + 4 \<le> length ?d" "unat (sm_head ?s) < unat (sm_tail ?s) \<longrightarrow> unat (sm_head ?s) + (length msg + 4) < unat (sm_tail ?s)"
      using f(2) [OF np a] by auto
    then show ?thesis using f(1) [OF np] assms(2) unfolding a append_bytes
      by (auto simp: producing_def live_def Let_def intro!: written_placed)
  next
    case False
    then have w: "?p = Wrap" using np by (cases ?p) auto
    let ?h = "unat (sm_head ?s)" and ?t = "unat (sm_tail ?s)"
    have b: "?t \<le> ?h" "length msg + 4 < ?t" "?h + 4 \<le> length ?d" using f(3) [OF np w] qd by (auto simp: queued_def)
    have "lies (written (placed 0 (framed msg)) (written (placed ?h (to_le_bytes (- 1))) ?d)) ?h (to_le_bytes (- 1))"
      by (rule lies_written [OF written_placed]) (use b in auto)
    moreover have "lies (written (placed 0 (framed msg)) (written (placed ?h (to_le_bytes (- 1))) ?d)) 0 (framed msg)"
      by (rule written_placed) (use b in simp)
    moreover have "fst ` set (placed ?h (to_le_bytes (- 1)) @ placed 0 (framed msg)) = {?h..<?h + 4} \<union> {0..<length msg + 4}" by (simp add: image_Un)
    ultimately show ?thesis using f(1) [OF np] assms(2) b unfolding w wrap_bytes producing_def producer.case Let_def
      by (auto simp: live_def simp del: set_append)
  qed
  then show ?thesis using assms(1) True l
    by (auto simp: ring_inv_def begin_push_def ring_new_def Let_def producing_def consuming_def split: consumer.splits)
qed (use assms in \<open>auto simp: begin_push_def split: producer.splits\<close>)

lemma write_inv:
  assumes "ring_inv y out q" shows "\<exists>y'. ring_step WriteByte y = Some y' \<and> ring_inv y' out q"
proof (cases "\<exists>p msg a b todo. rs_producer y = Writing p msg ((a, b) # todo)")
  case True
  then obtain p msg a b todo where pr: "rs_producer y = Writing p msg ((a, b) # todo)" by blast
  let ?s = "rs_seg y" let ?d = "sm_data ?s" let ?live = "live (length ?d) (unat (sm_head ?s)) (unat (sm_tail ?s))"
  let ?s' = "?s\<lparr>sm_data := ?d[a := b]\<rparr>"
  have pd: "producing ?s (Writing p msg ((a, b) # todo))" using assms pr by (simp add: ring_inv_def)
  then have a: "a < length ?d" "a \<notin> ?live" by (auto simp: producing_def Let_def)
  have qd: "queued (?d[a := b]) (unat (sm_head ?s)) (unat (sm_tail ?s)) q"
  proof (rule queued_cong)
    show "queued ?d (unat (sm_head ?s)) (unat (sm_tail ?s)) q" using assms by (simp add: ring_inv_def)
    fix i assume "i \<in> ?live"
    then have "a \<noteq> i" using a(2) by blast
    then show "?d[a := b] ! i = ?d ! i" by simp
  qed simp
  have pd': "producing ?s' (Writing p msg todo)" using pd by (auto simp: producing_def Let_def)
  have keep: "lies (?d[a := b]) off m" if l: "lies ?d off m" and v: "{off..<off + length m} \<subseteq> ?live" for off m
  proof (rule lies_cong [OF l])
    fix i assume "i \<in> {off..<off + length m}"
    then have "a \<noteq> i" using v a(2) by blast
    then show "?d[a := b] ! i = ?d ! i" by simp
  qed simp
  have "consuming ?s' (rs_consumer y) out q (rs_received y)"
    using assms keep by (auto simp: ring_inv_def consuming_def split: consumer.splits)
  then show ?thesis using assms pr a(1) qd pd' by (simp add: ring_inv_def)
next
  case False
  then have "ring_step WriteByte y = Some y" by (auto split: producer.split list.split)
  then show ?thesis using assms by simp
qed

lemma publish_queued:
  assumes "queued d h t q" and "msg \<noteq> []" and "length msg + 8 \<le> length d"
  shows "h + (length msg + 4) + 4 \<le> length d \<Longrightarrow> (h < t \<longrightarrow> h + (length msg + 4) < t) \<Longrightarrow> lies d h (framed msg) \<Longrightarrow> queued d (h + (length msg + 4)) t (q @ [msg])"
    and "t \<le> h \<Longrightarrow> length msg + 4 < t \<Longrightarrow> lies d h (to_le_bytes (- 1)) \<Longrightarrow> lies d 0 (framed msg) \<Longrightarrow> queued d (length msg + 4) t (q @ [msg])"
proof -
  have b: "16 \<le> length d" "length d \<le> 2 ^ 31" "h + 4 \<le> length d" "t + 4 \<le> length d" "\<forall>m \<in> set (q @ [msg]). m \<noteq> [] \<and> length m + 8 \<le> length d"
    using assms by (auto simp: queued_def)
  {
    assume r: "h + (length msg + 4) + 4 \<le> length d" "h < t \<longrightarrow> h + (length msg + 4) < t" "lies d h (framed msg)"
    have "unwrapped d (h + (length msg + 4)) t (q @ [msg]) \<or> wrapped d (h + (length msg + 4)) t (q @ [msg])"
    proof (cases "unwrapped d h t q")
      case True
      then show ?thesis using r by (auto simp: unwrapped_def lies_append)
    next
      case False
      then obtain q1 q2 where q: "q = q1 @ q2" "h < t" "lies d t (stream q1 @ to_le_bytes (- 1))" "lies d 0 (stream q2)" "h = length (stream q2)"
        using assms(1) by (auto simp: queued_def wrapped_def)
      then have "lies d 0 (stream (q2 @ [msg]))" using r(3) by (simp add: lies_append)
      then show ?thesis using q r(2) unfolding wrapped_def by (intro disjI2 exI [of _ q1] exI [of _ "q2 @ [msg]"]) simp
    qed
    then show "queued d (h + (length msg + 4)) t (q @ [msg])" using b r by (simp add: queued_def)
  }
  {
    assume r: "t \<le> h" "length msg + 4 < t" "lies d h (to_le_bytes (- 1))" "lies d 0 (framed msg)"
    then have "unwrapped d h t q" using assms(1) by (auto simp: queued_def wrapped_def)
    then have "wrapped d (length msg + 4) t (q @ [msg])"
      using r unfolding wrapped_def by (intro exI [of _ q] exI [of _ "[msg]"]) (auto simp: unwrapped_def lies_append)
    then show "queued d (length msg + 4) t (q @ [msg])" using b r by (simp add: queued_def)
  }
qed

lemma publish_inv:
  assumes "ring_inv y out q" shows "\<exists>y' q'. ring_step Publish y = Some y' \<and> ring_inv y' out q'"
proof (cases "\<exists>p msg. rs_producer y = Writing p msg []")
  case True
  then obtain p msg where pr: "rs_producer y = Writing p msg []" by blast
  let ?s = "rs_seg y" let ?d = "sm_data ?s" let ?h = "unat (sm_head ?s)" and ?t = "unat (sm_tail ?s)"
  let ?n = "length msg + 4" and ?h' = "push_head p (sm_head ?s) msg"
  have qd: "queued ?d ?h ?t q" using assms by (simp add: ring_inv_def)
  have pd: "msg \<noteq> []" "length msg + 8 \<le> length ?d" "sm_capacity ?s = word_of_nat (length ?d)"
    "p = Append \<and> ?h + ?n + 4 \<le> length ?d \<and> (?h < ?t \<longrightarrow> ?h + ?n < ?t) \<and> lies ?d ?h (framed msg) \<or>
     p = Wrap \<and> ?t \<le> ?h \<and> ?n < ?t \<and> lies ?d ?h (to_le_bytes (- 1)) \<and> lies ?d 0 (framed msg)"
    using assms pr by (auto simp: ring_inv_def producing_def Let_def)
  have l: "length ?d \<le> 2 ^ 31" using qd by (simp add: queued_def)
  have total: "unat (4 + word_of_nat (length msg) :: u32) = ?n" using pd(2) l unat_add [of 4 "word_of_nat (length msg)"] by (simp add: unat_of_nat)
  have new: "queued ?d (unat ?h') ?t (q @ [msg]) \<and> live (length ?d) ?h ?t \<subseteq> live (length ?d) (unat ?h') ?t"
    using pd(4)
  proof
    assume a: "p = Append \<and> ?h + ?n + 4 \<le> length ?d \<and> (?h < ?t \<longrightarrow> ?h + ?n < ?t) \<and> lies ?d ?h (framed msg)"
    then have "unat ?h' = ?h + ?n" using total l unat_add [of "sm_head ?s" "4 + word_of_nat (length msg)"] by (simp add: push_head_def Let_def)
    then show ?thesis using a publish_queued(1) [OF qd pd(1,2)] by (auto simp: live_def)
  next
    assume a: "p = Wrap \<and> ?t \<le> ?h \<and> ?n < ?t \<and> lies ?d ?h (to_le_bytes (- 1)) \<and> lies ?d 0 (framed msg)"
    then have "unat ?h' = ?n" using total by (simp add: push_head_def Let_def)
    moreover have "?h \<le> length ?d" using qd by (simp add: queued_def)
    ultimately show ?thesis using a publish_queued(2) [OF qd pd(1,2)] by (auto simp: live_def)
  qed
  then have "consuming (?s\<lparr>sm_head := ?h'\<rparr>) (rs_consumer y) out (q @ [msg]) (rs_received y)"
    using assms by (fastforce simp: ring_inv_def consuming_def split: consumer.splits)
  then have "ring_inv (y\<lparr>rs_seg := ?s\<lparr>sm_head := ?h'\<rparr>, rs_producer := Idle, rs_accepted := rs_accepted y @ [msg]\<rparr>) out (q @ [msg])"
    using assms new pd(3) by (simp add: ring_inv_def producing_def)
  then show ?thesis using pr by auto
next
  case False
  then have "ring_step Publish y = Some y" by (auto split: producer.split list.split)
  then show ?thesis using assms by auto
qed

lemma queued_empty: "queued d h t q \<Longrightarrow> h = t \<longleftrightarrow> q = []"
  by (cases q) (auto simp: queued_def unwrapped_def wrapped_def)

lemma pull_empty: "sm_head s = sm_tail s \<Longrightarrow> shmem_ring_pull s = Some None"
  by (auto simp: shmem_ring_pull_def split: option.split)

lemma load_inv:
  assumes "ring_inv y out q" shows "\<exists>y'. ring_step LoadHead y = Some y' \<and> ring_inv y' out q"
proof -
  have "queued (sm_data (rs_seg y)) (unat (sm_head (rs_seg y))) (unat (sm_tail (rs_seg y))) q" using assms by (simp add: ring_inv_def)
  from queued_empty [OF this] have "sm_head (rs_seg y) \<noteq> sm_tail (rs_seg y) \<longrightarrow> q \<noteq> []" by (metis unsigned_word_eqI)
  then show ?thesis using assms by (auto simp: ring_inv_def consuming_def split: consumer.splits)
qed

lemma pull_inv:
  assumes "ring_inv y out q" shows "\<exists>y'. ring_step Pull y = Some y' \<and> ring_inv y' out q"
proof (cases "rs_consumer y")
  case (Loaded h)
  let ?s = "(rs_seg y)\<lparr>sm_head := h\<rparr>"
  show ?thesis
  proof (cases "h = sm_tail (rs_seg y)")
    case True
    then have "shmem_ring_pull ?s = Some None" by (simp add: pull_empty)
    then show ?thesis using assms Loaded by (auto simp: ring_inv_def consuming_def)
  next
    case False
    then obtain m q' where q: "q = m # q'" using assms Loaded by (cases q) (auto simp: ring_inv_def consuming_def)
    then have "queued (sm_data ?s) (unat (sm_head (rs_seg y))) (unat (sm_tail ?s)) (m # q')" "sm_capacity ?s = word_of_nat (length (sm_data ?s))"
      using assms by (auto simp: ring_inv_def)
    from pull_first [OF this] False obtain a where
      "first_at (sm_data ?s) (unat (sm_head (rs_seg y))) (unat (sm_tail ?s)) m a" "shmem_ring_pull ?s = Some (Some (a + 4, word_of_nat (length m)))" by auto
    then show ?thesis using assms Loaded q by (auto simp: ring_inv_def consuming_def first_at_def framed_def lies_append)
  qed
qed (use assms in auto)

lemma copy_inv:
  assumes "ring_inv y out q" shows "\<exists>y'. ring_step Copy y = Some y' \<and> ring_inv y' out q"
proof (cases "rs_consumer y")
  case (Holding off len)
  then obtain m q' where q: "q = m # q'" "len = word_of_nat (length m)" "lies (sm_data (rs_seg y)) off m" "rs_received y = out"
    using assms by (auto simp: ring_inv_def consuming_def)
  have "length m + 8 \<le> length (sm_data (rs_seg y))" "length (sm_data (rs_seg y)) \<le> 2 ^ 31" using assms q(1) by (auto simp: ring_inv_def queued_def)
  then have "unat len = length m" unfolding q(2) by (rule length_word)
  then have "slice off (unat len) (sm_data (rs_seg y)) = Some m" using lies_slice [OF q(3)] by simp
  then show ?thesis using assms Holding q by (auto simp: ring_inv_def consuming_def)
qed (use assms in auto)

lemma tail_moves:
  "live c h t' \<subseteq> live c h t \<Longrightarrow> t' < c \<Longrightarrow> h < c \<Longrightarrow> (t \<le> h \<longrightarrow> t \<le> t' \<and> t' \<le> h) \<and> (h < t \<longrightarrow> t' \<le> h \<or> t \<le> t')"
  by (cases "t' < h"; cases "t' = h"; cases "t \<le> h") (auto simp: live_def)

lemma producing_tail:
  assumes "producing s pr" and "live (length (sm_data s)) (unat (sm_head s)) (unat t') \<subseteq> live (length (sm_data s)) (unat (sm_head s)) (unat (sm_tail s))"
    and "unat t' < length (sm_data s)" and "unat (sm_head s) < length (sm_data s)"
  shows "producing (s\<lparr>sm_tail := t'\<rparr>) pr"
proof (cases pr)
  case (Writing p msg todo)
  note m = tail_moves [OF assms(2-4)]
  have "fst ` set todo \<inter> live (length (sm_data s)) (unat (sm_head s)) (unat t') = {}" using assms(1,2) Writing by (auto simp: producing_def Let_def)
  then show ?thesis using assms(1) m Writing by (auto simp: producing_def Let_def)
qed (simp add: producing_def)

lemma commit_inv:
  assumes "ring_inv y out q" shows "\<exists>y' out' q'. ring_step Commit y = Some y' \<and> ring_inv y' out' q'"
proof (cases "rs_consumer y")
  case Copied
  let ?s = "rs_seg y"
  obtain m q' where q: "q = m # q'" "rs_received y = out @ [m]" using assms Copied by (auto simp: ring_inv_def consuming_def)
  have i: "queued (sm_data ?s) (unat (sm_head ?s)) (unat (sm_tail ?s)) (m # q')" "sm_capacity ?s = word_of_nat (length (sm_data ?s))" "producing ?s (rs_producer y)"
    using assms q by (auto simp: ring_inv_def)
  then have "sm_head ?s \<noteq> sm_tail ?s" using queued_empty by fastforce
  from pull_first [OF i(1,2) this] obtain a t' where
    a: "first_at (sm_data ?s) (unat (sm_head ?s)) (unat (sm_tail ?s)) m a" "unat t' = a + (length m + 4)" "shmem_ring_commit ?s = Some (?s\<lparr>sm_tail := t'\<rparr>)" "queued (sm_data ?s) (unat (sm_head ?s)) (unat t') q'" by blast
  have "producing (?s\<lparr>sm_tail := t'\<rparr>) (rs_producer y)"
    using producing_tail [OF i(3)] a(1,2,4) i(1) by (auto simp: first_at_def queued_def)
  then have "ring_inv (y\<lparr>rs_seg := ?s\<lparr>sm_tail := t'\<rparr>, rs_consumer := Waiting\<rparr>) (out @ [m]) q'"
    using assms q a(4) i(2) by (auto simp: ring_inv_def consuming_def)
  then show ?thesis using a(3) Copied by auto
qed (use assms in auto)

fun usable :: "ring_op \<Rightarrow> bool" where
  "usable (Begin msg) = (msg \<noteq> [] \<and> length msg + 4 < 2 ^ 32)"
| "usable _ = True"

lemma step_inv: "ring_inv y out q \<Longrightarrow> usable op \<Longrightarrow> \<exists>y' out' q'. ring_step op y = Some y' \<and> ring_inv y' out' q'"
  using begin_inv write_inv publish_inv load_inv pull_inv copy_inv commit_inv by (cases op) (fastforce simp del: ring_step.simps(2-))+

lemma run_inv: "ring_inv y out q \<Longrightarrow> list_all usable ops \<Longrightarrow> \<exists>y' out' q'. ring_run ops y = Some y' \<and> ring_inv y' out' q'"
proof (induction ops arbitrary: y out q)
  case (Cons op ops)
  obtain y1 out1 q1 where "ring_step op y = Some y1" "ring_inv y1 out1 q1" using step_inv [OF Cons.prems(1), of op] Cons.prems(2) by auto
  then show ?case using Cons.IH [of y1 out1 q1] Cons.prems(2) by auto
qed auto

lemma new_ring_inv: "16 \<le> length d \<Longrightarrow> length d \<le> 2 ^ 31 \<Longrightarrow> ring_inv (new_ring d) [] []"
  by (simp add: ring_inv_def new_ring_def producing_def consuming_def queued_def unwrapped_def lies_def)

lemma received_prefix: "ring_inv y out q \<Longrightarrow> prefix (rs_received y) (rs_accepted y)"
  by (auto simp: ring_inv_def consuming_def split: consumer.splits)

lemma receives_next:
  assumes "ring_inv y out q" and "rs_consumer y = Waiting" and "rs_received y \<noteq> rs_accepted y"
  shows "\<exists>m y'. ring_run [LoadHead, Pull, Copy, Commit] y = Some y' \<and> rs_received y' = rs_received y @ [m] \<and> prefix (rs_received y @ [m]) (rs_accepted y)"
proof -
  let ?s = "rs_seg y"
  obtain m q' where q: "q = m # q'" "rs_received y = out" using assms by (cases q) (auto simp: ring_inv_def consuming_def)
  have i: "queued (sm_data ?s) (unat (sm_head ?s)) (unat (sm_tail ?s)) (m # q')" "sm_capacity ?s = word_of_nat (length (sm_data ?s))" "rs_accepted y = out @ m # q'"
    using assms q by (auto simp: ring_inv_def)
  then have "sm_head ?s \<noteq> sm_tail ?s" using queued_empty by fastforce
  from pull_first [OF i(1,2) this] obtain a t' where
    a: "first_at (sm_data ?s) (unat (sm_head ?s)) (unat (sm_tail ?s)) m a" "shmem_ring_pull ?s = Some (Some (a + 4, word_of_nat (length m)))" "shmem_ring_commit ?s = Some (?s\<lparr>sm_tail := t'\<rparr>)" by blast
  have "length m + 8 \<le> length (sm_data ?s)" "length (sm_data ?s) \<le> 2 ^ 31" using i(1) by (auto simp: queued_def)
  then have n: "unat (word_of_nat (length m) :: u32) = length m" by (rule length_word)
  have "lies (sm_data ?s) (a + 4) m" using a(1) by (auto simp: first_at_def framed_def lies_append)
  from lies_slice [OF this] have "slice (a + 4) (length m) (sm_data ?s) = Some m" by simp
  then show ?thesis using a(2,3) n assms(2) q(2) i(3) by auto
qed

text \<open>
  C4: The ring is a FIFO queue between two processes. For a data area of 16 bytes to 2 GiB and
  messages that are not empty and whose length fits the length field, run any interleaving of
  the producer (reading head and tail, writing the frame byte by byte, publishing the new head)
  with the consumer (loading the head, pulling, copying the bytes out, committing the tail). No
  step leaves the data area, the messages received are, in order and byte for byte, the first of
  the messages accepted, and whenever the consumer is waiting and something accepted has not been
  received, one pull, copy and commit receives exactly the next one.
\<close>
theorem ring_fifo:
  assumes "16 \<le> length d" and "length d \<le> 2 ^ 31" and "list_all usable ops"
  shows "\<exists>y. ring_run ops (new_ring d) = Some y \<and> prefix (rs_received y) (rs_accepted y) \<and>
    (rs_consumer y = Waiting \<and> rs_received y \<noteq> rs_accepted y \<longrightarrow>
       (\<exists>m y'. ring_run [LoadHead, Pull, Copy, Commit] y = Some y' \<and> rs_received y' = rs_received y @ [m] \<and> prefix (rs_received y @ [m]) (rs_accepted y)))"
  using run_inv [OF new_ring_inv [OF assms(1,2)] assms(3)] received_prefix receives_next by blast

theorem ring_fifo_witness:
  "\<exists>y. ring_run (Begin [7, 9] # replicate 6 WriteByte @ [LoadHead, Publish]) (new_ring (replicate 16 0)) = Some y \<and> prefix (rs_received y) (rs_accepted y)"
proof -
  have "list_all usable (Begin [7, 9] # replicate 6 WriteByte @ [LoadHead, Publish])" by (simp add: list_all_iff)
  from ring_fifo [OF _ _ this, of "replicate 16 0"] show ?thesis by auto
qed

section \<open>A whole push\<close>

text \<open>Without a consumer in between, the steps of the producer are \<open>push\<close>.\<close>

definition holds :: "segment \<Rightarrow> octets list \<Rightarrow> bool" where
  "holds s q \<longleftrightarrow> (q \<noteq> [] \<longrightarrow> sm_capacity s = word_of_nat (length (sm_data s))) \<and> queued (sm_data s) (unat (sm_head s)) (unat (sm_tail s)) q"

lemma copy_is_written: "a + length bs \<le> length d \<Longrightarrow> take a d @ bs @ drop (a + length bs) d = written (placed a bs) d"
proof (rule nth_equalityI)
  fix i assume a: "a + length bs \<le> length d" and i: "i < length (take a d @ bs @ drop (a + length bs) d)"
  show "(take a d @ bs @ drop (a + length bs) d) ! i = written (placed a bs) d ! i"
  proof (cases "i \<in> {a..<a + length bs}")
    case True
    then obtain j where "i = a + j" "j < length bs" using le_Suc_ex by fastforce
    then have "written (placed a bs) d ! i = bs ! (i - a)" using written_placed [OF a] by (simp add: lies_def)
    moreover have "i - a < length bs" using True by auto
    ultimately show ?thesis using True a by (simp add: nth_append)
  next
    case False
    then have "written (placed a bs) d ! i = d ! i" by (simp add: written_other)
    then show ?thesis using False a i by (auto simp: nth_append)
  qed
qed simp

lemma copy_all_written: "list_all (\<lambda>(a, n, bs). n = length bs \<and> a + n \<le> length d) ws \<Longrightarrow> copy_all ws d = Some (written (single_bytes ws) d)"
proof (induction ws arbitrary: d)
  case (Cons w ws)
  obtain a n bs where w: "w = (a, n, bs)" by (cases w)
  then have c: "copy_from_slice a n bs d = Some (written (placed a bs) d)" using Cons.prems copy_is_written [of a bs d] by (simp add: copy_from_slice_def)
  then show ?case using Cons.IH [of "written (placed a bs) d"] Cons.prems w by simp
qed simp

lemma writes_run:
  "rs_producer y = Writing p msg todo \<Longrightarrow> fst ` set todo \<subseteq> {..<length (sm_data (rs_seg y))} \<Longrightarrow>
   ring_run (replicate (length todo) WriteByte) y = Some (y\<lparr>rs_seg := (rs_seg y)\<lparr>sm_data := written todo (sm_data (rs_seg y))\<rparr>, rs_producer := Writing p msg []\<rparr>)"
proof (induction todo arbitrary: y)
  case (Cons w todo)
  obtain a b where w: "w = (a, b)" by (cases w)
  let ?y = "y\<lparr>rs_seg := (rs_seg y)\<lparr>sm_data := (sm_data (rs_seg y))[a := b]\<rparr>, rs_producer := Writing p msg todo\<rparr>"
  have "ring_step WriteByte y = Some ?y" using Cons.prems w by simp
  then show ?case using Cons.IH [of ?y] Cons.prems w by simp
qed simp

lemma ring_run_append: "ring_run (xs @ ys) y = ring_run xs y \<bind> ring_run ys"
  by (induction xs arbitrary: y) (auto split: Option.bind_split)

lemma push_run:
  assumes i: "ring_inv y out q" and y: "rs_producer y = Idle" and m: "msg \<noteq> []" "length msg + 4 < 2 ^ 32"
  shows "\<exists>k s1 ok y'. ring_run (Begin msg # replicate k WriteByte @ [Publish]) y = Some y' \<and> ring_new (rs_seg y) = Some s1 \<and>
    push msg s1 = Some (ok, rs_seg y') \<and> rs_accepted y' = rs_accepted y @ (if ok then [msg] else []) \<and> rs_producer y' = Idle"
proof -
  let ?s = "(rs_seg y)\<lparr>sm_capacity := word_of_nat (length (sm_data (rs_seg y)))\<rparr>"
  let ?p = "plan_push (sm_capacity ?s) (sm_head ?s) (sm_tail ?s) (word_of_nat (length msg))" and ?b = "begin_push msg y"
  let ?ws = "push_writes ?p (sm_head ?s) msg"
  have qd: "queued (sm_data ?s) (unat (sm_head ?s)) (unat (sm_tail ?s)) q" using i by (simp add: ring_inv_def)
  then have s: "ring_new (rs_seg y) = Some ?s" "length (sm_data ?s) \<le> 2 ^ 31" by (auto simp: ring_new_def queued_def)
  show ?thesis
  proof (cases "?p = Refuse")
    case True
    then have "?b = y\<lparr>rs_seg := ?s\<rparr>" "push msg ?s = Some (False, ?s)" using s y by (auto simp: begin_push_def push_def Let_def push_writes_def push_head_def)
    then show ?thesis using s y by (intro exI [of _ 0]) auto
  next
    case False
    let ?todo = "single_bytes ?ws"
    have b: "?b = y\<lparr>rs_seg := ?s, rs_producer := Writing ?p msg ?todo\<rparr>" using s y False by (simp add: begin_push_def Let_def)
    note f = plan_facts [OF qd _ m(2) refl False, simplified]
    have "producing ?s (Writing ?p msg ?todo)" using begin_inv [OF i m] unfolding b by (simp add: ring_inv_def)
    then have w: "ring_run (replicate (length ?todo) WriteByte) ?b = Some (?b\<lparr>rs_seg := ?s\<lparr>sm_data := written ?todo (sm_data ?s)\<rparr>, rs_producer := Writing ?p msg []\<rparr>)"
      unfolding b by (subst writes_run) (auto simp: producing_def Let_def)
    have n: "unat (word_of_nat (length msg) :: u32) = length msg" using length_word [of msg] f(1) s(2) by simp
    have "unat (sm_head ?s) + 4 \<le> length (sm_data ?s)" using qd by (simp add: queued_def)
    then have "list_all (\<lambda>(a, n, bs). n = length bs \<and> a + n \<le> length (sm_data ?s)) ?ws"
      using f n False by (cases ?p) (auto simp: push_writes_def)
    then have "push msg ?s = Some (True, ?s\<lparr>sm_data := written ?todo (sm_data ?s), sm_head := push_head ?p (sm_head ?s) msg\<rparr>)"
      using False by (simp add: push_def Let_def copy_all_written)
    then show ?thesis using w s(1) b by (intro exI [of _ "length ?todo"]) (auto simp: ring_run_append)
  qed
qed

lemma push_holds:
  assumes "holds s q" and m: "msg \<noteq> []" "length msg + 4 < 2 ^ 32"
  shows "\<exists>s1 ok s2. ring_new s = Some s1 \<and> push msg s1 = Some (ok, s2) \<and> holds s2 (if ok then q @ [msg] else q)"
proof -
  let ?y = "\<lparr>rs_seg = s, rs_producer = Idle, rs_consumer = Waiting, rs_accepted = q, rs_received = []\<rparr>"
  have i: "ring_inv ?y [] q" using assms(1) by (simp add: ring_inv_def holds_def producing_def consuming_def)
  from push_run [OF i _ m] obtain k s1 ok y' where
    r: "ring_run (Begin msg # replicate k WriteByte @ [Publish]) ?y = Some y'" "ring_new s = Some s1" "push msg s1 = Some (ok, rs_seg y')" "rs_accepted y' = q @ (if ok then [msg] else [])" by auto
  have "\<exists>q'. ring_run ops y = Some y' \<longrightarrow> ring_inv y' [] q'" if "ring_inv y [] q" "list_all usable ops" "list_all (\<lambda>op. op \<noteq> Commit) ops" for ops y y' q
    using that
  proof (induction ops arbitrary: y q)
    case (Cons op ops)
    then have "\<exists>y1 q1. ring_step op y = Some y1 \<and> ring_inv y1 [] q1"
      using begin_inv write_inv publish_inv load_inv pull_inv copy_inv by (cases op) (fastforce simp del: ring_step.simps(2-))+
    then show ?case using Cons by fastforce
  qed auto
  from this [OF i, of "Begin msg # replicate k WriteByte @ [Publish]"] obtain q' where "ring_inv y' [] q'" using r(1) m by (auto simp: list_all_iff)
  then show ?thesis using r by (auto simp: ring_inv_def holds_def)
qed

end
