(* ===== verification/Ipc_Bridge.thy ===== *)
theory Ipc_Bridge
  imports Ipc_Ring
begin

text \<open>
  What the two ends of the shared memory do with the bytes: the obfuscation \<open>fast_morph\<close> and the command slot of agents/cts_sec/src/lib.rs, the
  \<open>IpcManager\<close> of agents/cts_ipc/src/lib.rs, \<open>IpcFfiBridge\<close> of infrastructure/runtime/ipc_ffi_bridge.ts with its library loaded, and the loop of
  infrastructure/runtime/sidecar_manager.ts that empties a ring. MessagePack and Ed25519 are parameters.
\<close>

unbundle bit_operations_syntax

section \<open>Obfuscation\<close>

text \<open>The loop \<open>data[i] ^= key[i % key_len]\<close>.\<close>

definition rolling :: "octets \<Rightarrow> octets \<Rightarrow> octets" where
  "rolling key data = map (\<lambda>i. data ! i XOR key ! (i mod length key)) [0..<length data]"

text \<open>\<open>chunks_exact_mut(w)\<close>: each chunk with one vector of the key, then the remainder.\<close>

function xor_chunks :: "nat \<Rightarrow> octets \<Rightarrow> octets \<Rightarrow> octets" where
  "xor_chunks w key data =
    (if 0 < w \<and> w \<le> length data then map2 (XOR) (take w data) (take w key) @ xor_chunks w key (drop w data) else rolling key data)"
  by pat_completeness auto
termination by (relation "measure (\<lambda>(w, key, data). length data)") auto

declare xor_chunks.simps [simp del]

definition xor_avx2 :: "octets \<Rightarrow> octets \<Rightarrow> octets" where
  "xor_avx2 data key = xor_chunks 32 key data"

definition xor_neon :: "octets \<Rightarrow> octets \<Rightarrow> octets" where
  "xor_neon data key = xor_chunks 16 key data"

text \<open>The architecture the library is built for, and on x86-64 whether AVX2 is detected.\<close>

datatype target = X86_64 bool | Aarch64 | Other_target

definition fast_morph :: "target \<Rightarrow> octets \<Rightarrow> octets \<Rightarrow> octets" where
  "fast_morph cpu data key =
    (if key = [] then data
     else case cpu of
       X86_64 avx2 \<Rightarrow> if avx2 \<and> length key = 32 then xor_avx2 data key else rolling key data
     | Aarch64 \<Rightarrow> if length key = 16 then xor_neon data key else rolling key data
     | Other_target \<Rightarrow> rolling key data)"

section \<open>The command slot\<close>

text \<open>A segment of bytes: four for the length, four unused, the command. The results of \<open>shmem_read\<close> below zero are \<open>Inl\<close>.\<close>

definition slot_len :: "octets \<Rightarrow> nat" where
  "slot_len slot = unat (from_le_bytes (take 4 slot))"

definition put :: "nat \<Rightarrow> octets \<Rightarrow> octets \<Rightarrow> octets" where
  "put a bs d = take a d @ bs @ drop (a + length bs) d"

definition shmem_read :: "nat \<Rightarrow> octets \<Rightarrow> (int + octets) \<times> octets" where
  "shmem_read max_len slot =
    (if length slot < 8 then (Inl (- 2), slot)
     else let len = slot_len slot
       in if len = 0 then (Inr [], slot)
          else if len > max_len \<or> len > length slot - 8 then (Inl (- 3), slot)
          else (Inr (take len (drop 8 slot)), put 0 (to_le_bytes 0) slot))"

definition shmem_write :: "octets \<Rightarrow> octets \<Rightarrow> bool \<times> octets" where
  "shmem_write data slot =
    (if length slot < 8 \<or> length data + 8 > length slot then (False, slot)
     else if slot_len slot \<noteq> 0 then (False, slot)
     else (True, put 0 (to_le_bytes (word_of_nat (length data))) (put 8 data slot)))"

section \<open>The agent\<close>

record 'k ipc_manager =
  im_shmem :: "segment option"
  im_cmd_shmem :: "octets option"
  im_obfuscation_key :: "octets option"
  im_signing_key :: "'k option"

definition obfuscate :: "octets option \<Rightarrow> octets \<Rightarrow> octets" where
  "obfuscate obfuscation_key buf = (case obfuscation_key of Some key \<Rightarrow> if key \<noteq> [] then rolling key buf else buf | None \<Rightarrow> buf)"

text \<open>The bytes \<open>emit_event\<close> pushes for a serialised event: signed if there is a key, then obfuscated.\<close>

definition sealed :: "('k \<Rightarrow> octets \<Rightarrow> octets) \<Rightarrow> 'k ipc_manager \<Rightarrow> octets \<Rightarrow> octets" where
  "sealed sign im buf = obfuscate (im_obfuscation_key im) (case im_signing_key im of Some key \<Rightarrow> sign key buf @ buf | None \<Rightarrow> buf)"

definition emit_event :: "('e \<Rightarrow> octets option) \<Rightarrow> ('k \<Rightarrow> octets \<Rightarrow> octets) \<Rightarrow> 'e \<Rightarrow> 'k ipc_manager \<Rightarrow> (bool \<times> 'k ipc_manager) option" where
  "emit_event serialize sign event im =
    (case im_shmem im of None \<Rightarrow> Some (False, im)
     | Some s \<Rightarrow> (case serialize event of None \<Rightarrow> Some (False, im)
       | Some buf \<Rightarrow> (case ring_new s of None \<Rightarrow> Some (False, im)
         | Some ring \<Rightarrow> map_option (\<lambda>(ok, s'). (ok, im\<lparr>im_shmem := Some s'\<rparr>)) (push (sealed sign im buf) ring))))"

fun emit_all :: "('e \<Rightarrow> octets option) \<Rightarrow> ('k \<Rightarrow> octets \<Rightarrow> octets) \<Rightarrow> 'e list \<Rightarrow> 'k ipc_manager \<Rightarrow> (bool list \<times> 'k ipc_manager) option" where
  "emit_all serialize sign [] im = Some ([], im)"
| "emit_all serialize sign (e # es) im =
    emit_event serialize sign e im \<bind> (\<lambda>(ok, im'). map_option (\<lambda>(oks, im''). (ok # oks, im'')) (emit_all serialize sign es im'))"

definition poll_command :: "(octets \<Rightarrow> 'c option) \<Rightarrow> 'k ipc_manager \<Rightarrow> 'c option \<times> 'k ipc_manager" where
  "poll_command from_slice im =
    (case im_cmd_shmem im of None \<Rightarrow> (None, im)
     | Some slot \<Rightarrow>
        if length slot < 8 then (None, im)
        else let current_len = slot_len slot; cleared = im\<lparr>im_cmd_shmem := Some (put 0 (to_le_bytes 0) slot)\<rparr>
          in if current_len > 0 then
               (if current_len + 8 \<le> length slot
                then (from_slice (obfuscate (im_obfuscation_key im) (take current_len (drop 8 slot))), cleared)
                else (None, cleared))
             else (None, im))"

section \<open>The orchestrator\<close>

definition demask :: "target \<Rightarrow> octets option \<Rightarrow> octets \<Rightarrow> octets" where
  "demask cpu obfuscationKey view = (case obfuscationKey of Some key \<Rightarrow> if key \<noteq> [] then fast_morph cpu view key else view | None \<Rightarrow> view)"

text \<open>What is read out of a message: \<^const>\<open>None\<close> if its signature is wrong or it cannot be decoded.\<close>

definition open_message :: "target \<Rightarrow> (octets \<Rightarrow> string option) \<Rightarrow> (octets \<Rightarrow> octets \<Rightarrow> octets \<Rightarrow> bool) \<Rightarrow> octets option \<Rightarrow> octets option \<Rightarrow> octets \<Rightarrow> string option" where
  "open_message cpu deserialize_msgpack verify_ed25519 obfuscationKey agentPublicKey bytes =
    (let view = demask cpu obfuscationKey bytes
     in case agentPublicKey of
          Some pk \<Rightarrow>
            if length pk = 32 \<and> length view > 64
            then (if verify_ed25519 pk (take 64 view) (drop 64 view) then deserialize_msgpack (drop 64 view) else None)
            else deserialize_msgpack view
        | None \<Rightarrow> deserialize_msgpack view)"

definition pullRingEvent :: "target \<Rightarrow> (octets \<Rightarrow> string option) \<Rightarrow> (octets \<Rightarrow> octets \<Rightarrow> octets \<Rightarrow> bool) \<Rightarrow> octets option \<Rightarrow> octets option \<Rightarrow> segment
    \<Rightarrow> (string option \<times> segment) option" where
  "pullRingEvent cpu deserialize_msgpack verify_ed25519 obfuscationKey agentPublicKey s =
    shmem_ring_pull s \<bind> (\<lambda>msg. case msg of
      None \<Rightarrow> Some (None, s)
    | Some (off, len) \<Rightarrow>
        if len = 0 then Some (None, s)
        else slice off (unat len) (sm_data s) \<bind> (\<lambda>bytes.
          map_option (Pair (open_message cpu deserialize_msgpack verify_ed25519 obfuscationKey agentPublicKey bytes)) (shmem_ring_commit s)))"

text \<open>The loop \<open>while ((jsonStr = pullRingEvent(...)) !== null) handleIpcLine(name, jsonStr)\<close>: the lines handled; \<^const>\<open>None\<close> if it never ends.\<close>

partial_function (option) drain :: "('s \<Rightarrow> (string option \<times> 's) option) \<Rightarrow> 's \<Rightarrow> (string list \<times> 's) option" where
  "drain pull s = pull s \<bind> (\<lambda>(r, s'). case r of None \<Rightarrow> Some ([], s') | Some j \<Rightarrow> drain pull s' \<bind> (\<lambda>(js, s''). Some (j # js, s'')))"

definition readShmem :: "target \<Rightarrow> (octets \<Rightarrow> string option) \<Rightarrow> nat \<Rightarrow> octets option \<Rightarrow> octets \<Rightarrow> string option \<times> octets" where
  "readShmem cpu deserialize_msgpack max_size obfuscationKey slot =
    (case shmem_read max_size slot of
       (Inr out, slot') \<Rightarrow> if out = [] then (None, slot') else (deserialize_msgpack (demask cpu obfuscationKey out), slot')
     | (Inl _, slot') \<Rightarrow> (None, slot'))"

definition writeShmem :: "target \<Rightarrow> octets \<Rightarrow> octets option \<Rightarrow> octets \<Rightarrow> bool \<times> octets" where
  "writeShmem cpu data obfuscationKey slot = shmem_write (demask cpu obfuscationKey data) slot"

section \<open>The obfuscation is one schedule\<close>

lemma length_rolling [simp]: "length (rolling key data) = length data"
  by (simp add: rolling_def)

lemma nth_rolling [simp]: "i < length data \<Longrightarrow> rolling key data ! i = data ! i XOR key ! (i mod length key)"
  by (simp add: rolling_def)

lemma rolling_rolling [simp]: "rolling key (rolling key data) = data"
  by (rule nth_equalityI) (auto simp: xor.assoc)

lemma rolling_chunk:
  assumes "length key = w" and "0 < w" and "w \<le> length data"
  shows "rolling key data = map2 (XOR) (take w data) (take w key) @ rolling key (drop w data)"
proof (rule nth_equalityI)
  fix i assume i: "i < length (rolling key data)"
  show "rolling key data ! i = (map2 (XOR) (take w data) (take w key) @ rolling key (drop w data)) ! i"
  proof (cases "i < w")
    case False
    then have "(i - w) mod w = i mod w" by (simp add: mod_if [of i])
    then show ?thesis using i assms False by (simp add: nth_append)
  qed (use i assms in \<open>simp add: nth_append\<close>)
qed (use assms in simp)

lemma xor_chunks_rolling: "length key = w \<Longrightarrow> xor_chunks w key data = rolling key data"
proof (induction w key data rule: xor_chunks.induct)
  case (1 w key data)
  then show ?case using rolling_chunk [of key w data] by (subst xor_chunks.simps) auto
qed

lemma morph_rolling: "fast_morph cpu data key = (if key = [] then data else rolling key data)"
  by (auto simp: fast_morph_def xor_avx2_def xor_neon_def xor_chunks_rolling split: target.split)

lemma demask_obfuscate: "demask cpu k bytes = obfuscate k bytes"
  by (auto simp: demask_def obfuscate_def morph_rolling split: option.split)

lemma obfuscate_twice [simp]: "obfuscate k (obfuscate k buf) = buf" "length (obfuscate k buf) = length buf"
  by (auto simp: obfuscate_def split: option.split)

text \<open>
  C33: the vectorised obfuscation is the scalar one. On every architecture, with and without AVX2, and for every key length, \<open>fast_morph\<close> applies the
  schedule \<open>data[i] ^= key[i % key_len]\<close> (an empty key changes nothing), so what is masked on one architecture with any key is unmasked on any other.
\<close>

theorem fast_morph_rolling:
  "fast_morph cpu data key = (if key = [] then data else rolling key data) \<and> fast_morph cpu (fast_morph cpu' data key) key = data"
  by (simp add: morph_rolling)

section \<open>Events\<close>

lemma pull_holds:
  assumes "holds s (m # q)"
  shows "\<exists>s'. pullRingEvent cpu des ver k pk s = Some (open_message cpu des ver k pk m, s') \<and> holds s' q"
proof -
  have i: "queued (sm_data s) (unat (sm_head s)) (unat (sm_tail s)) (m # q)" "sm_capacity s = word_of_nat (length (sm_data s))" using assms by (auto simp: holds_def)
  then have "sm_head s \<noteq> sm_tail s" using queued_empty by fastforce
  from pull_first [OF i this] obtain a t' where
    a: "first_at (sm_data s) (unat (sm_head s)) (unat (sm_tail s)) m a" "shmem_ring_pull s = Some (Some (a + 4, word_of_nat (length m)))"
      "shmem_ring_commit s = Some (s\<lparr>sm_tail := t'\<rparr>)" "queued (sm_data s) (unat (sm_head s)) (unat t') q" by blast
  have m: "m \<noteq> []" "length m + 8 \<le> length (sm_data s)" "length (sm_data s) \<le> 2 ^ 31" using i(1) by (auto simp: queued_def)
  then have n: "unat (word_of_nat (length m) :: u32) = length m" using length_word by blast
  then have n0: "(word_of_nat (length m) :: u32) \<noteq> 0" using m(1) by auto
  have "lies (sm_data s) (a + 4) m" using a(1) by (auto simp: first_at_def framed_def lies_append)
  from lies_slice [OF this] have "slice (a + 4) (length m) (sm_data s) = Some m" by simp
  then show ?thesis using a(2-4) n n0 i(2) by (auto simp: pullRingEvent_def holds_def)
qed

lemma pull_nothing:
  assumes "holds s []" shows "pullRingEvent cpu des ver k pk s = Some (None, s)"
proof -
  have "unat (sm_head s) = unat (sm_tail s)" using assms queued_empty by (fastforce simp: holds_def)
  then have "sm_head s = sm_tail s" by (rule unsigned_word_eqI)
  then show ?thesis by (simp add: pullRingEvent_def pull_empty)
qed

text \<open>
  What the loop needs of a source of events: a pull opens the oldest message and removes it, and gives nothing if there is none. The loop then handles
  the messages up to the first one that is rejected or cannot be decoded, and leaves those behind it.
\<close>

locale event_source =
  fixes holding :: "'s \<Rightarrow> octets list \<Rightarrow> bool" and pull :: "'s \<Rightarrow> (string option \<times> 's) option" and opened :: "octets \<Rightarrow> string option"
  assumes pull_oldest: "holding s (m # q) \<Longrightarrow> \<exists>s'. pull s = Some (opened m, s') \<and> holding s' q"
    and pull_none: "holding s [] \<Longrightarrow> pull s = Some (None, s)"
begin

lemma drain_until:
  "holding s q \<Longrightarrow> \<exists>s'. drain pull s = Some (map (the \<circ> opened) (takeWhile (\<lambda>m. opened m \<noteq> None) q), s') \<and>
    holding s' (drop (Suc (length (takeWhile (\<lambda>m. opened m \<noteq> None) q))) q)"
proof (induction q arbitrary: s)
  case Nil
  then show ?case using pull_none by (subst drain.simps) simp
next
  case (Cons m q)
  obtain s' where s': "pull s = Some (opened m, s')" "holding s' q" using pull_oldest [OF Cons.prems] by blast
  show ?case
  proof (cases "opened m")
    case None
    then show ?thesis using s' by (subst drain.simps) simp
  next
    case (Some j)
    then show ?thesis using s' Cons.IH [OF s'(2)] by (subst drain.simps) auto
  qed
qed

lemma drain_all:
  assumes "holding s q" and "\<forall>m \<in> set q. opened m = Some (f m)"
  shows "\<exists>s'. drain pull s = Some (map f q, s') \<and> holding s' []"
proof -
  have t: "takeWhile (\<lambda>m. opened m \<noteq> None) q = q" using assms(2) by (simp add: takeWhile_eq_all_conv)
  have e: "map (the \<circ> opened) q = map f q" using assms(2) by simp
  show ?thesis using drain_until [OF assms(1)] unfolding t e by simp
qed

end

interpretation ring: event_source holds "pullRingEvent cpu des ver k pk" "open_message cpu des ver k pk" for cpu des ver k pk
  by unfold_locales (auto intro: pull_holds pull_nothing)

text \<open>The two ends agree: an agent that signs has its public key registered, and an agent that does not sign has none.\<close>

definition keys_agree :: "('k \<Rightarrow> octets \<Rightarrow> octets) \<Rightarrow> (octets \<Rightarrow> octets \<Rightarrow> octets \<Rightarrow> bool) \<Rightarrow> 'k option \<Rightarrow> octets option \<Rightarrow> bool" where
  "keys_agree sign ver sk pk \<longleftrightarrow> (case sk of None \<Rightarrow> pk = None
     | Some key \<Rightarrow> \<exists>p. pk = Some p \<and> length p = 32 \<and> (\<forall>m. length (sign key m) = 64 \<and> ver p (sign key m) m))"

lemma open_sealed:
  "keys_agree sign ver (im_signing_key im) pk \<Longrightarrow> b \<noteq> [] \<Longrightarrow> open_message cpu des ver (im_obfuscation_key im) pk (sealed sign im b) = des b"
  by (auto simp: keys_agree_def sealed_def open_message_def demask_obfuscate Let_def split: option.splits)

lemma length_sealed:
  "keys_agree sign ver (im_signing_key im) pk \<Longrightarrow> length (sealed sign im b) \<le> length b + 64 \<and> (b \<noteq> [] \<longrightarrow> sealed sign im b \<noteq> [])"
proof -
  assume k: "keys_agree sign ver (im_signing_key im) pk"
  have "length (sealed sign im b) \<le> length b + 64" "length b \<le> length (sealed sign im b)" using k by (auto simp: keys_agree_def sealed_def split: option.splits)
  then show ?thesis by (auto simp flip: length_greater_0_conv)
qed

lemma emit_all_holds:
  assumes codec: "\<And>e. serialize e = Some (bytes e) \<and> bytes e \<noteq> [] \<and> length (bytes e) + 68 < 2 ^ 32"
    and "keys_agree sign ver (im_signing_key im) pk" and "im_shmem im = Some s" and "holds s q"
  shows "\<exists>oks s'. emit_all serialize sign es im = Some (oks, im\<lparr>im_shmem := Some s'\<rparr>) \<and> length oks = length es \<and>
    holds s' (q @ map (\<lambda>e. sealed sign im (bytes e)) (map fst (filter snd (zip es oks))))"
  using assms(2-)
proof (induction es arbitrary: im s q)
  case Nil
  then show ?case by (intro exI [of _ "[]"] exI [of _ s]) simp
next
  case (Cons e es)
  let ?m = "sealed sign im (bytes e)"
  have "?m \<noteq> []" "length ?m + 4 < 2 ^ 32" using codec [of e] length_sealed [OF Cons.prems(1), of "bytes e"] by auto
  from push_holds [OF Cons.prems(3) this] obtain s1 ok s2 where
    p: "ring_new s = Some s1" "push ?m s1 = Some (ok, s2)" "holds s2 (if ok then q @ [?m] else q)" by blast
  let ?im = "im\<lparr>im_shmem := Some s2\<rparr>"
  have e: "emit_event serialize sign e im = Some (ok, ?im)" using p(1,2) Cons.prems(2) codec [of e] by (simp add: emit_event_def)
  have same: "sealed sign ?im b = sealed sign im b" for b by (simp add: sealed_def)
  from Cons.IH [of ?im s2, OF _ _ p(3)] Cons.prems(1) obtain oks s' where
    "emit_all serialize sign es ?im = Some (oks, im\<lparr>im_shmem := Some s'\<rparr>)" "length oks = length es"
    "holds s' ((if ok then q @ [?m] else q) @ map (\<lambda>e. sealed sign im (bytes e)) (map fst (filter snd (zip es oks))))" unfolding same by auto
  then show ?case using e by (intro exI [of _ "ok # oks"] exI [of _ s']) (auto split: if_splits)
qed

text \<open>
  C14: the telemetry an agent emits arrives. Take a MessagePack codec that decodes what it encoded into something other than no bytes and less than
  4 GiB, a signature scheme whose signatures have 64 bytes and verify, and a fresh segment of 32 bytes to 2 GiB. Whatever the agent emits, signed or not,
  obfuscated or not, no call panics, and the loop of the orchestrator ends: it handles exactly the events that \<open>emit_event\<close> reported as written, decoded,
  in order and each once, and leaves the ring empty.
\<close>

theorem telemetry_roundtrip:
  assumes "\<And>e. serialize e = Some (bytes e) \<and> bytes e \<noteq> [] \<and> length (bytes e) + 68 < 2 ^ 32 \<and> deserialize (bytes e) = Some (json e)"
    and "keys_agree sign verify (im_signing_key im) pk"
    and "im_shmem im = Some \<lparr>sm_head = 0, sm_tail = 0, sm_capacity = 0, sm_data = d\<rparr>" and "16 \<le> length d" and "length d \<le> 2 ^ 31"
  shows "\<exists>oks im' s s'. emit_all serialize sign es im = Some (oks, im') \<and> length oks = length es \<and> im_shmem im' = Some s \<and>
    drain (pullRingEvent cpu deserialize verify (im_obfuscation_key im) pk) s = Some (map json (map fst (filter snd (zip es oks))), s') \<and> sm_head s' = sm_tail s'"
proof -
  let ?s = "\<lparr>sm_head = 0, sm_tail = 0, sm_capacity = 0, sm_data = d\<rparr>" let ?seal = "\<lambda>e. sealed sign im (bytes e)"
  have h: "holds ?s []" using assms(4,5) by (simp add: holds_def queued_def unwrapped_def lies_def)
  have c: "serialize e = Some (bytes e) \<and> bytes e \<noteq> [] \<and> length (bytes e) + 68 < 2 ^ 32" for e using assms(1) by blast
  obtain oks s where e: "emit_all serialize sign es im = Some (oks, im\<lparr>im_shmem := Some s\<rparr>)" "length oks = length es"
    "holds s (map ?seal (map fst (filter snd (zip es oks))))"
    using emit_all_holds [where serialize = serialize and bytes = bytes and es = es, OF c assms(2,3) h] by auto
  let ?open = "open_message cpu deserialize verify (im_obfuscation_key im) pk"
  have "?open (?seal e) = Some (json e)" for e using open_sealed [OF assms(2)] assms(1) by metis
  then have all: "\<forall>m \<in> set (map ?seal (map fst (filter snd (zip es oks)))). ?open m = Some ((the \<circ> ?open) m)" by auto
  have eq: "map (the \<circ> ?open) (map ?seal xs) = map json xs" for xs using \<open>\<And>e. ?open (?seal e) = Some (json e)\<close> by simp
  obtain s' where s': "drain (pullRingEvent cpu deserialize verify (im_obfuscation_key im) pk) s = Some (map json (map fst (filter snd (zip es oks))), s')" "holds s' []"
    using ring.drain_all [OF e(3) all] unfolding eq by blast
  have "unat (sm_head s') = unat (sm_tail s')" using s'(2) queued_empty by (fastforce simp: holds_def)
  then have "sm_head s' = sm_tail s'" by (rule unsigned_word_eqI)
  then show ?thesis using e(1,2) s'(1) by auto
qed

theorem telemetry_roundtrip_witness:
  "\<exists>oks im' s s'. emit_all (\<lambda>e. Some [if e then 1 else 2]) (\<lambda>key m. replicate 64 key) [True, False]
      \<lparr>im_shmem = Some \<lparr>sm_head = 0, sm_tail = 0, sm_capacity = 0, sm_data = replicate 64 0\<rparr>, im_cmd_shmem = None, im_obfuscation_key = Some [5, 6], im_signing_key = Some 3\<rparr> = Some (oks, im') \<and>
    length oks = Suc (Suc 0) \<and> im_shmem im' = Some s \<and>
    drain (pullRingEvent (X86_64 True) (\<lambda>b. Some (if b = [1] then ''on'' else ''off'')) (\<lambda>pk sig m. sig = replicate 64 3) (Some [5, 6]) (Some (replicate 32 9))) s =
      Some (map (\<lambda>e. if e then ''on'' else ''off'') (map fst (filter snd (zip [True, False] oks))), s') \<and> sm_head s' = sm_tail s'"
proof -
  let ?bytes = "\<lambda>e. [if e then 1 else 2] :: octets" and ?des = "\<lambda>b. Some (if b = [1 :: 8 word] then ''on'' else ''off'')" and ?json = "\<lambda>e. if e then ''on'' else ''off''"
  let ?im = "\<lparr>im_shmem = Some \<lparr>sm_head = 0, sm_tail = 0, sm_capacity = 0, sm_data = replicate 64 0\<rparr>, im_cmd_shmem = None, im_obfuscation_key = Some [5, 6], im_signing_key = Some (3 :: 8 word)\<rparr>"
  have codec: "Some (?bytes e) = Some (?bytes e) \<and> ?bytes e \<noteq> [] \<and> length (?bytes e) + 68 < 2 ^ 32 \<and> ?des (?bytes e) = Some (?json e)" for e by (cases e) simp_all
  have keys: "keys_agree (\<lambda>key m. replicate 64 key) (\<lambda>pk sig m. sig = replicate 64 3) (im_signing_key ?im) (Some (replicate 32 9))" by (simp add: keys_agree_def)
  show ?thesis using telemetry_roundtrip [where serialize = "\<lambda>e. Some (?bytes e)" and bytes = ?bytes and deserialize = ?des and json = ?json and im = ?im and es = "[True, False]" and
      cpu = "X86_64 True" and d = "replicate 64 0", OF codec keys] by (simp del: emit_all.simps)
qed

text \<open>
  A signature is not required of a short message. With a public key registered for the agent, a message of at most 64 bytes at the front of the ring
  is decoded, handled and committed whatever the signature check would say of it, so a writer of the segment without the signing key can have
  any event accepted that encodes in 64 bytes.
\<close>

lemma short_message_unverified:
  assumes "holds s (obfuscate k m # q)" and "length m \<le> 64" and "deserialize m = Some j"
  shows "\<exists>s'. pullRingEvent cpu deserialize (\<lambda>pk sig payload. False) k (Some pk) s = Some (Some j, s') \<and> holds s' q"
proof -
  have "open_message cpu deserialize (\<lambda>pk sig payload. False) k (Some pk) (obfuscate k m) = Some j"
    using assms(2,3) by (simp add: open_message_def demask_obfuscate)
  then show ?thesis using pull_holds [OF assms(1), of cpu deserialize "\<lambda>pk sig payload. False" k "Some pk"] by simp
qed

section \<open>A ring that is never empty\<close>

lemma lies_framed_length: "lies d a (framed m) \<Longrightarrow> slice a 4 d = Some (to_le_bytes (word_of_nat (length m)))"
  by (rule lies_slice) (auto simp: framed_def lies_append)

text \<open>
  C37: a hostile producer stops the orchestrator. If the data begin with a message the orchestrator accepts, followed by a skip marker, and the
  head is neither zero nor the end of that message, then every commit puts the tail back where the marker is: the loop
  that empties the ring, which does not yield, handles the same message for ever.
\<close>

theorem hostile_ring_never_drains:
  assumes "msg \<noteq> []" and "length d \<le> 2 ^ 31" and "16 \<le> length d" and "lies d 0 (framed msg @ to_le_bytes (- 1))"
    and "h \<noteq> 0" and "h \<noteq> 4 + word_of_nat (length msg)" and "open_message cpu deserialize verify k pk msg = Some j"
  shows "drain (pullRingEvent cpu deserialize verify k pk) \<lparr>sm_head = h, sm_tail = 0, sm_capacity = word_of_nat (length d), sm_data = d\<rparr> = None"
proof -
  let ?n = "word_of_nat (length msg) :: u32" and ?c = "word_of_nat (length d) :: u32" and ?pull = "pullRingEvent cpu deserialize verify k pk"
  let ?s = "\<lambda>t. \<lparr>sm_head = h, sm_tail = t, sm_capacity = ?c, sm_data = d\<rparr>"
  have l: "lies d 0 (framed msg)" "lies d (length msg + 4) (to_le_bytes (- 1))" "lies d 4 msg" using assms(4) by (auto simp: lies_append framed_def add.commute)
  then have b: "length msg + 8 \<le> length d" by (simp add: lies_def)
  have c: "unat ?c = length d" using assms(2) by (simp add: unat_of_nat)
  have n: "unat ?n = length msg" using length_word [OF b] assms(2) by simp
  then have n0: "?n \<noteq> 0" "?n \<noteq> - 1" using assms(1,2) b u32_max by auto
  have t: "unat (4 + ?n) = length msg + 4" using b assms(2) n unat_add [of 4 ?n] by simp
  have v: "validated_capacity (length d) ?c = Some ?c" using assms(2,3) c by (auto simp: validated_capacity_def unat_eq_0)
  have e: "\<not> exceeds (checked_add 0 4) ?c" "\<not> exceeds (checked_add (4 + ?n) 4) ?c" "\<not> exceeds (checked_add ?n 4) ?c"
    using within [of 0 4 ?c] within [of "4 + ?n" 4 ?c] within [of ?n 4 ?c] b c t n by auto
  have "\<not> ?n > ?c - 4" using b c n by (simp add: word_less_nat_alt unat_sub word_le_nat_alt)
  then have at: "message_at ?c 0 ?n = Some (4, ?n)" using within3 [of 0 4 ?n ?c] b c n n0 by (simp add: message_at_def)
  have f: "slice 0 4 d = Some (to_le_bytes ?n)" "slice (length msg + 4) 4 d = Some (to_le_bytes (- 1))" "slice 4 (length msg) d = Some msg"
    using lies_framed_length [OF l(1)] lies_slice [OF l(2)] lies_slice [OF l(3)] by auto
  have c4: "\<not> ?c < 4" using assms(3) c by (simp add: word_less_nat_alt)
  have pull: "shmem_ring_pull (?s 0) = Some (Some (4, ?n))" "shmem_ring_pull (?s (4 + ?n)) = Some (Some (4, ?n))"
    using assms(3,5,6) v e f at n0 t c4 by (simp_all add: shmem_ring_pull_def)
  have "checked_add 0 4 \<bind> (\<lambda>v. checked_add v ?n) = Some (4 + ?n)" "4 + ?n \<le> ?c" using t n b c u32_bound [of "4 + ?n"] by (simp_all add: checked_add_def word_le_nat_alt)
  then have "shmem_ring_commit (?s 0) = Some (?s (4 + ?n))" "shmem_ring_commit (?s (4 + ?n)) = Some (?s (4 + ?n))"
    using assms(3,5,6) v e f n0 t c4 by (simp_all add: shmem_ring_commit_def Let_def)
  then have p: "?pull (?s 0) = Some (Some j, ?s (4 + ?n))" "?pull (?s (4 + ?n)) = Some (Some j, ?s (4 + ?n))"
    using pull f(3) n n0 assms(7) by (simp_all add: pullRingEvent_def)
  have "drain ?pull (?s (4 + ?n)) = drain ?pull (?s (4 + ?n)) \<bind> (\<lambda>(js, s''). Some (j # js, s''))" by (subst drain.simps) (simp add: p)
  then have "drain ?pull (?s (4 + ?n)) = None" by (cases "drain ?pull (?s (4 + ?n))") auto
  then show ?thesis by (subst drain.simps) (simp add: p)
qed

theorem hostile_ring_never_drains_witness:
  "drain (pullRingEvent Other_target (\<lambda>m. Some ''again'') (\<lambda>pk sig payload. True) None None)
    \<lparr>sm_head = 8, sm_tail = 0, sm_capacity = 16, sm_data = [1, 0, 0, 0, 7, 255, 255, 255, 255] @ replicate 7 0\<rparr> = None"
proof -
  have "lies ([1, 0, 0, 0, 7, 255, 255, 255, 255] @ replicate 7 0) 0 (framed [7] @ to_le_bytes (- 1))"
    by (simp add: lies_def framed_def to_le_bytes_def u32_max less_Suc_eq nth_Cons')
  from hostile_ring_never_drains [OF _ _ _ this, of 8 Other_target "\<lambda>m. Some ''again''" "\<lambda>pk sig payload. True" None None "''again''"]
  show ?thesis by (simp add: open_message_def demask_def)
qed

section \<open>Commands\<close>

lemma length_put [simp]: "a + length bs \<le> length d \<Longrightarrow> length (put a bs d) = length d"
  by (simp add: put_def)

lemma slot_len_put [simp]: "slot_len (put 0 (to_le_bytes w) d) = unat w"
  by (simp add: slot_len_def put_def)

lemma drop_put: "length bs = 4 \<Longrightarrow> 4 \<le> length d \<Longrightarrow> drop 8 (put 0 bs d) = drop 8 d"
  by (simp add: put_def)

lemma take_put: "8 + length bs \<le> length d \<Longrightarrow> take (length bs) (drop 8 (put 8 bs d)) = bs"
  by (simp add: put_def)

lemma slot_len_zeros: "slot_len (replicate n 0) = 0"
proof -
  have "foldr (\<lambda>b n. unat b + 256 * n) (replicate m (0 :: 8 word)) 0 = 0" for m by (induction m) simp_all
  then show ?thesis by (simp add: slot_len_def from_le_bytes_def)
qed

text \<open>
  C32: the command slot hands over one command at a time. Written to an empty slot, a command that fits is stored; until the agent has polled, every
  further command is refused and changes nothing; the poll decodes exactly the bytes that were written, with the same key on both ends, and empties the
  slot. Whatever length the slot claims, a poll leaves it empty, so a corrupted header cannot block it.
\<close>

theorem command_roundtrip:
  assumes "slot_len slot = 0" and "data \<noteq> []" and "length data + 8 \<le> length slot" and "length slot < 2 ^ 32" and "im_obfuscation_key im = key"
  shows "\<exists>slot1 slot2. writeShmem cpu data key slot = (True, slot1) \<and> (\<forall>data'. writeShmem cpu data' key slot1 = (False, slot1)) \<and>
    poll_command from_slice (im\<lparr>im_cmd_shmem := Some slot1\<rparr>) = (from_slice data, im\<lparr>im_cmd_shmem := Some slot2\<rparr>) \<and> length slot2 = length slot \<and>
    (\<forall>any. 8 \<le> length any \<longrightarrow> (\<exists>c slot3. poll_command from_slice (im\<lparr>im_cmd_shmem := Some any\<rparr>) = (c, im\<lparr>im_cmd_shmem := Some slot3\<rparr>) \<and> slot_len slot3 = 0))"
proof -
  let ?m = "obfuscate key data" let ?slot1 = "put 0 (to_le_bytes (word_of_nat (length ?m))) (put 8 ?m slot)"
  have n: "unat (word_of_nat (length data) :: u32) = length data" using assms(3,4) by (simp add: unat_of_nat)
  have l: "slot_len ?slot1 = length data" "length ?slot1 = length slot" using n assms(3) by simp_all
  have t: "take (length data) (drop 8 ?slot1) = ?m" using assms(3) take_put [of ?m slot] by (simp add: drop_put)
  have "writeShmem cpu data key slot = (True, ?slot1)" using assms(1,3) by (simp add: writeShmem_def shmem_write_def demask_obfuscate)
  moreover have "writeShmem cpu data' key ?slot1 = (False, ?slot1)" for data' using l assms(2) by (simp add: writeShmem_def shmem_write_def)
  moreover have "poll_command from_slice (im\<lparr>im_cmd_shmem := Some ?slot1\<rparr>) = (from_slice data, im\<lparr>im_cmd_shmem := Some (put 0 (to_le_bytes 0) ?slot1)\<rparr>)"
    using l t assms(2,3,5) by (simp add: poll_command_def Let_def)
  moreover have "\<exists>c slot3. poll_command from_slice (im\<lparr>im_cmd_shmem := Some any\<rparr>) = (c, im\<lparr>im_cmd_shmem := Some slot3\<rparr>) \<and> slot_len slot3 = 0" if "8 \<le> length any" for any
    using that by (auto simp: poll_command_def Let_def)
  ultimately show ?thesis using l(2) assms(3) by (intro exI [of _ ?slot1] exI [of _ "put 0 (to_le_bytes 0) ?slot1"]) simp
qed

theorem command_roundtrip_witness:
  "\<exists>slot1 slot2. writeShmem (X86_64 True) [1, 2, 3] (Some [9]) (replicate 16 0) = (True, slot1) \<and>
    poll_command Some (\<lparr>im_shmem = None, im_cmd_shmem = Some slot1, im_obfuscation_key = Some [9], im_signing_key = None :: nat option\<rparr>) =
      (Some [1, 2, 3], \<lparr>im_shmem = None, im_cmd_shmem = Some slot2, im_obfuscation_key = Some [9], im_signing_key = None\<rparr>)"
proof -
  have e: "slot_len (replicate 16 0) = 0" by (simp add: slot_len_zeros)
  show ?thesis
    using command_roundtrip [of "replicate 16 0" "[1, 2, 3]" "\<lparr>im_shmem = None, im_cmd_shmem = None, im_obfuscation_key = Some [9], im_signing_key = None :: nat option\<rparr>" "Some [9]" "X86_64 True" Some]
    by (auto simp: e)
qed

end
