(* ===== verification/Web_Auth.thy ===== *)
theory Web_Auth
  imports Api_Keys Rate_Limit Net_Validation
begin

text \<open>
  Who reaches a handler of the web interface: interface/web/middleware/security.ts, the middleware in front of all routes of
  interface/web/web_adapter.tsx, the gates that interface/web/routes/registry.ts puts before a route, and login and logout of
  interface/web/routes/ui--login/handlers.ts, over the models of sessions, API keys and the rate limiter. The blacklist, the verification of mesh
  signatures and what a handler does are the environment.
\<close>

section \<open>Requests\<close>

text \<open>A request: path, method, peer, the headers that are read, the session cookie, the form fields and the JSON body.\<close>

record 'p request =
  rq_path :: string
  rq_method :: string
  rq_remote :: "string option"
  rq_forwarded :: "string option"
  rq_agent :: "string option"
  rq_csrf :: "string option"
  rq_contentType :: "string option"
  rq_formCsrf :: "string option"
  rq_authorization :: "string option"
  rq_apiKey :: "string option"
  rq_meshSignature :: "string option"
  rq_meshSecret :: "string option"
  rq_cookie :: "string option"
  rq_json :: "'p option"

text \<open>The variables of the Hono context that the middleware sets.\<close>

record web_context =
  cx_role :: "string option"
  cx_session :: "session option"
  cx_csrfToken :: "string option"

text \<open>The next handler is called, or a response is given; \<open>Thrown\<close> is an exception of a service.\<close>

datatype outcome = Next web_context | Reply nat string | Redirect string | Thrown string

record web =
  wb_rate :: rate_limit
  wb_sessions :: session_store
  wb_keys :: api_keys

record 'p web_env =
  we_mac :: "string \<Rightarrow> 8 word list"
  we_digest :: "string \<Rightarrow> string"
  we_masterToken :: string
  we_trustedProxies :: string
  we_meshSecret :: "string option"
  we_verifySignature :: "'p \<Rightarrow> string \<Rightarrow> bool"
  we_publicPaths :: "string list"
  we_ttlHours :: int

text \<open>What changes between requests and is not stored: the time, the read-only mode and the blacklist.\<close>

record moment =
  mo_now :: nat
  mo_readOnly :: bool
  mo_blacklist :: "string list"

text \<open>A header or cookie that is there and not empty, as JavaScript's truth value has it.\<close>

definition present :: "string option \<Rightarrow> bool" where
  "present v \<longleftrightarrow> v \<noteq> None \<and> v \<noteq> Some []"

definition resolveClientIp :: "string option \<Rightarrow> string option \<Rightarrow> string \<Rightarrow> string" where
  "resolveClientIp directIp forwardedFor trustedProxies =
    (let direct = (if present directIp then the directIp else ''unknown'');
         trusted = filter (\<lambda>p. p \<noteq> []) (map trim (split_char (CHR '','') trustedProxies))
     in if present forwardedFor \<and> present directIp \<and> direct \<in> set trusted
        then (let first = trim (hd (split_char (CHR '','') (the forwardedFor))) in if first = [] then direct else first)
        else direct)"

definition getClientIp :: "'p web_env \<Rightarrow> 'p request \<Rightarrow> string" where
  "getClientIp env rq = resolveClientIp (rq_remote rq) (rq_forwarded rq) (we_trustedProxies env)"

section \<open>Authentication\<close>

definition isAuthRoute :: "string \<Rightarrow> bool" where
  "isAuthRoute path \<longleftrightarrow> path \<in> {''/login'', ''/login/'', ''/logout'', ''/logout/''}"

definition isPublicPath :: "string \<Rightarrow> bool" where
  "isPublicPath path \<longleftrightarrow> path = ''/style.css'' \<or> list_ex (starts_with path) [''/vendor/'', ''/assets/'', ''/components/'']"

definition isStaticAsset :: "string \<Rightarrow> bool" where
  "isStaticAsset path \<longleftrightarrow> list_ex (ends_with (lowerCase path))
     [''.css'', ''.js'', ''.png'', ''.jpg'', ''.jpeg'', ''.svg'', ''.json'', ''.ico'', ''.woff'', ''.woff2'', ''.ttf'', ''.otf'']"

definition mutating :: "'p request \<Rightarrow> bool" where
  "mutating rq \<longleftrightarrow> rq_method rq \<in> {''POST'', ''DELETE'', ''PUT'', ''PATCH''}"

definition formEncoded :: "'p request \<Rightarrow> bool" where
  "formEncoded rq \<longleftrightarrow> (case rq_contentType rq of None \<Rightarrow> False
     | Some t \<Rightarrow> js_includes t ''application/x-www-form-urlencoded'' \<or> js_includes t ''multipart/form-data'')"

definition providedToken :: "'p request \<Rightarrow> string option" where
  "providedToken rq = (if present (rq_csrf rq) then rq_csrf rq else rq_formCsrf rq)"

text \<open>The response if the token against request forgery is missing or wrong.\<close>

definition checkCsrf :: "'p web_env \<Rightarrow> 'p request \<Rightarrow> session \<Rightarrow> outcome option" where
  "checkCsrf env rq ss =
    (if \<not> mutating rq then None
     else if \<not> present (rq_csrf rq) \<and> \<not> formEncoded rq then Some (Reply 403 ''CSRF_MISSING'')
     else if \<not> present (providedToken rq) \<or> s_csrfToken ss = [] \<or> \<not> secureCompare (we_mac env) (providedToken rq) (Some (s_csrfToken ss))
       then Some (Reply 403 ''CSRF_FAULT'')
     else None)"

text \<open>The decision from the cookie, if there is one. A session that is not found or expired decides nothing; an error of the store is thrown.\<close>

definition authSession :: "'p web_env \<Rightarrow> moment \<Rightarrow> 'p request \<Rightarrow> web_context \<Rightarrow> web \<Rightarrow> outcome option \<times> web" where
  "authSession env mo rq cx w =
    (if \<not> present (rq_cookie rq) then (None, w)
     else case validateSession (mo_readOnly mo) (the (rq_cookie rq)) (int (mo_now mo)) (wb_sessions w) of
       (Inr ss, s') \<Rightarrow>
         (Some (case checkCsrf env rq ss of
            Some r \<Rightarrow> r
          | None \<Rightarrow> Next (cx\<lparr>cx_role := Some (if s_role ss = [] then ''viewer'' else s_role ss), cx_session := Some ss, cx_csrfToken := Some (s_csrfToken ss)\<rparr>)),
          w\<lparr>wb_sessions := s'\<rparr>)
     | (Inl e, s') \<Rightarrow> (if e \<in> {''Session not found'', ''Session expired''} then None else Some (Thrown e), w\<lparr>wb_sessions := s'\<rparr>))"

definition bearerToken :: "'p request \<Rightarrow> string option" where
  "bearerToken rq = (case rq_authorization rq of None \<Rightarrow> None
     | Some h \<Rightarrow> if starts_with h ''Bearer '' then Some (trim (drop 7 h)) else None)"

definition authKey :: "'p web_env \<Rightarrow> moment \<Rightarrow> 'p request \<Rightarrow> web_context \<Rightarrow> web \<Rightarrow> outcome option \<times> web" where
  "authKey env mo rq cx w =
    (if \<not> present (rq_apiKey rq) then (None, w)
     else case validateApiKey (we_digest env) (we_mac env) (mo_readOnly mo) (rq_apiKey rq) (int (mo_now mo)) (wb_keys w) of
       (r, keys) \<Rightarrow> (if present r then Some (Next (cx\<lparr>cx_role := r, cx_csrfToken := rq_apiKey rq\<rparr>)) else None, w\<lparr>wb_keys := keys\<rparr>))"

text \<open>The session, then the bearer token, then the API key.\<close>

definition authCredentials :: "'p web_env \<Rightarrow> moment \<Rightarrow> 'p request \<Rightarrow> web_context \<Rightarrow> web \<Rightarrow> outcome \<times> web" where
  "authCredentials env mo rq cx w =
    (case authSession env mo rq cx w of
       (Some r, w1) \<Rightarrow> (r, w1)
     | (None, w1) \<Rightarrow>
        if bearerToken rq \<noteq> None \<and> secureCompare (we_mac env) (bearerToken rq) (Some (we_masterToken env))
        then (Next (cx\<lparr>cx_role := Some ''admin'', cx_csrfToken := bearerToken rq\<rparr>), w1)
        else (case authKey env mo rq cx w1 of
            (Some r, w2) \<Rightarrow> (r, w2)
          | (None, w2) \<Rightarrow> (if starts_with (rq_path rq) ''/api/'' then Reply 401 ''Unauthorized'' else Redirect ''/login'', w2)))"

definition auth :: "'p web_env \<Rightarrow> moment \<Rightarrow> 'p request \<Rightarrow> web_context \<Rightarrow> web \<Rightarrow> outcome \<times> web" where
  "auth env mo rq cx w =
    (let path = rq_path rq; ip = getClientIp env rq;
         limit = checkLimit ip 500 60000 (mo_now mo) (wb_rate w);
         w1 = (if starts_with path ''/api/'' then w\<lparr>wb_rate := snd limit\<rparr> else w)
     in if ip \<in> set (mo_blacklist mo) then (Reply 403 ''BLACK_LIST_REJECT'', w)
        else if starts_with path ''/api/'' \<and> \<not> allowed (fst limit) then (Reply 429 ''RATE_LIMIT_EXCEEDED'', w1)
        else if isAuthRoute path then (Next cx, w1)
        else if isStaticAsset path \<and> isPublicPath path then (Next cx, w1)
        else authCredentials env mo rq cx w1)"

definition requireRole :: "string list \<Rightarrow> web_context \<Rightarrow> outcome" where
  "requireRole allowedRoles cx = (if \<not> present (cx_role cx) \<or> the (cx_role cx) \<notin> set allowedRoles then Reply 403 ''Forbidden'' else Next cx)"

text \<open>A signature is looked at only after the shared secret did not match; reading the body fails if it is not JSON.\<close>

definition meshAuth :: "'p web_env \<Rightarrow> moment \<Rightarrow> 'p request \<Rightarrow> web_context \<Rightarrow> web \<Rightarrow> outcome \<times> web" where
  "meshAuth env mo rq cx w =
    (let secret = we_meshSecret env
     in if present secret \<and> present (rq_meshSecret rq) \<and> secureCompare (we_mac env) (rq_meshSecret rq) secret
        then (Next (cx\<lparr>cx_role := Some ''mesh_peer''\<rparr>), w)
        else if present secret \<and> present (rq_meshSignature rq) \<and> (case rq_json rq of None \<Rightarrow> False | Some p \<Rightarrow> we_verifySignature env p (the (rq_meshSignature rq)))
        then (Next (cx\<lparr>cx_role := Some ''mesh_peer''\<rparr>), w)
        else auth env mo rq cx w)"

record actor =
  a_id :: string
  a_role :: string
  a_ip :: string
  a_userAgent :: "string option"

text \<open>\<open>session.name\<close> does not exist: the name of a session is in its metadata.\<close>

definition getActor :: "'p web_env \<Rightarrow> 'p request \<Rightarrow> web_context \<Rightarrow> actor" where
  "getActor env rq cx = (case cx_session cx of
     Some ss \<Rightarrow> \<lparr>a_id = s_id ss, a_role = (if s_role ss = [] then ''viewer'' else s_role ss), a_ip = getClientIp env rq, a_userAgent = rq_agent rq\<rparr>
   | None \<Rightarrow>
      (let role = (if present (cx_role cx) then the (cx_role cx) else ''anonymous'')
       in \<lparr>a_id = (if role = ''admin'' then ''MASTER_TOKEN'' else ''ANONYMOUS''), a_role = role, a_ip = getClientIp env rq, a_userAgent = rq_agent rq\<rparr>))"

section \<open>Routes\<close>

text \<open>The middleware before all routes.\<close>

definition globalAuth :: "'p web_env \<Rightarrow> moment \<Rightarrow> 'p request \<Rightarrow> web \<Rightarrow> outcome \<times> web" where
  "globalAuth env mo rq w =
    (let path = rq_path rq; cx = \<lparr>cx_role = None, cx_session = None, cx_csrfToken = None\<rparr>
     in if path = ''/login'' \<or> path = ''/logout'' \<or> starts_with path ''/assets/'' \<or> starts_with path ''/vendor/'' \<or> path = ''/style.css'' then (Next cx, w)
        else if starts_with path ''/api/mesh/'' then (Next cx, w)
        else auth env mo rq cx w)"

text \<open>The gate of the console, which also runs before the routes of the API.\<close>

definition uiGate :: "'p web_env \<Rightarrow> 'p request \<Rightarrow> web_context \<Rightarrow> outcome" where
  "uiGate env rq cx =
    (if rq_path rq \<in> set (we_publicPaths env) then Next cx
     else if starts_with (rq_path rq) ''/api/'' then Next cx
     else requireRole [''admin'', ''operator'', ''viewer''] cx)"

text \<open>A route of the API: whether it mounts \<open>meshAuth\<close>, and its roles unless it is public.\<close>

record api_route =
  rt_mesh :: bool
  rt_roles :: "string list option"

definition apiGate :: "'p web_env \<Rightarrow> moment \<Rightarrow> api_route \<Rightarrow> 'p request \<Rightarrow> web_context \<Rightarrow> web \<Rightarrow> outcome \<times> web" where
  "apiGate env mo rt rq cx w =
    (case (if rt_mesh rt then meshAuth env mo rq cx w else (Next cx, w)) of
       (Next cx', w') \<Rightarrow> (case rt_roles rt of None \<Rightarrow> Next cx' | Some roles \<Rightarrow> requireRole roles cx', w')
     | r \<Rightarrow> r)"

text \<open>The way of a request to the handler of a route; \<open>None\<close> is a page of the console.\<close>

definition dispatch :: "'p web_env \<Rightarrow> moment \<Rightarrow> api_route option \<Rightarrow> 'p request \<Rightarrow> web \<Rightarrow> outcome \<times> web" where
  "dispatch env mo route rq w =
    (case globalAuth env mo rq w of
       (Next cx, w1) \<Rightarrow> (case uiGate env rq cx of
           Next cx1 \<Rightarrow> (case route of None \<Rightarrow> (Next cx1, w1) | Some rt \<Rightarrow> apiGate env mo rt rq cx1 w1)
         | r \<Rightarrow> (r, w1))
     | r \<Rightarrow> r)"

section \<open>Login and logout\<close>

definition isTokenValid :: "'p web_env \<Rightarrow> moment \<Rightarrow> string option \<Rightarrow> web \<Rightarrow> string option \<times> web" where
  "isTokenValid env mo token w =
    (if secureCompare (we_mac env) token (Some (we_masterToken env)) then (Some ''admin'', w)
     else case validateApiKey (we_digest env) (we_mac env) (mo_readOnly mo) token (int (mo_now mo)) (wb_keys w) of
       (r, keys) \<Rightarrow> (if present r then r else None, w\<lparr>wb_keys := keys\<rparr>))"

text \<open>The random session id and token against request forgery are arguments. The result also has the session of a login that succeeds.\<close>

definition postLogin :: "'p web_env \<Rightarrow> moment \<Rightarrow> 'p request \<Rightarrow> string option \<Rightarrow> string \<Rightarrow> string \<Rightarrow> web \<Rightarrow> (outcome \<times> session option) \<times> web" where
  "postLogin env mo rq token sid csrf w =
    (case checkLimit (''login:'' @ getClientIp env rq) 10 60000 (mo_now mo) (wb_rate w) of (st, rate) \<Rightarrow>
       (let w1 = w\<lparr>wb_rate := rate\<rparr>
        in if \<not> allowed st then ((Reply 429 ''Too many login attempts'', None), w1)
           else case isTokenValid env mo token w1 of
             (None, w2) \<Rightarrow> ((Redirect ''/login?error=invalid_token'', None), w2)
           | (Some role, w2) \<Rightarrow>
               (case createSession (mo_readOnly mo) sid csrf role role (we_ttlHours env) (int (mo_now mo)) (wb_sessions w2) of
                  (Inl e, s') \<Rightarrow> ((Redirect ''/login?error=session_failed'', None), w2\<lparr>wb_sessions := s'\<rparr>)
                | (Inr ss, s') \<Rightarrow> ((Redirect ''/dashboard'', Some ss), w2\<lparr>wb_sessions := s'\<rparr>))))"

definition logout :: "moment \<Rightarrow> 'p request \<Rightarrow> web \<Rightarrow> outcome \<times> web" where
  "logout mo rq w =
    (if \<not> present (rq_cookie rq) then (Redirect ''/login'', w)
     else case revokeSession (mo_readOnly mo) (the (rq_cookie rq)) (wb_sessions w) of
       (Inl e, s') \<Rightarrow> (Thrown e, w\<lparr>wb_sessions := s'\<rparr>)
     | (Inr _, s') \<Rightarrow> (Redirect ''/login'', w\<lparr>wb_sessions := s'\<rparr>))"

section \<open>The stores\<close>

text \<open>Sessions are stored under their ids, and what they grant satisfies \<open>P\<close>.\<close>

definition keyed :: "(string \<Rightarrow> string \<Rightarrow> string \<Rightarrow> int \<Rightarrow> bool) \<Rightarrow> session_store \<Rightarrow> bool" where
  "keyed P s \<longleftrightarrow> (\<forall>i ss. repo_get i s = Some ss \<longrightarrow> s_id ss = i \<and> P i (s_role ss) (s_csrfToken ss) (s_expiresAt ss))"

lemma keyed_set: "keyed P s \<Longrightarrow> P (s_id ss) (s_role ss) (s_csrfToken ss) (s_expiresAt ss) \<Longrightarrow> keyed P (kv_set (s_id ss) ss s)"
  by (auto simp: keyed_def split: if_splits)

lemma keyed_delete: "keyed P s \<Longrightarrow> keyed P (kv_delete i s)"
  by (auto simp: keyed_def split: if_splits)

lemma keyed_save: "keyed P s \<Longrightarrow> P (s_id ss) (s_role ss) (s_csrfToken ss) (s_expiresAt ss) \<Longrightarrow> keyed P (snd (saveSession ro ss s))"
  by (auto simp: saveSession_def quiet_repo_set keyed_set split: sum.split)

lemma keyed_deleteSession: "keyed P s \<Longrightarrow> keyed P (snd (deleteSession ro i s))"
  by (auto simp: deleteSession_def quiet_repo_delete keyed_delete split: sum.split)

lemma keyed_validate:
  assumes "keyed P s" and "validateSession ro i now s = (r, s')"
  shows "keyed P s'" and "r = Inr ss \<Longrightarrow> s_id ss = i \<and> P i (s_role ss) (s_csrfToken ss) (s_expiresAt ss) \<and> now \<le> s_expiresAt ss"
proof -
  have read: "s_id ss = i \<and> P i (s_role ss) (s_csrfToken ss) (s_expiresAt ss) \<and> now \<le> s_expiresAt ss" if "validateRead i now s = Inr ss" for ss
    using that assms(1) by (auto simp: validateRead_def keyed_def split: option.splits if_splits)
  show "keyed P s'"
  proof (cases "validateRead i now s")
    case (Inl e)
    then show ?thesis using assms keyed_deleteSession [OF assms(1), of ro i] by (auto simp: validateSession_def validateWrite_def split: prod.splits sum.splits if_splits)
  next
    case (Inr ss)
    then show ?thesis using assms read [OF Inr] keyed_save [OF assms(1), of ss ro] by (auto simp: validateSession_def validateWrite_def split: prod.splits sum.splits)
  qed
  show "r = Inr ss \<Longrightarrow> s_id ss = i \<and> P i (s_role ss) (s_csrfToken ss) (s_expiresAt ss) \<and> now \<le> s_expiresAt ss"
    using assms(2) read by (auto simp: validateSession_def validateWrite_def split: prod.splits sum.splits if_splits)
qed

lemma keyed_cleanup: "keyed P s \<Longrightarrow> keyed P (snd (cleanupExpired ro now s))"
proof -
  have "keyed P s \<Longrightarrow> keyed P (snd (cleanupLoop ro now xs n s))" for xs n s
  proof (induction xs arbitrary: n s)
    case (Cons x xs)
    then show ?case using keyed_deleteSession [OF Cons.prems, of ro "s_id x"] by (auto split: prod.splits sum.splits)
  qed simp
  then show "keyed P s \<Longrightarrow> keyed P (snd (cleanupExpired ro now s))" by (simp add: cleanupExpired_def)
qed

lemma unprivileged_validate:
  assumes "unprivileged st" and "validateApiKey digest mac ro raw now st = (r, st')"
  shows "unprivileged st'" and "r = Some role \<Longrightarrow> role \<notin> {''admin'', ''mesh_peer''}"
proof -
  show "unprivileged st'"
  proof (cases raw)
    case (Some k)
    then show ?thesis using api_step_unprivileged [OF assms(1), of digest mac "ValidateKey k now ro"] assms(2) by simp
  qed (use assms in \<open>simp add: validateApiKey_def\<close>)
  show "role \<notin> {''admin'', ''mesh_peer''}" if "r = Some role"
  proof (cases raw)
    case (Some k)
    then have "fst (validateApiKey digest mac ro (Some k) now st) = Some role" using assms(2) that by simp
    then obtain h m where "repo_get h (hashRepo st) = Some m" "role = k_role m" using validateApiKey_Some by blast
    then show ?thesis using assms(1) unfolding unprivileged_def by metis
  qed (use assms that in \<open>simp add: validateApiKey_def\<close>)
qed

lemma secureCompare_iff: "secureCompare mac a (Some b) \<longleftrightarrow> (\<exists>x. a = Some x \<and> mac x = mac b)"
  by (cases a) (auto simp: secureCompare_def secureCompareBytes_eq)

definition web_ok :: "(string \<Rightarrow> string \<Rightarrow> string \<Rightarrow> int \<Rightarrow> bool) \<Rightarrow> web \<Rightarrow> bool" where
  "web_ok P w \<longleftrightarrow> keyed P (wb_sessions w) \<and> unprivileged (wb_keys w)"

section \<open>What authentication grants\<close>

text \<open>The three kinds of credentials: a live session, with its token if the request changes something; the master token; an API key.\<close>

definition by_session :: "(string \<Rightarrow> string \<Rightarrow> string \<Rightarrow> int \<Rightarrow> bool) \<Rightarrow> 'p web_env \<Rightarrow> moment \<Rightarrow> 'p request \<Rightarrow> web_context \<Rightarrow> bool" where
  "by_session P env mo rq cx \<longleftrightarrow> (\<exists>ss. cx_session cx = Some ss \<and> rq_cookie rq = Some (s_id ss) \<and> P (s_id ss) (s_role ss) (s_csrfToken ss) (s_expiresAt ss) \<and>
     int (mo_now mo) \<le> s_expiresAt ss \<and> cx_role cx = Some (if s_role ss = [] then ''viewer'' else s_role ss) \<and>
     (mutating rq \<longrightarrow> (\<exists>t. providedToken rq = Some t \<and> we_mac env t = we_mac env (s_csrfToken ss))))"

definition by_master :: "'p web_env \<Rightarrow> 'p request \<Rightarrow> bool" where
  "by_master env rq \<longleftrightarrow> (\<exists>t. bearerToken rq = Some t \<and> we_mac env t = we_mac env (we_masterToken env))"

definition granted :: "(string \<Rightarrow> string \<Rightarrow> string \<Rightarrow> int \<Rightarrow> bool) \<Rightarrow> 'p web_env \<Rightarrow> moment \<Rightarrow> 'p request \<Rightarrow> web_context \<Rightarrow> web_context \<Rightarrow> bool" where
  "granted P env mo rq cx cx' \<longleftrightarrow> by_session P env mo rq cx' \<or> cx_session cx' = cx_session cx \<and>
     (cx_role cx' = Some ''admin'' \<and> by_master env rq \<or> (\<exists>r. cx_role cx' = Some r \<and> r \<notin> {''admin'', ''mesh_peer''}))"

lemma checkCsrf_pass: "checkCsrf env rq ss = None \<Longrightarrow> mutating rq \<Longrightarrow> \<exists>t. providedToken rq = Some t \<and> we_mac env t = we_mac env (s_csrfToken ss)"
  by (auto simp: checkCsrf_def secureCompare_iff split: if_splits)

lemma checkCsrf_not_next [simp]: "checkCsrf env rq ss \<noteq> Some (Next cx)"
  by (simp add: checkCsrf_def)

lemma authSession_ok:
  assumes "web_ok P w" and "authSession env mo rq cx w = (r, w')"
  shows "web_ok P w'" and "r = Some (Next cx') \<Longrightarrow> by_session P env mo rq cx'"
proof -
  let ?v = "validateSession (mo_readOnly mo) (the (rq_cookie rq)) (int (mo_now mo)) (wb_sessions w)"
  obtain v s' where v: "?v = (v, s')" by (cases ?v)
  have k: "keyed P (wb_sessions w)" using assms(1) by (simp add: web_ok_def)
  note keep = keyed_validate [OF k v]
  show "web_ok P w'" using assms v keep(1) by (auto simp: web_ok_def authSession_def split: if_splits sum.splits)
  assume r: "r = Some (Next cx')"
  then obtain ss where ss: "v = Inr ss" "present (rq_cookie rq)" "checkCsrf env rq ss = None"
      "cx' = cx\<lparr>cx_role := Some (if s_role ss = [] then ''viewer'' else s_role ss), cx_session := Some ss, cx_csrfToken := Some (s_csrfToken ss)\<rparr>"
    using assms(2) v by (auto simp: authSession_def split: if_splits sum.splits option.splits)
  then show "by_session P env mo rq cx'" using keep(2) [OF ss(1)] checkCsrf_pass [OF ss(3)] by (auto simp: by_session_def present_def)
qed

lemma authKey_ok:
  assumes "web_ok P w" and "authKey env mo rq cx w = (r, w')"
  shows "web_ok P w'" and "r = Some (Next cx') \<Longrightarrow> cx_session cx' = cx_session cx \<and> (\<exists>x. cx_role cx' = Some x \<and> x \<notin> {''admin'', ''mesh_peer''})"
proof -
  let ?v = "validateApiKey (we_digest env) (we_mac env) (mo_readOnly mo) (rq_apiKey rq) (int (mo_now mo)) (wb_keys w)"
  obtain v s' where v: "?v = (v, s')" by (cases ?v)
  have k: "unprivileged (wb_keys w)" using assms(1) by (simp add: web_ok_def)
  note keep = unprivileged_validate [OF k v]
  show "web_ok P w'" using assms v keep(1) by (auto simp: web_ok_def authKey_def split: if_splits)
  show "r = Some (Next cx') \<Longrightarrow> cx_session cx' = cx_session cx \<and> (\<exists>x. cx_role cx' = Some x \<and> x \<notin> {''admin'', ''mesh_peer''})"
    using assms(2) v keep(2) by (auto simp: authKey_def present_def split: if_splits)
qed

lemma authCredentials_ok:
  assumes "web_ok P w" and "authCredentials env mo rq cx w = (r, w')"
  shows "web_ok P w'" and "r = Next cx' \<Longrightarrow> granted P env mo rq cx cx'"
proof -
  obtain s w1 where s: "authSession env mo rq cx w = (s, w1)" by (cases "authSession env mo rq cx w")
  obtain k w2 where k: "authKey env mo rq cx w1 = (k, w2)" by (cases "authKey env mo rq cx w1")
  note so = authSession_ok [OF assms(1) s] note ko = authKey_ok [OF so(1) k]
  have "web_ok P w' \<and> (r = Next cx' \<longrightarrow> granted P env mo rq cx cx')" for cx'
  proof (cases s)
    case (Some x)
    then show ?thesis using assms(2) s so by (auto simp: granted_def authCredentials_def)
  next
    case None
    have m: "bearerToken rq \<noteq> None \<and> secureCompare (we_mac env) (bearerToken rq) (Some (we_masterToken env)) \<longleftrightarrow> by_master env rq"
      by (auto simp: by_master_def secureCompare_iff)
    show ?thesis
    proof (cases "by_master env rq")
      case True
      then show ?thesis using assms(2) s None so(1) unfolding authCredentials_def m by (auto simp: granted_def)
    next
      case False
      then show ?thesis using assms(2) s None k ko unfolding authCredentials_def m by (cases k) (auto simp: granted_def split: if_splits)
    qed
  qed
  then show "web_ok P w'" and "r = Next cx' \<Longrightarrow> granted P env mo rq cx cx'" by blast+
qed

lemma auth_ok:
  assumes "web_ok P w" and "auth env mo rq cx w = (r, w')"
  shows "web_ok P w'" and "r = Next cx' \<Longrightarrow> cx' = cx \<or> granted P env mo rq cx cx'"
proof -
  let ?w1 = "if starts_with (rq_path rq) ''/api/'' then w\<lparr>wb_rate := snd (checkLimit (getClientIp env rq) 500 60000 (mo_now mo) (wb_rate w))\<rparr> else w"
  have w1: "web_ok P ?w1" using assms(1) by (simp add: web_ok_def)
  have "(w' = w \<or> w' = ?w1) \<and> (r = Next cx' \<longrightarrow> cx' = cx) \<or> authCredentials env mo rq cx ?w1 = (r, w')" for cx'
    using assms(2) unfolding auth_def Let_def by (auto split: if_splits)
  then show "web_ok P w'" and "r = Next cx' \<Longrightarrow> cx' = cx \<or> granted P env mo rq cx cx'"
    using assms(1) w1 authCredentials_ok [OF w1] by blast+
qed

definition by_mesh :: "'p web_env \<Rightarrow> 'p request \<Rightarrow> bool" where
  "by_mesh env rq \<longleftrightarrow> (\<exists>secret. we_meshSecret env = Some secret \<and> secret \<noteq> [] \<and>
     ((\<exists>t. rq_meshSecret rq = Some t \<and> we_mac env t = we_mac env secret) \<or>
      (\<exists>p sig. rq_json rq = Some p \<and> rq_meshSignature rq = Some sig \<and> we_verifySignature env p sig)))"

lemma meshAuth_ok:
  assumes "web_ok P w" and "meshAuth env mo rq cx w = (r, w')"
  shows "web_ok P w'" and "r = Next cx' \<Longrightarrow> cx' = cx \<or> granted P env mo rq cx cx' \<or> cx_session cx' = cx_session cx \<and> cx_role cx' = Some ''mesh_peer'' \<and> by_mesh env rq"
proof -
  have "w' = w \<and> r = Next (cx\<lparr>cx_role := Some ''mesh_peer''\<rparr>) \<and> by_mesh env rq \<or> auth env mo rq cx w = (r, w')"
  proof (cases "we_meshSecret env")
    case (Some secret)
    then show ?thesis using assms(2) unfolding meshAuth_def Let_def by (auto simp: by_mesh_def present_def secureCompare_iff split: if_splits option.splits)
  qed (use assms(2) in \<open>simp add: meshAuth_def present_def\<close>)
  then show "web_ok P w'" and "r = Next cx' \<Longrightarrow> cx' = cx \<or> granted P env mo rq cx cx' \<or> cx_session cx' = cx_session cx \<and> cx_role cx' = Some ''mesh_peer'' \<and> by_mesh env rq"
    using assms(1) auth_ok(1) [OF assms(1), of env mo rq cx r w'] auth_ok(2) [OF assms(1), of env mo rq cx r w' cx'] by auto
qed

text \<open>The state of the context at a handler: no role, or one the request has credentials for; a session is the one of the cookie.\<close>

definition entitled :: "(string \<Rightarrow> string \<Rightarrow> string \<Rightarrow> int \<Rightarrow> bool) \<Rightarrow> 'p web_env \<Rightarrow> moment \<Rightarrow> bool \<Rightarrow> 'p request \<Rightarrow> web_context \<Rightarrow> bool" where
  "entitled P env mo mesh rq cx \<longleftrightarrow>
     (case cx_session cx of None \<Rightarrow> True | Some ss \<Rightarrow> rq_cookie rq = Some (s_id ss)) \<and>
     (cx_role cx = None \<or> by_session P env mo rq cx \<or> cx_role cx = Some ''admin'' \<and> by_master env rq \<or>
      (\<exists>r. cx_role cx = Some r \<and> r \<notin> {''admin'', ''mesh_peer''}) \<or> mesh \<and> cx_role cx = Some ''mesh_peer'' \<and> by_mesh env rq)"

lemma granted_entitled: "entitled P env mo mesh rq cx \<Longrightarrow> granted P env mo rq cx cx' \<Longrightarrow> entitled P env mo mesh rq cx'"
proof -
  assume e: "entitled P env mo mesh rq cx" and "granted P env mo rq cx cx'"
  then consider (session) "by_session P env mo rq cx'"
    | (token) "cx_session cx' = cx_session cx" "cx_role cx' = Some ''admin'' \<and> by_master env rq \<or> (\<exists>r. cx_role cx' = Some r \<and> r \<notin> {''admin'', ''mesh_peer''})"
    unfolding granted_def by blast
  then show "entitled P env mo mesh rq cx'"
  proof cases
    case session
    moreover have "case cx_session cx' of None \<Rightarrow> True | Some ss \<Rightarrow> rq_cookie rq = Some (s_id ss)" using session unfolding by_session_def by (auto split: option.split)
    ultimately show ?thesis unfolding entitled_def by blast
  next
    case token
    moreover have "case cx_session cx' of None \<Rightarrow> True | Some ss \<Rightarrow> rq_cookie rq = Some (s_id ss)" using e token(1) by (simp add: entitled_def)
    ultimately show ?thesis unfolding entitled_def by blast
  qed
qed

lemma globalAuth_ok:
  assumes "web_ok P w" and "globalAuth env mo rq w = (r, w')"
  shows "web_ok P w'" and "r = Next cx \<Longrightarrow> entitled P env mo mesh rq cx"
proof -
  let ?cx = "\<lparr>cx_role = None, cx_session = None, cx_csrfToken = None\<rparr>"
  have e: "entitled P env mo mesh rq ?cx" by (simp add: entitled_def)
  have "w' = w \<and> r = Next ?cx \<or> auth env mo rq ?cx w = (r, w')" using assms(2) unfolding globalAuth_def Let_def by (auto split: if_splits)
  then show "web_ok P w'" and "r = Next cx \<Longrightarrow> entitled P env mo mesh rq cx"
    using assms(1) e auth_ok(1) [OF assms(1), of env mo rq ?cx r w'] auth_ok(2) [OF assms(1), of env mo rq ?cx r w' cx] granted_entitled [OF e, of cx] by auto
qed

lemma requireRole_Next:
  "requireRole roles cx = Next cx' \<longleftrightarrow> cx' = cx \<and> (\<exists>r \<in> set roles. cx_role cx = Some r \<and> r \<noteq> [])"
  "Next cx' = requireRole roles cx \<longleftrightarrow> cx' = cx \<and> (\<exists>r \<in> set roles. cx_role cx = Some r \<and> r \<noteq> [])"
  by (auto simp: requireRole_def present_def)

lemma uiGate_Next: "uiGate env rq cx = Next cx' \<Longrightarrow> cx' = cx"
  by (auto simp: uiGate_def requireRole_Next split: if_splits)

lemma apiGate_ok:
  assumes "web_ok P w" and "entitled P env mo (rt_mesh rt) rq cx" and "apiGate env mo rt rq cx w = (r, w')"
  shows "web_ok P w'"
    and "r = Next cx' \<Longrightarrow> entitled P env mo (rt_mesh rt) rq cx' \<and> (\<forall>roles. rt_roles rt = Some roles \<longrightarrow> (\<exists>x \<in> set roles. cx_role cx' = Some x \<and> x \<noteq> []))"
proof -
  obtain m w1 where m: "(if rt_mesh rt then meshAuth env mo rq cx w else (Next cx, w)) = (m, w1)" by (cases "if rt_mesh rt then meshAuth env mo rq cx w else (Next cx, w)")
  have k: "web_ok P w1" using m assms(1) meshAuth_ok(1) by (fastforce split: if_splits)
  have e: "entitled P env mo (rt_mesh rt) rq cx1" if n: "m = Next cx1" for cx1
  proof (cases "rt_mesh rt")
    case True
    then have "meshAuth env mo rq cx w = (m, w1)" using m by simp
    from meshAuth_ok(2) [OF assms(1) this n] show ?thesis
    proof (elim disjE)
      assume "cx_session cx1 = cx_session cx \<and> cx_role cx1 = Some ''mesh_peer'' \<and> by_mesh env rq"
      then show ?thesis using assms(2) True by (simp add: entitled_def)
    qed (use assms(2) granted_entitled [OF assms(2)] in auto)
  next
    case False
    then show ?thesis using m n assms(2) by simp
  qed
  have g: "apiGate env mo rt rq cx w = (case m of Next c \<Rightarrow> (case rt_roles rt of None \<Rightarrow> Next c | Some roles \<Rightarrow> requireRole roles c, w1) | _ \<Rightarrow> (m, w1))"
    unfolding apiGate_def m by (cases m) auto
  then show "web_ok P w'" using assms(3) k by (auto split: outcome.splits)
  show "r = Next cx' \<Longrightarrow> entitled P env mo (rt_mesh rt) rq cx' \<and> (\<forall>roles. rt_roles rt = Some roles \<longrightarrow> (\<exists>x \<in> set roles. cx_role cx' = Some x \<and> x \<noteq> []))"
    using g assms(3) e by (auto simp: requireRole_Next split: outcome.splits option.splits)
qed

lemma dispatch_ok:
  assumes "web_ok P w" and "dispatch env mo route rq w = (r, w')"
  shows "web_ok P w'"
    and "r = Next cx \<Longrightarrow> route = Some rt \<Longrightarrow> entitled P env mo (rt_mesh rt) rq cx \<and> (\<forall>roles. rt_roles rt = Some roles \<longrightarrow> (\<exists>x \<in> set roles. cx_role cx = Some x \<and> x \<noteq> []))"
proof -
  obtain g w1 where g: "globalAuth env mo rq w = (g, w1)" by (cases "globalAuth env mo rq w")
  note go = globalAuth_ok [OF assms(1) g]
  have "web_ok P w' \<and> (r = Next cx \<longrightarrow> route = Some rt \<longrightarrow> entitled P env mo (rt_mesh rt) rq cx \<and> (\<forall>roles. rt_roles rt = Some roles \<longrightarrow> (\<exists>x \<in> set roles. cx_role cx = Some x \<and> x \<noteq> [])))" for cx rt
  proof (cases "\<exists>c. g = Next c \<and> uiGate env rq c = Next c \<and> route \<noteq> None")
    case True
    then obtain c x where c: "g = Next c" "uiGate env rq c = Next c" "route = Some x" by auto
    then have a: "apiGate env mo x rq c w1 = (r, w')" using assms(2) g by (simp add: dispatch_def)
    show ?thesis using apiGate_ok [OF go(1) go(2) [OF c(1)] a] c(3) by auto
  next
    case False
    then have "w' = w1 \<and> (route = None \<or> r \<noteq> Next cx)"
      using assms(2) g by (cases g) (auto simp: dispatch_def dest: uiGate_Next split: outcome.splits option.splits)
    then show ?thesis using go(1) by auto
  qed
  then show "web_ok P w'" and "r = Next cx \<Longrightarrow> route = Some rt \<Longrightarrow> entitled P env mo (rt_mesh rt) rq cx \<and> (\<forall>roles. rt_roles rt = Some roles \<longrightarrow> (\<exists>x \<in> set roles. cx_role cx = Some x \<and> x \<noteq> []))"
    by blast+
qed

section \<open>Every history\<close>

text \<open>The logins that succeeded, with the token that was presented.\<close>

record login =
  lg_id :: string
  lg_token :: "string option"
  lg_role :: string
  lg_csrf :: string
  lg_expires :: int

datatype 'p web_op =
    Visit moment "api_route option" "'p request"
  | Login moment "'p request" "string option" string string
  | Logout moment "'p request"
  | Keys api_op
  | CleanUp moment
  | Limiter rate_limit

text \<open>Keys are managed by the handlers of administrators; \<open>Limiter\<close> is any background write of the rate limiter.\<close>

fun web_step :: "'p web_env \<Rightarrow> web \<times> login list \<Rightarrow> 'p web_op \<Rightarrow> web \<times> login list" where
  "web_step env (w, logins) (Visit mo route rq) = (snd (dispatch env mo route rq w), logins)"
| "web_step env (w, logins) (Login mo rq token sid csrf) =
    (case postLogin env mo rq token sid csrf w of ((_, created), w') \<Rightarrow>
       (w', case created of None \<Rightarrow> logins
          | Some ss \<Rightarrow> logins @ [\<lparr>lg_id = s_id ss, lg_token = token, lg_role = s_role ss, lg_csrf = s_csrfToken ss, lg_expires = s_expiresAt ss\<rparr>]))"
| "web_step env (w, logins) (Logout mo rq) = (snd (logout mo rq w), logins)"
| "web_step env (w, logins) (Keys op) = (w\<lparr>wb_keys := api_step (we_digest env) (we_mac env) op (wb_keys w)\<rparr>, logins)"
| "web_step env (w, logins) (CleanUp mo) = (w\<lparr>wb_sessions := snd (cleanupExpired (mo_readOnly mo) (int (mo_now mo)) (wb_sessions w))\<rparr>, logins)"
| "web_step env (w, logins) (Limiter r) = (w\<lparr>wb_rate := r\<rparr>, logins)"

definition new_web :: web where
  "new_web = \<lparr>wb_rate = emptyRateLimit, wb_sessions = \<lparr>kv_entries = [], kv_clock = 0\<rparr>,
     wb_keys = \<lparr>hashRepo = \<lparr>kv_entries = [], kv_clock = 0\<rparr>, idRepo = \<lparr>kv_entries = [], kv_clock = 0\<rparr>\<rparr>\<rparr>"

definition web_run :: "'p web_env \<Rightarrow> 'p web_op list \<Rightarrow> web \<times> login list" where
  "web_run env ops = foldl (web_step env) (new_web, []) ops"

text \<open>A login as administrator presented the master token; no login has the role of a mesh peer.\<close>

definition honest :: "'p web_env \<Rightarrow> login \<Rightarrow> bool" where
  "honest env l \<longleftrightarrow> (if lg_role l = ''admin'' then (\<exists>t. lg_token l = Some t \<and> we_mac env t = we_mac env (we_masterToken env)) else lg_role l \<noteq> ''mesh_peer'')"

definition logged_in :: "login list \<Rightarrow> string \<Rightarrow> string \<Rightarrow> string \<Rightarrow> int \<Rightarrow> bool" where
  "logged_in logins i role csrf expires \<longleftrightarrow> (\<exists>l \<in> set logins. lg_id l = i \<and> lg_role l = role \<and> lg_csrf l = csrf \<and> lg_expires l = expires)"

definition web_inv :: "'p web_env \<Rightarrow> web \<times> login list \<Rightarrow> bool" where
  "web_inv env st \<longleftrightarrow> web_ok (logged_in (snd st)) (fst st) \<and> list_all (honest env) (snd st)"

lemma keyed_mono: "keyed P s \<Longrightarrow> (\<And>i r c e. P i r c e \<Longrightarrow> Q i r c e) \<Longrightarrow> keyed Q s"
  unfolding keyed_def by blast

lemma isTokenValid_ok:
  assumes "web_ok P w" and "isTokenValid env mo token w = (r, w')"
  shows "web_ok P w'" and "r = Some role \<Longrightarrow> if role = ''admin'' then (\<exists>t. token = Some t \<and> we_mac env t = we_mac env (we_masterToken env)) else role \<noteq> ''mesh_peer''"
proof -
  let ?v = "validateApiKey (we_digest env) (we_mac env) (mo_readOnly mo) token (int (mo_now mo)) (wb_keys w)"
  obtain v keys where v: "?v = (v, keys)" by (cases ?v)
  have u: "unprivileged (wb_keys w)" using assms(1) by (simp add: web_ok_def)
  note keep = unprivileged_validate [OF u v]
  show "web_ok P w'" using assms v keep(1) by (auto simp: isTokenValid_def web_ok_def split: if_splits)
  assume r: "r = Some role"
  show "if role = ''admin'' then (\<exists>t. token = Some t \<and> we_mac env t = we_mac env (we_masterToken env)) else role \<noteq> ''mesh_peer''"
  proof (cases "secureCompare (we_mac env) token (Some (we_masterToken env))")
    case True
    then show ?thesis using assms(2) r by (simp add: isTokenValid_def secureCompare_iff)
  next
    case False
    then have "v = Some role" using assms(2) r v by (auto simp: isTokenValid_def split: if_splits)
    then show ?thesis using keep(2) by auto
  qed
qed

lemma postLogin_ok:
  assumes "web_inv env (w, logins)"
  shows "web_inv env (web_step env (w, logins) (Login mo rq token sid csrf))"
proof -
  let ?l = "checkLimit (''login:'' @ getClientIp env rq) 10 60000 (mo_now mo) (wb_rate w)"
  define w1 where "w1 = w\<lparr>wb_rate := snd ?l\<rparr>"
  obtain r w2 where r: "isTokenValid env mo token w1 = (r, w2)" by (cases "isTokenValid env mo token w1")
  have "web_ok (logged_in logins) w1" using assms by (simp add: web_inv_def web_ok_def w1_def)
  note t = isTokenValid_ok [OF this r]
  show ?thesis
  proof (cases "allowed (fst ?l) \<and> r \<noteq> None")
    case False
    then have "fst (postLogin env mo rq token sid csrf w) = (fst (fst (postLogin env mo rq token sid csrf w)), None)" "snd (postLogin env mo rq token sid csrf w) \<in> {w1, w2}"
      using r by (auto simp: postLogin_def Let_def w1_def split: prod.splits option.splits)
    then show ?thesis using assms t(1) \<open>web_ok (logged_in logins) w1\<close> by (auto simp: web_inv_def split: prod.split)
  next
    case True
    then obtain role where role: "r = Some role" by auto
    let ?ss = "\<lparr>s_id = sid, s_userId = role, s_role = role, s_createdAt = int (mo_now mo), s_expiresAt = int (mo_now mo) + we_ttlHours env * 60 * 60 * 1000, s_lastSeen = int (mo_now mo), s_csrfToken = csrf\<rparr>"
    let ?new = "\<lparr>lg_id = sid, lg_token = token, lg_role = role, lg_csrf = csrf, lg_expires = int (mo_now mo) + we_ttlHours env * 60 * 60 * 1000\<rparr>"
    obtain e s' where sv: "saveSession (mo_readOnly mo) ?ss (wb_sessions w2) = (e, s')" by (cases "saveSession (mo_readOnly mo) ?ss (wb_sessions w2)")
    have k: "keyed (logged_in (logins @ [?new])) (wb_sessions w2)" "unprivileged (wb_keys w2)"
      using t(1) by (auto simp: web_ok_def logged_in_def intro: keyed_mono)
    have k': "keyed (logged_in (logins @ [?new])) s'" using keyed_save [OF k(1), of ?ss "mo_readOnly mo"] sv by (simp add: logged_in_def)
    have h: "honest env ?new" using t(2) [OF role] by (simp add: honest_def)
    have "e = Inr () \<or> (\<exists>x. e = Inl x \<and> s' = wb_sessions w2)" using sv by (cases "mo_readOnly mo") (auto simp: saveSession_def quiet_repo_set checkWritePermission_def)
    then show ?thesis
    proof
      assume "e = Inr ()"
      then have "web_step env (w, logins) (Login mo rq token sid csrf) = (w2\<lparr>wb_sessions := s'\<rparr>, logins @ [?new])"
        using True r role sv unfolding w1_def by (simp add: postLogin_def createSession_def Let_def split_beta)
      then show ?thesis using assms k(2) k' h by (simp add: web_inv_def web_ok_def)
    next
      assume "\<exists>x. e = Inl x \<and> s' = wb_sessions w2"
      then have "web_step env (w, logins) (Login mo rq token sid csrf) = (w2, logins)"
        using True r role sv unfolding w1_def by (auto simp: postLogin_def createSession_def Let_def split_beta)
      then show ?thesis using assms t(1) by (simp add: web_inv_def)
    qed
  qed
qed

lemma web_step_inv:
  assumes "web_inv env (w, logins)" shows "web_inv env (web_step env (w, logins) op)"
proof (cases op)
  case (Visit mo route rq)
  then show ?thesis using assms dispatch_ok(1) [of "logged_in logins" w env mo route rq] by (cases "dispatch env mo route rq w") (auto simp: web_inv_def)
next
  case (Logout mo rq)
  then show ?thesis using assms keyed_deleteSession [of "logged_in logins" "wb_sessions w" "mo_readOnly mo" "the (rq_cookie rq)"]
    by (auto simp: web_inv_def web_ok_def logout_def revokeSession_def split: prod.split sum.split)
next
  case (Login mo rq token sid csrf)
  then show ?thesis using postLogin_ok [OF assms] by simp
qed (use assms in \<open>auto simp: web_inv_def web_ok_def keyed_cleanup api_step_unprivileged\<close>)

lemma web_run_inv: "web_inv env (web_run env ops)"
  unfolding web_run_def
proof (rule foldl_invariant [of "web_inv env"])
  show "web_inv env (new_web, [])" by (simp add: web_inv_def web_ok_def new_web_def keyed_def unprivileged_def repo_get_def kv_get_def)
qed (use web_step_inv in \<open>auto split: prod.splits\<close>)

section \<open>Privileged handlers\<close>

text \<open>
  C8: the roles of the web interface cannot be obtained without their credentials. After any history of requests, logins, logouts, clean-ups, creations and
  revocations of API keys, whatever the rate limiter does, a handler of the API that is not public is reached only with one of its roles. The
  role admin needs the master token: as the bearer token of this request, or as the token of an earlier login whose session is the cookie of this
  request and has not expired, and then a request that changes something also carries the token of that session. The role of a mesh peer needs a route for
  peers and the mesh secret or a verified signature. Tokens are compared by their keyed hashes.
\<close>

theorem handlers_authorized:
  assumes "web_run env ops = (w, logins)" and "dispatch env mo (Some rt) rq w = (Next cx, w')" and "rt_roles rt = Some roles"
  shows "\<exists>role \<in> set roles. cx_role cx = Some role \<and>
    (role = ''admin'' \<longrightarrow> (\<exists>t. bearerToken rq = Some t \<and> we_mac env t = we_mac env (we_masterToken env)) \<or>
      (\<exists>l \<in> set logins. rq_cookie rq = Some (lg_id l) \<and> lg_role l = ''admin'' \<and> int (mo_now mo) \<le> lg_expires l \<and>
        (\<exists>t. lg_token l = Some t \<and> we_mac env t = we_mac env (we_masterToken env)) \<and>
        (mutating rq \<longrightarrow> (\<exists>t. providedToken rq = Some t \<and> we_mac env t = we_mac env (lg_csrf l))))) \<and>
    (role = ''mesh_peer'' \<longrightarrow> rt_mesh rt \<and> (\<exists>secret. we_meshSecret env = Some secret \<and> secret \<noteq> [] \<and>
      ((\<exists>t. rq_meshSecret rq = Some t \<and> we_mac env t = we_mac env secret) \<or>
       (\<exists>p sig. rq_json rq = Some p \<and> rq_meshSignature rq = Some sig \<and> we_verifySignature env p sig))))"
proof -
  have inv: "web_ok (logged_in logins) w" "\<And>l. l \<in> set logins \<Longrightarrow> honest env l"
    using web_run_inv [of env ops] assms(1) by (auto simp: web_inv_def list_all_iff)
  obtain role where role: "role \<in> set roles" "cx_role cx = Some role" and e: "entitled (logged_in logins) env mo (rt_mesh rt) rq cx"
    using dispatch_ok(2) [OF inv(1) assms(2) refl refl] assms(3) by blast
  have session: "role \<noteq> ''mesh_peer'' \<and> (role = ''admin'' \<longrightarrow> (\<exists>l \<in> set logins. rq_cookie rq = Some (lg_id l) \<and> lg_role l = ''admin'' \<and> int (mo_now mo) \<le> lg_expires l \<and>
        (\<exists>t. lg_token l = Some t \<and> we_mac env t = we_mac env (we_masterToken env)) \<and>
        (mutating rq \<longrightarrow> (\<exists>t. providedToken rq = Some t \<and> we_mac env t = we_mac env (lg_csrf l)))))" if bs: "by_session (logged_in logins) env mo rq cx"
  proof -
    obtain ss :: session where ss: "rq_cookie rq = Some (s_id ss)" "cx_role cx = Some (if s_role ss = [] then ''viewer'' else s_role ss)" "int (mo_now mo) \<le> s_expiresAt ss"
        "mutating rq \<longrightarrow> (\<exists>t. providedToken rq = Some t \<and> we_mac env t = we_mac env (s_csrfToken ss))"
        "logged_in logins (s_id ss) (s_role ss) (s_csrfToken ss) (s_expiresAt ss)"
      using bs unfolding by_session_def by blast
    obtain l where l: "l \<in> set logins" "lg_id l = s_id ss" "lg_role l = s_role ss" "lg_csrf l = s_csrfToken ss" "lg_expires l = s_expiresAt ss"
      using ss(5) unfolding logged_in_def by blast
    show ?thesis
    proof (cases "role = ''admin''")
      case True
      then have a: "lg_role l = ''admin''" using ss(2) role(2) l(3) by (auto split: if_splits)
      then show ?thesis using inv(2) [OF l(1)] ss(1,3,4) l True unfolding honest_def by (intro conjI impI bexI [of _ l]) auto
    next
      case False
      then have "role = ''viewer'' \<or> role = lg_role l \<and> lg_role l \<noteq> ''admin''" using ss(2) role(2) l(3) by (auto split: if_splits)
      then show ?thesis using inv(2) [OF l(1)] False unfolding honest_def by auto
    qed
  qed
  have "(role = ''admin'' \<longrightarrow> by_master env rq \<or> by_session (logged_in logins) env mo rq cx) \<and> (role = ''mesh_peer'' \<longrightarrow> rt_mesh rt \<and> by_mesh env rq)"
    using e role(2) session unfolding entitled_def by auto
  then have adm: "role = ''admin'' \<Longrightarrow> by_master env rq \<or> by_session (logged_in logins) env mo rq cx" and peer: "role = ''mesh_peer'' \<Longrightarrow> rt_mesh rt \<and> by_mesh env rq" by simp_all
  show ?thesis
  proof (rule bexI [OF _ role(1)], intro conjI impI)
    assume a: "role = ''admin''"
    show "(\<exists>t. bearerToken rq = Some t \<and> we_mac env t = we_mac env (we_masterToken env)) \<or>
      (\<exists>l \<in> set logins. rq_cookie rq = Some (lg_id l) \<and> lg_role l = ''admin'' \<and> int (mo_now mo) \<le> lg_expires l \<and>
        (\<exists>t. lg_token l = Some t \<and> we_mac env t = we_mac env (we_masterToken env)) \<and>
        (mutating rq \<longrightarrow> (\<exists>t. providedToken rq = Some t \<and> we_mac env t = we_mac env (lg_csrf l))))"
    proof (cases "by_master env rq")
      case True
      then show ?thesis unfolding by_master_def by (rule disjI1)
    next
      case False
      then show ?thesis using adm [OF a] session a by (intro disjI2) simp
    qed
  qed (use role(2) peer in \<open>simp_all add: by_mesh_def\<close>)
qed

definition sampleEnv :: "nat web_env" where
  "sampleEnv = \<lparr>we_mac = map (\<lambda>c. of_char c), we_digest = (\<lambda>s. s), we_masterToken = ''m'', we_trustedProxies = [], we_meshSecret = None,
     we_verifySignature = (\<lambda>p sig. False), we_publicPaths = [], we_ttlHours = 1\<rparr>"

definition sampleRequest :: "nat request" where
  "sampleRequest = \<lparr>rq_path = ''/api/admin'', rq_method = ''POST'', rq_remote = Some ''10.0.0.1'', rq_forwarded = None, rq_agent = None, rq_csrf = Some ''c'',
     rq_contentType = None, rq_formCsrf = None, rq_authorization = None, rq_apiKey = None, rq_meshSignature = None, rq_meshSecret = None, rq_cookie = Some ''s'', rq_json = None\<rparr>"

definition sampleMoment :: moment where
  "sampleMoment = \<lparr>mo_now = 5, mo_readOnly = False, mo_blacklist = []\<rparr>"

definition sampleSession :: session where
  "sampleSession = \<lparr>s_id = ''s'', s_userId = ''admin'', s_role = ''admin'', s_createdAt = 5, s_expiresAt = 3600005, s_lastSeen = 5, s_csrfToken = ''c''\<rparr>"

definition sampleContext :: web_context where
  "sampleContext = \<lparr>cx_role = Some ''admin'', cx_session = Some sampleSession, cx_csrfToken = Some ''c''\<rparr>"

definition sampleLogin :: "nat web_op" where
  "sampleLogin = Login sampleMoment sampleRequest (Some ''m'') ''s'' ''c''"

lemma sample_ip: "getClientIp sampleEnv sampleRequest = ''10.0.0.1''"
  by (simp add: getClientIp_def resolveClientIp_def present_def sampleRequest_def)

lemma sample_sessions: "repo_get ''s'' (wb_sessions (fst (web_run sampleEnv [sampleLogin]))) = Some sampleSession"
proof -
  have t: "isTokenValid sampleEnv sampleMoment (Some ''m'') w = (Some ''admin'', w)" for w by (simp add: isTokenValid_def secureCompare_iff sampleEnv_def)
  show ?thesis
    by (simp add: web_run_def sampleLogin_def postLogin_def sample_ip t checkLimit_def new_web_def emptyRateLimit_def Let_def createSession_def)
       (simp add: sampleMoment_def sampleEnv_def saveSession_quiet sampleSession_def)
qed

lemma sample_rate: "memoryTier (wb_rate (fst (web_run sampleEnv [sampleLogin]))) = [(''login:10.0.0.1'', \<lparr>rl_count = 1, rl_resetAt = 60005, rl_synced = 0, rl_inflight = False, rl_id = 0\<rparr>)]"
proof -
  have t: "isTokenValid sampleEnv sampleMoment (Some ''m'') w = (Some ''admin'', w)" for w by (simp add: isTokenValid_def secureCompare_iff sampleEnv_def)
  show ?thesis
    by (simp add: web_run_def sampleLogin_def postLogin_def sample_ip t checkLimit_def new_web_def emptyRateLimit_def Let_def createSession_def)
       (simp add: sampleMoment_def sampleEnv_def saveSession_quiet)
qed

lemma sample_reaches:
  "fst (dispatch sampleEnv sampleMoment (Some \<lparr>rt_mesh = False, rt_roles = Some [''admin'']\<rparr>) sampleRequest (fst (web_run sampleEnv [sampleLogin]))) = Next sampleContext"
proof -
  let ?w = "fst (web_run sampleEnv [sampleLogin])"
  have p: "rq_path sampleRequest = ''/api/admin''" "\<not> isAuthRoute ''/api/admin''" "\<not> isPublicPath ''/api/admin''" "starts_with ''/api/admin'' ''/api/''" "\<not> starts_with ''/api/admin'' ''/api/mesh/''"
    "\<not> starts_with ''/api/admin'' ''/assets/''" "\<not> starts_with ''/api/admin'' ''/vendor/''"
    by (simp_all add: sampleRequest_def isAuthRoute_def isPublicPath_def)
  have v: "fst (validateSession False ''s'' 5 (wb_sessions ?w)) = Inr sampleSession" using sample_sessions
    by (simp add: validateSession_def validateRead_def validateWrite_def saveSession_quiet sampleSession_def)
  have c: "checkCsrf sampleEnv sampleRequest sampleSession = None"
    by (simp add: checkCsrf_def sampleRequest_def present_def providedToken_def sampleSession_def secureCompare_iff)
  have a: "allowed (fst (checkLimit ''10.0.0.1'' 500 60000 (mo_now sampleMoment) (wb_rate ?w)))"
    using sample_rate by (simp add: checkLimit_def Let_def split: option.split)
  have s: "fst (authSession sampleEnv sampleMoment sampleRequest \<lparr>cx_role = None, cx_session = None, cx_csrfToken = None\<rparr> (?w\<lparr>wb_rate := r\<rparr>)) = Some (Next sampleContext)" for r
    using v c by (cases "validateSession False ''s'' 5 (wb_sessions ?w)")
      (simp add: authSession_def sampleMoment_def present_def sampleContext_def sampleRequest_def, simp add: sampleSession_def)
  then obtain w2 where "authSession sampleEnv sampleMoment sampleRequest \<lparr>cx_role = None, cx_session = None, cx_csrfToken = None\<rparr>
      (?w\<lparr>wb_rate := snd (checkLimit ''10.0.0.1'' 500 60000 (mo_now sampleMoment) (wb_rate ?w))\<rparr>) = (Some (Next sampleContext), w2)" by (metis prod.collapse)
  then have "globalAuth sampleEnv sampleMoment sampleRequest ?w = (Next sampleContext, w2)"
    using p a by (simp add: globalAuth_def auth_def authCredentials_def sample_ip Let_def) (simp add: sampleMoment_def)
  then show ?thesis using p by (simp add: dispatch_def uiGate_def apiGate_def requireRole_def present_def sampleContext_def)
qed

theorem handlers_authorized_witness:
  "\<exists>role \<in> set [''admin'']. cx_role sampleContext = Some role \<and>
    (role = ''admin'' \<longrightarrow> (\<exists>t. bearerToken sampleRequest = Some t \<and> we_mac sampleEnv t = we_mac sampleEnv ''m'') \<or>
      (\<exists>l \<in> set (snd (web_run sampleEnv [sampleLogin])). rq_cookie sampleRequest = Some (lg_id l) \<and> lg_role l = ''admin'' \<and> 5 \<le> lg_expires l))"
proof -
  have r: "web_run sampleEnv [sampleLogin] = (fst (web_run sampleEnv [sampleLogin]), snd (web_run sampleEnv [sampleLogin]))" by simp
  obtain w' where "dispatch sampleEnv sampleMoment (Some \<lparr>rt_mesh = False, rt_roles = Some [''admin'']\<rparr>) sampleRequest (fst (web_run sampleEnv [sampleLogin])) = (Next sampleContext, w')"
    using sample_reaches by (metis prod.collapse)
  from handlers_authorized [OF r this] have "\<exists>role \<in> set [''admin'']. cx_role sampleContext = Some role \<and>
    (role = ''admin'' \<longrightarrow> (\<exists>t. bearerToken sampleRequest = Some t \<and> we_mac sampleEnv t = we_mac sampleEnv (we_masterToken sampleEnv)) \<or>
      (\<exists>l \<in> set (snd (web_run sampleEnv [sampleLogin])). rq_cookie sampleRequest = Some (lg_id l) \<and> lg_role l = ''admin'' \<and> int (mo_now sampleMoment) \<le> lg_expires l))"
    by (simp; blast)
  moreover have "we_masterToken sampleEnv = ''m''" "int (mo_now sampleMoment) = 5" by (simp_all add: sampleEnv_def sampleMoment_def)
  ultimately show ?thesis by (simp only:)
qed

text \<open>
  The audit ledger records session tokens. The actor of a request that is authenticated by a session has as its id the session id, which is the
  value of the cookie that authenticates: the name the code looks for first is not a field of a session.
\<close>

lemma actor_is_cookie:
  assumes "web_run env ops = (w, logins)" and "dispatch env mo (Some rt) rq w = (Next cx, w')" and "cx_session cx \<noteq> None"
  shows "rq_cookie rq = Some (a_id (getActor env rq cx))"
proof -
  have "web_ok (logged_in logins) w" using web_run_inv [of env ops] assms(1) by (simp add: web_inv_def)
  from dispatch_ok(2) [OF this assms(2) refl refl] have "entitled (logged_in logins) env mo (rt_mesh rt) rq cx" by blast
  then show ?thesis using assms(3) by (auto simp: entitled_def getActor_def split: option.splits)
qed

end
