(* ===== verification/Sidecar_Manager.thy ===== *)
theory Sidecar_Manager
  imports Json_Parse
begin

text \<open>
  The orchestrator's side of an agent process, infrastructure/runtime/sidecar_manager.ts with the waiters of ipc_coordinator.ts and the restart counters
  of sidecar_spawner.ts: reading lines from its output, the limit on nested JSON, commands that wait for their responses, and the decisions to start and
  restart it. One agent is modelled; the maps of the sources have one entry per agent name and no operation touches two.
\<close>

section \<open>Lines\<close>

definition MAX_BUFFER_SIZE :: nat where
  "MAX_BUFFER_SIZE = 10 * 1024 * 1024"

definition MAX_LINE_LENGTH :: nat where
  "MAX_LINE_LENGTH = 1024 * 1024"

text \<open>One chunk of output: the lines it completes and the rest that stays in the buffer. Lengths are in bytes, as for every string of the model; the decoder keeps the
  bytes of an unfinished character for the next chunk, so that decoding and appending commute.\<close>

definition readChunk :: "string \<Rightarrow> string \<Rightarrow> string list \<times> string" where
  "readChunk buffer value =
    (let buffer' = (if length buffer + length value > MAX_BUFFER_SIZE then take MAX_BUFFER_SIZE value else buffer @ value);
         lines = split_char (CHR 0x0A) buffer'
     in (butlast lines, last lines))"

fun readChunks :: "string \<Rightarrow> string list \<Rightarrow> string list \<times> string" where
  "readChunks buffer [] = ([], buffer)"
| "readChunks buffer (c # cs) = (case readChunk buffer c of (lines, rest) \<Rightarrow> case readChunks rest cs of (others, final) \<Rightarrow> (lines @ others, final))"

text \<open>What a line is: too long, empty, a sign of life, a notice that the ring has events, a log entry, or a message. A heartbeat in JSON is also a message, and so is a log
  entry that cannot be read.\<close>

datatype line_kind = Oversized | Empty | Heartbeat | RingNotice | LogEntry json | Message string

definition classify :: "string \<Rightarrow> line_kind" where
  "classify line =
    (if length line > MAX_LINE_LENGTH then Oversized
     else let trimmed = trim line
       in if trimmed = [] then Empty
          else if trimmed = ''HEARTBEAT'' then Heartbeat
          else if starts_with trimmed ''SHMEM_UPDATE:'' then RingNotice
          else if starts_with trimmed ''[LOG] ''
          then (case JSON_parse (drop 6 trimmed) of None \<Rightarrow> Message trimmed | Some JNull \<Rightarrow> Message trimmed | Some v \<Rightarrow> LogEntry v)
          else Message trimmed)"

section \<open>Nesting\<close>

record scan =
  sc_depth :: int
  sc_max :: int
  sc_inString :: bool
  sc_escaped :: bool

definition scanChar :: "char \<Rightarrow> scan \<Rightarrow> scan" where
  "scanChar c s =
    (if sc_escaped s then s\<lparr>sc_escaped := False\<rparr>
     else if c = CHR 0x5C then s\<lparr>sc_escaped := True\<rparr>
     else if c = CHR 0x22 then s\<lparr>sc_inString := \<not> sc_inString s\<rparr>
     else if sc_inString s then s
     else if c = CHR ''{'' \<or> c = CHR ''['' then s\<lparr>sc_depth := sc_depth s + 1, sc_max := max (sc_max s) (sc_depth s + 1)\<rparr>
     else if c = CHR ''}'' \<or> c = CHR '']'' then s\<lparr>sc_depth := sc_depth s - 1\<rparr>
     else s)"

definition MAX_NESTING :: int where
  "MAX_NESTING = 8"

text \<open>The loop, which stops when it is too deep.\<close>

fun scanText :: "string \<Rightarrow> scan \<Rightarrow> scan" where
  "scanText [] s = s"
| "scanText (c # cs) s = (let s' = scanChar c s in if sc_depth s' > MAX_NESTING then s' else scanText cs s')"

definition tooDeep :: "string \<Rightarrow> bool" where
  "tooDeep text = (let s = scanText text \<lparr>sc_depth = 0, sc_max = 0, sc_inString = False, sc_escaped = False\<rparr>
     in sc_depth s > MAX_NESTING \<or> sc_max s > MAX_NESTING)"

section \<open>Commands\<close>

text \<open>How \<open>Promise.race\<close> of response and timer, or the write, settled; \<open>Failed\<close> is an exception of the write.\<close>

datatype 'r settled = Answered 'r | Expired | Failed

datatype phase = Queued | Sent | Done

record 'r command =
  cm_id :: string
  cm_deadline :: nat
  cm_timer :: bool
  cm_settled :: "'r settled option"
  cm_phase :: phase

text \<open>The commands in the order in which they took their place in the chain of locks, the ids with a waiter, the ids written to the agent and the responses
  received, also those no command waits for.\<close>

record 'r channel =
  ch_commands :: "'r command list"
  ch_waiters :: "string list"
  ch_now :: nat
  ch_sent :: "string list"
  ch_received :: "(string \<times> 'r) list"

definition timeoutMs :: "string \<Rightarrow> nat" where
  "timeoutMs type = (if type \<in> {''KillProcess'', ''BlockIp'', ''QuarantineProcess'', ''DumpProcess'', ''LOCKDOWN'', ''ENFORCE_PID''} then 5000 else 60000)"

text \<open>\<open>Issue\<close> runs up to the wait for the lock, \<open>Acquire\<close> from there to the wait for the race, \<open>Finish\<close> the rest.\<close>

datatype 'r channel_op = Issue string string | Elapse nat | Expire nat | Acquire nat | WriteFails nat | Respond string 'r | Finish nat

definition addWaiter :: "string \<Rightarrow> string list \<Rightarrow> string list" where
  "addWaiter i ws = (if i \<in> set ws then ws else ws @ [i])"

definition removeWaiter :: "string \<Rightarrow> string list \<Rightarrow> string list" where
  "removeWaiter i ws = filter (\<lambda>w. w \<noteq> i) ws"

definition settle :: "'r settled \<Rightarrow> 'r command \<Rightarrow> 'r command" where
  "settle x c = (if cm_settled c = None then c\<lparr>cm_settled := Some x\<rparr> else c)"

definition upd :: "nat \<Rightarrow> ('r command \<Rightarrow> 'r command) \<Rightarrow> 'r channel \<Rightarrow> 'r channel" where
  "upd n f ch = ch\<lparr>ch_commands := (ch_commands ch)[n := f (ch_commands ch ! n)]\<rparr>"

text \<open>Command \<open>n\<close> has the lock when all before it have released theirs.\<close>

definition hasLock :: "nat \<Rightarrow> 'r channel \<Rightarrow> bool" where
  "hasLock n ch \<longleftrightarrow> n < length (ch_commands ch) \<and> cm_phase (ch_commands ch ! n) = Queued \<and> list_all (\<lambda>c. cm_phase c = Done) (take n (ch_commands ch))"

fun channel_step :: "'r channel \<Rightarrow> 'r channel_op \<Rightarrow> 'r channel" where
  "channel_step ch (Issue i type) =
    ch\<lparr>ch_commands := ch_commands ch @ [\<lparr>cm_id = i, cm_deadline = ch_now ch + timeoutMs type, cm_timer = True, cm_settled = None, cm_phase = Queued\<rparr>],
       ch_waiters := addWaiter i (ch_waiters ch)\<rparr>"
| "channel_step ch (Elapse d) = ch\<lparr>ch_now := ch_now ch + d\<rparr>"
| "channel_step ch (Expire n) =
    (if n < length (ch_commands ch) \<and> cm_timer (ch_commands ch ! n) \<and> cm_deadline (ch_commands ch ! n) \<le> ch_now ch
     then (upd n (\<lambda>c. settle Expired (c\<lparr>cm_timer := False\<rparr>)) ch)\<lparr>ch_waiters := removeWaiter (cm_id (ch_commands ch ! n)) (ch_waiters ch)\<rparr>
     else ch)"
| "channel_step ch (Acquire n) =
    (if hasLock n ch then (upd n (\<lambda>c. c\<lparr>cm_phase := Sent\<rparr>) ch)\<lparr>ch_sent := ch_sent ch @ [cm_id (ch_commands ch ! n)]\<rparr> else ch)"
| "channel_step ch (WriteFails n) =
    (if hasLock n ch
     then (upd n (\<lambda>c. c\<lparr>cm_phase := Done, cm_settled := Some Failed, cm_timer := False\<rparr>) ch)\<lparr>ch_waiters := removeWaiter (cm_id (ch_commands ch ! n)) (ch_waiters ch)\<rparr>
     else ch)"
| "channel_step ch (Respond i r) =
    (let ch' = ch\<lparr>ch_received := ch_received ch @ [(i, r)]\<rparr>
     in if i \<in> set (ch_waiters ch)
        then ch'\<lparr>ch_commands := map (\<lambda>c. if cm_id c = i then settle (Answered r) c else c) (ch_commands ch), ch_waiters := removeWaiter i (ch_waiters ch)\<rparr>
        else ch')"
| "channel_step ch (Finish n) =
    (if n < length (ch_commands ch) \<and> cm_phase (ch_commands ch ! n) = Sent \<and> cm_settled (ch_commands ch ! n) \<noteq> None
     then (upd n (\<lambda>c. c\<lparr>cm_phase := Done, cm_timer := False\<rparr>) ch)\<lparr>ch_waiters := removeWaiter (cm_id (ch_commands ch ! n)) (ch_waiters ch)\<rparr>
     else ch)"

definition channel_run :: "'r channel_op list \<Rightarrow> 'r channel" where
  "channel_run ops = foldl channel_step \<lparr>ch_commands = [], ch_waiters = [], ch_now = 0, ch_sent = [], ch_received = []\<rparr> ops"

section \<open>Starting and restarting\<close>

text \<open>\<open>spawning\<close> is the promise of a start: under way, or resolved but still registered.\<close>

datatype spawn_promise = Pending | Resolved bool

record agent =
  ag_config :: bool
  ag_running :: bool
  ag_spawning :: "spawn_promise option"
  ag_unsupported :: bool
  ag_tripped :: bool
  ag_shuttingDown :: bool
  ag_expectedExit :: bool
  ag_count :: nat
  ag_lastRestart :: nat

datatype start_result = NoProcess | Running | Joins

text \<open>\<open>getPersistentSidecar\<close> up to its first wait. Without a configuration the start resolves before its promise is registered, and the registration stays.\<close>

definition getPersistentSidecar :: "agent \<Rightarrow> start_result \<times> agent" where
  "getPersistentSidecar a =
    (if ag_unsupported a then (NoProcess, a)
     else if ag_tripped a then (NoProcess, a)
     else if ag_running a then (Running, a)
     else case ag_spawning a of
       Some Pending \<Rightarrow> (Joins, a)
     | Some (Resolved ok) \<Rightarrow> (if ok then Running else NoProcess, a)
     | None \<Rightarrow> if ag_config a then (Joins, a\<lparr>ag_spawning := Some Pending\<rparr>) else (NoProcess, a\<lparr>ag_spawning := Some (Resolved False)\<rparr>))"

text \<open>The start that is under way ends.\<close>

definition spawned :: "bool \<Rightarrow> agent \<Rightarrow> agent" where
  "spawned ok a = (if ag_spawning a = Some Pending then a\<lparr>ag_running := ag_running a \<or> ok, ag_spawning := None\<rparr> else a)"

datatype exit_action = Ignored | Restart nat | Trip

definition handleSidecarExit :: "nat \<Rightarrow> agent \<Rightarrow> exit_action \<times> agent" where
  "handleSidecarExit now a =
    (if ag_shuttingDown a \<or> ag_expectedExit a then (Ignored, a\<lparr>ag_expectedExit := False\<rparr>)
     else if ag_unsupported a then (Ignored, a)
     else let count = (if now - ag_lastRestart a > 300000 then 0 else ag_count a)
       in if count < 5 then (Restart (2 ^ count * 1000), a\<lparr>ag_count := count + 1, ag_lastRestart := now\<rparr>)
          else (Trip, a\<lparr>ag_tripped := True\<rparr>))"

text \<open>The process ends.\<close>

definition exited :: "nat \<Rightarrow> agent \<Rightarrow> exit_action \<times> agent" where
  "exited now a = handleSidecarExit now (a\<lparr>ag_running := False\<rparr>)"

text \<open>The end of the cool-off.\<close>

definition resetTripped :: "agent \<Rightarrow> agent" where
  "resetTripped a = a\<lparr>ag_tripped := False, ag_count := 0, ag_lastRestart := 0\<rparr>"

section \<open>Lines do not depend on chunks\<close>

lemma split_char_append_last:
  "split_char c (s @ t) = butlast (split_char c s) @ split_char c (last (split_char c s) @ t)"
proof (induction s)
  case (Cons x s)
  obtain p ps where sp: "split_char c s = p # ps" using split_char_nonempty [of c s] by (cases "split_char c s") auto
  show ?case
  proof (cases "ps = []")
    case True
    then show ?thesis using Cons sp by (auto split: list.splits)
  next
    case False
    then show ?thesis using Cons sp by auto
  qed
qed simp

lemma last_split_char: "c \<notin> set (last (split_char c s))" "length (last (split_char c s)) \<le> length s"
proof -
  show "c \<notin> set (last (split_char c s))" using split_char_no_sep [of "last (split_char c s)" c s] by simp
  show "length (last (split_char c s)) \<le> length s" by (induction s) (auto split: list.splits)
qed

lemma readChunks_split:
  "CHR 0x0A \<notin> set buffer \<Longrightarrow> length buffer + length (concat cs) \<le> MAX_BUFFER_SIZE \<Longrightarrow>
   readChunks buffer cs = (butlast (split_char (CHR 0x0A) (buffer @ concat cs)), last (split_char (CHR 0x0A) (buffer @ concat cs)))"
proof (induction cs arbitrary: buffer)
  case Nil
  then show ?case by (simp add: split_char_id)
next
  case (Cons c cs)
  let ?ls = "split_char (CHR 0x0A) (buffer @ c)" let ?rest = "last ?ls"
  have r: "readChunk buffer c = (butlast ?ls, ?rest)" using Cons.prems(2) by (simp add: readChunk_def Let_def)
  have "length ?rest + length (concat cs) \<le> MAX_BUFFER_SIZE" using last_split_char(2) [of "CHR 0x0A" "buffer @ c"] Cons.prems(2) by simp
  then have "readChunks ?rest cs = (butlast (split_char (CHR 0x0A) (?rest @ concat cs)), last (split_char (CHR 0x0A) (?rest @ concat cs)))"
    using Cons.IH last_split_char(1) by blast
  moreover have "split_char (CHR 0x0A) (buffer @ concat (c # cs)) = butlast ?ls @ split_char (CHR 0x0A) (?rest @ concat cs)"
    using split_char_append_last [of "CHR 0x0A" "buffer @ c" "concat cs"] by simp
  ultimately show ?case using r by (simp add: butlast_append)
qed

text \<open>As long as what is read stays within the buffer limit of 10 MiB, the lines handled are those of the whole output, however it is cut into chunks, and
  what stays in the buffer is its unfinished last line.\<close>

lemma framing_chunks:
  assumes "length (concat chunks) \<le> MAX_BUFFER_SIZE"
  shows "readChunks [] chunks = (butlast (split_char (CHR 0x0A) (concat chunks)), last (split_char (CHR 0x0A) (concat chunks)))"
  using readChunks_split [of "[]" chunks] assms by simp

section \<open>The limit on nesting\<close>

fun jdepth :: "json \<Rightarrow> nat" where
  "jdepth (JArr vs) = Suc (foldr max (map jdepth vs) 0)"
| "jdepth (JObj es) = Suc (foldr max (map (\<lambda>(k, v). jdepth v) es) 0)"
| "jdepth _ = 0"

abbreviation scanAll :: "string \<Rightarrow> scan \<Rightarrow> scan" where
  "scanAll t s \<equiv> fold scanChar t s"

lemma scanText_max:
  "sc_depth s \<le> sc_max s \<Longrightarrow> sc_max (scanAll t s) > MAX_NESTING \<Longrightarrow> sc_max (scanText t s) > MAX_NESTING \<or> sc_max s > MAX_NESTING"
proof (induction t arbitrary: s)
  case (Cons c t)
  let ?s = "scanChar c s"
  have k: "sc_depth ?s \<le> sc_max ?s" using Cons.prems(1) by (auto simp: scanChar_def)
  show ?case
  proof (cases "sc_depth ?s > MAX_NESTING")
    case True
    then show ?thesis using k by (simp add: Let_def)
  next
    case False
    have m: "sc_max ?s > MAX_NESTING \<Longrightarrow> sc_max s > MAX_NESTING" using False by (auto simp: scanChar_def split: if_splits)
    show ?thesis using Cons.IH [OF k] Cons.prems(2) False m by (auto simp: Let_def)
  qed
qed simp

text \<open>A state outside strings, and inside.\<close>

abbreviation out :: "int \<Rightarrow> int \<Rightarrow> scan" where
  "out d m \<equiv> \<lparr>sc_depth = d, sc_max = m, sc_inString = False, sc_escaped = False\<rparr>"

abbreviation ins :: "int \<Rightarrow> int \<Rightarrow> scan" where
  "ins d m \<equiv> \<lparr>sc_depth = d, sc_max = m, sc_inString = True, sc_escaped = False\<rparr>"

lemma scanChar_simps [simp]:
  "scanChar c \<lparr>sc_depth = d, sc_max = m, sc_inString = i, sc_escaped = True\<rparr> = \<lparr>sc_depth = d, sc_max = m, sc_inString = i, sc_escaped = False\<rparr>"
  "scanChar (CHR 0x5C) \<lparr>sc_depth = d, sc_max = m, sc_inString = i, sc_escaped = False\<rparr> = \<lparr>sc_depth = d, sc_max = m, sc_inString = i, sc_escaped = True\<rparr>"
  "scanChar (CHR 0x22) (ins d m) = out d m" "scanChar (CHR 0x22) (out d m) = ins d m"
  "c \<noteq> CHR 0x5C \<Longrightarrow> c \<noteq> CHR 0x22 \<Longrightarrow> scanChar c (ins d m) = ins d m"
  "scanChar (CHR ''{'') (out d m) = out (d + 1) (max m (d + 1))" "scanChar (CHR ''['') (out d m) = out (d + 1) (max m (d + 1))"
  "scanChar (CHR ''}'') (out d m) = out (d - 1) m" "scanChar (CHR '']'') (out d m) = out (d - 1) m"
  by (simp_all add: scanChar_def)

definition plain :: "char \<Rightarrow> bool" where
  "plain c \<longleftrightarrow> c \<notin> {CHR 0x5C, CHR 0x22, CHR ''{'', CHR ''['', CHR ''}'', CHR '']''}"

lemma scan_plain: "list_all plain p \<Longrightarrow> scanAll p (out d m) = out d m"
  by (induction p) (auto simp: scanChar_def plain_def)

lemma scan_quiet: "list_all (\<lambda>c. c \<noteq> CHR 0x5C \<and> c \<noteq> CHR 0x22) p \<Longrightarrow> scanAll p (ins d m) = ins d m"
  by (induction p) (auto simp: scanChar_def)

lemma hexNibble_plain: "hexNibble c = Some n \<Longrightarrow> c \<noteq> CHR 0x5C \<and> c \<noteq> CHR 0x22"
  by (auto simp: hexNibble_def)

lemma hex4_scan: "hex4 s = Some (u, r) \<Longrightarrow> \<exists>p. s = p @ r \<and> scanAll p (ins d m) = ins d m"
proof (cases s rule: hex4.cases)
  case (1 a b c e t)
  assume h: "hex4 s = Some (u, r)"
  then have "s = [a, b, c, e] @ r" "list_all (\<lambda>c. c \<noteq> CHR 0x5C \<and> c \<noteq> CHR 0x22) [a, b, c, e]" using 1 hexNibble_plain by (auto split: option.splits)
  then show ?thesis using scan_quiet by blast
qed auto

lemma readEscape_scan:
  assumes "readEscape s = Some (t, r)"
  shows "\<exists>p. s = p @ r \<and> scanAll p \<lparr>sc_depth = d, sc_max = m, sc_inString = True, sc_escaped = True\<rparr> = ins d m"
proof (cases s)
  case (Cons c s')
  show ?thesis
  proof (cases "c = CHR ''u''")
    case True
    then obtain u r' where h: "hex4 s' = Some (u, r')" using assms Cons by (auto simp: readEscape_def split: option.splits)
    obtain p where p: "s' = p @ r'" "scanAll p (ins d m) = ins d m" using hex4_scan [OF h] by blast
    have "r = r' \<or> (\<exists>v. lowSurrogate r' = Some (v, r))" using assms Cons True h by (auto simp: readEscape_def split: option.splits if_splits)
    then show ?thesis
    proof
      assume "r = r'"
      then show ?thesis using Cons p by (intro exI [of _ "c # p"]) simp
    next
      assume "\<exists>v. lowSurrogate r' = Some (v, r)"
      then obtain v where v: "starts_with r' [CHR 0x5C, CHR ''u'']" "hex4 (drop 2 r') = Some (v, r)" by (auto simp: lowSurrogate_def split: if_splits option.splits)
      obtain p2 where p2: "drop 2 r' = p2 @ r" "scanAll p2 (ins d m) = ins d m" using hex4_scan [OF v(2)] by blast
      have "r' = [CHR 0x5C, CHR ''u''] @ p2 @ r" using v(1) p2(1) by (auto simp: prefix_def)
      then show ?thesis using Cons p p2(2) by (intro exI [of _ "c # p @ [CHR 0x5C, CHR ''u''] @ p2"]) simp
    qed
  next
    case False
    then have "s = [c] @ r" using assms Cons by (auto simp: readEscape_def split: option.splits)
    then show ?thesis by (intro exI [of _ "[c]"]) simp
  qed
qed (use assms in \<open>simp add: readEscape_def\<close>)

lemma readString_Cons:
  "readString (c # r) =
    (if c = CHR 0x22 then Some ([], r)
     else if byte c < 32 then None
     else if c = CHR 0x5C then (case readEscape r of None \<Rightarrow> None | Some (t, r') \<Rightarrow> map_option (\<lambda>(u, q). (t @ u, q)) (readString r'))
     else map_option (\<lambda>(u, q). (c # u, q)) (readString r))"
  by (subst readString.simps) simp

lemma readString_scan: "readString s = Some (t, r) \<Longrightarrow> \<exists>p. s = p @ r \<and> scanAll p (ins d m) = out d m"
proof (induction s arbitrary: t rule: readString.induct)
  case (1 s)
  obtain c s' where s: "s = c # s'" using "1.prems" by (cases s) (auto simp: readString.simps)
  consider (quote) "c = CHR 0x22" | (escape) "c = CHR 0x5C" "\<not> byte c < 32" | (other) "c \<noteq> CHR 0x22" "c \<noteq> CHR 0x5C" "\<not> byte c < 32"
    using "1.prems" s by (cases "byte c < 32") (auto simp: readString_Cons split: if_splits)
  then show ?case
  proof cases
    case quote
    then show ?thesis using "1.prems" s by (intro exI [of _ "[c]"]) (auto simp: readString_Cons)
  next
    case escape
    then obtain e r' u where e: "readEscape s' = Some (e, r')" "readString r' = Some (u, r)"
      using "1.prems" s by (auto simp: readString_Cons split: option.splits)
    obtain p where p: "s' = p @ r'" "scanAll p \<lparr>sc_depth = d, sc_max = m, sc_inString = True, sc_escaped = True\<rparr> = ins d m" using readEscape_scan [OF e(1)] by blast
    obtain p2 where p2: "r' = p2 @ r" "scanAll p2 (ins d m) = out d m" using "1.IH"(1) [OF s _ _ _ e(1) refl e(2)] escape by auto
    show ?thesis using s escape p p2 by (intro exI [of _ "c # p @ p2"]) simp
  next
    case other
    then obtain u where u: "readString s' = Some (u, r)" using "1.prems" s by (auto simp: readString_Cons)
    obtain p where "s' = p @ r" "scanAll p (ins d m) = out d m" using "1.IH"(2) [OF s _ _ _ u] other by auto
    then show ?thesis using s other by (intro exI [of _ "c # p"]) simp
  qed
qed

lemma skip_scan: "\<exists>p. s = p @ skip s \<and> scanAll p (out d m) = out d m"
proof -
  have "list_all plain (takeWhile jsonSpace s)" by (auto simp: list_all_iff plain_def jsonSpace_def dest: set_takeWhileD)
  then show ?thesis using scan_plain takeWhile_dropWhile_id [of jsonSpace s] by metis
qed

lemma readWord_scan:
  assumes "readWord s = Some (v, r)" shows "(\<exists>p. s = p @ r \<and> scanAll p (out d m) = out d m) \<and> jdepth v = 0"
proof -
  define n where "n = takeWhile (\<lambda>c. c \<in> set ''0123456789+-.eE'') s"
  have n: "list_all plain n" by (auto simp: n_def list_all_iff plain_def dest: set_takeWhileD)
  have s: "n @ drop (length n) s = s" unfolding n_def dropWhile_eq_drop [symmetric] by simp
  consider (true) "starts_with s ''true''" "v = JBool True" "r = drop 4 s" | (false) "starts_with s ''false''" "v = JBool False" "r = drop 5 s"
    | (null) "starts_with s ''null''" "v = JNull" "r = drop 4 s" | (num) "v = JNum n" "r = drop (length n) s"
    using assms unfolding readWord_def Let_def n_def [symmetric] by (auto split: if_splits)
  then show ?thesis
  proof cases
    case true
    then have "s = ''true'' @ r" by (auto simp: prefix_def)
    then show ?thesis using true scan_plain [of "''true''"] by (intro conjI exI [of _ "''true''"]) (simp_all add: plain_def)
  next
    case false
    then have "s = ''false'' @ r" by (auto simp: prefix_def)
    then show ?thesis using false scan_plain [of "''false''"] by (intro conjI exI [of _ "''false''"]) (simp_all add: plain_def)
  next
    case null
    then have "s = ''null'' @ r" by (auto simp: prefix_def)
    then show ?thesis using null scan_plain [of "''null''"] by (intro conjI exI [of _ "''null''"]) (simp_all add: plain_def)
  next
    case num
    then show ?thesis using scan_plain [OF n] s by (intro conjI exI [of _ n]) simp_all
  qed
qed

text \<open>The text read for a value brings the scanner back to its depth, having seen at least the depth of the value; that for the rest of an array or
  object one level up.\<close>

definition scans :: "string \<Rightarrow> string \<Rightarrow> int \<Rightarrow> json set \<Rightarrow> bool" where
  "scans s r k vs \<longleftrightarrow> (\<forall>d m. d \<le> m \<longrightarrow> (\<exists>p M. s = p @ r \<and> scanAll p (out d m) = out (d - k) M \<and> m \<le> M \<and> (\<forall>v \<in> vs. d + int (jdepth v) \<le> M)))"

lemma scansI: "(\<And>d m. d \<le> m \<Longrightarrow> \<exists>p M. s = p @ r \<and> scanAll p (out d m) = out (d - k) M \<and> m \<le> M \<and> (\<forall>v \<in> vs. d + int (jdepth v) \<le> M)) \<Longrightarrow> scans s r k vs"
  by (simp add: scans_def)

lemma scansE: "scans s r k vs \<Longrightarrow> d \<le> m \<Longrightarrow> (\<And>p M. s = p @ r \<Longrightarrow> scanAll p (out d m) = out (d - k) M \<Longrightarrow> m \<le> M \<Longrightarrow> \<forall>v \<in> vs. d + int (jdepth v) \<le> M \<Longrightarrow> P) \<Longrightarrow> P"
  unfolding scans_def by metis

lemma scans_skip: "scans (skip s) r k vs \<Longrightarrow> scans s r k vs"
proof (rule scansI)
  fix d m :: int assume s: "scans (skip s) r k vs" and dm: "d \<le> m"
  obtain w where w: "s = w @ skip s" "scanAll w (out d m) = out d m" using skip_scan by blast
  from s dm obtain p M where p: "skip s = p @ r" "scanAll p (out d m) = out (d - k) M" "m \<le> M" "\<forall>v \<in> vs. d + int (jdepth v) \<le> M" by (rule scansE)
  then show "\<exists>p M. s = p @ r \<and> scanAll p (out d m) = out (d - k) M \<and> m \<le> M \<and> (\<forall>v \<in> vs. d + int (jdepth v) \<le> M)"
    using w by (intro exI [of _ "w @ p"] exI [of _ M]) simp
qed

lemma scans_trans:
  assumes "scans s r 0 vs" and "scans r t k ws" shows "scans s t k (vs \<union> ws)"
proof (rule scansI)
  fix d m :: int assume dm: "d \<le> m"
  from assms(1) dm obtain p M where p: "s = p @ r" "scanAll p (out d m) = out d M" "m \<le> M" "\<forall>v \<in> vs. d + int (jdepth v) \<le> M" by (rule scansE) simp
  have "d \<le> M" using dm p(3) by simp
  with assms(2) obtain q N where q: "r = q @ t" "scanAll q (out d M) = out (d - k) N" "M \<le> N" "\<forall>v \<in> ws. d + int (jdepth v) \<le> N" by (rule scansE)
  then show "\<exists>p M. s = p @ t \<and> scanAll p (out d m) = out (d - k) M \<and> m \<le> M \<and> (\<forall>v \<in> vs \<union> ws. d + int (jdepth v) \<le> M)"
    using p by (intro exI [of _ "p @ q"] exI [of _ N]) (auto intro: order_trans)
qed

lemma scans_char: "plain c \<Longrightarrow> scans (c # r) r 0 {}"
  using scan_plain [of "[c]"] by (intro scansI exI [of _ "[c]"]) auto

lemma scans_close: "c = CHR '']'' \<or> c = CHR ''}'' \<Longrightarrow> scans (c # r) r 1 {}"
  by (intro scansI exI [of _ "[c]"]) auto

lemma int_foldr_max_le: "(\<forall>v \<in> set vs. d + int (f v) \<le> M) \<Longrightarrow> d \<le> M \<Longrightarrow> d + int (foldr max (map f vs) 0) \<le> M"
  by (induction vs) auto

lemma scans_open:
  assumes "scans r t 1 (set vs)" and "c = CHR ''['' \<or> c = CHR ''{''" and "jdepth v \<le> Suc (foldr max (map jdepth vs) 0)"
  shows "scans (c # r) t 0 {v}"
proof (rule scansI)
  fix d m :: int assume "d \<le> m"
  have "d + 1 \<le> max m (d + 1)" by simp
  with assms(1) obtain p M where p: "r = p @ t" "scanAll p (out (d + 1) (max m (d + 1))) = out d M" "max m (d + 1) \<le> M" "\<forall>v \<in> set vs. d + 1 + int (jdepth v) \<le> M"
    by (rule scansE) simp
  have "d + 1 + int (foldr max (map jdepth vs) 0) \<le> M" using int_foldr_max_le [of vs "d + 1" jdepth M] p(3,4) by simp
  then have "d + int (jdepth v) \<le> M" using assms(3) by linarith
  then show "\<exists>p M. c # r = p @ t \<and> scanAll p (out d m) = out (d - 0) M \<and> m \<le> M \<and> (\<forall>v \<in> {v}. d + int (jdepth v) \<le> M)"
    using p assms(2) by (intro exI [of _ "c # p"] exI [of _ M]) auto
qed

lemma scans_string: "readString s = Some (t, r) \<Longrightarrow> scans (CHR 0x22 # s) r 0 {JStr t}"
proof (rule scansI)
  fix d m :: int assume "readString s = Some (t, r)" "d \<le> m"
  moreover obtain p where "s = p @ r" "scanAll p (ins d m) = out d m" using readString_scan calculation(1) by blast
  ultimately show "\<exists>p M. CHR 0x22 # s = p @ r \<and> scanAll p (out d m) = out (d - 0) M \<and> m \<le> M \<and> (\<forall>v \<in> {JStr t}. d + int (jdepth v) \<le> M)"
    by (intro exI [of _ "CHR 0x22 # p"] exI [of _ m]) simp
qed

lemma scans_word: "readWord s = Some (v, r) \<Longrightarrow> scans s r 0 {v}"
proof (rule scansI)
  fix d m :: int assume "readWord s = Some (v, r)" "d \<le> m"
  then show "\<exists>p M. s = p @ r \<and> scanAll p (out d m) = out (d - 0) M \<and> m \<le> M \<and> (\<forall>v \<in> {v}. d + int (jdepth v) \<le> M)"
    using readWord_scan [of s v r d m] by auto
qed

lemma update_values: "snd ` set (foldl (\<lambda>m (k, v). AList.update k v m) acc es) \<subseteq> snd ` set acc \<union> snd ` set es"
proof (induction es arbitrary: acc)
  case (Cons e es)
  obtain k v where e: "e = (k, v)" by (cases e)
  have "snd ` set (AList.update k v xs) \<subseteq> insert v (snd ` set xs)" for xs by (induction xs) auto
  from subset_trans [OF Cons.IH Un_mono [OF this [of acc] order_refl]] show ?case by (simp add: e)
qed simp

lemma jdepth_object: "jdepth (JObj (foldl (\<lambda>m (k, v). AList.update k v m) [] es)) \<le> Suc (foldr max (map jdepth (map snd es)) 0)"
proof -
  have le: "\<forall>v \<in> set vs. f v \<le> n \<Longrightarrow> foldr max (map f vs) 0 \<le> n" for vs and f :: "'a \<Rightarrow> nat" and n by (induction vs) auto
  have mem: "v \<in> set vs \<Longrightarrow> f v \<le> foldr max (map f vs) 0" for v vs and f :: "'a \<Rightarrow> nat" by (induction vs) auto
  have "jdepth v \<le> foldr max (map jdepth (map snd es)) 0" if "v \<in> snd ` set (foldl (\<lambda>m (k, v). AList.update k v m) [] es)" for v
    using update_values [of "[]" es] that mem [of v "map snd es" jdepth] by auto
  then have "\<forall>e \<in> set (foldl (\<lambda>m (k, v). AList.update k v m) [] es). (\<lambda>(k, v). jdepth v) e \<le> foldr max (map jdepth (map snd es)) 0" by (force split: prod.split)
  from le [OF this] show ?thesis by simp
qed

lemma scans_mono: "scans s r k vs \<Longrightarrow> ws \<subseteq> vs \<Longrightarrow> scans s r k ws"
  unfolding scans_def by (meson subsetD)

lemma starts_single: "starts_with s [c] \<Longrightarrow> s = c # drop 1 s"
  by (cases s) auto

text \<open>Between two parts of a value, after its last part, and a pair of brackets with nothing inside.\<close>

lemma scans_next:
  assumes "scans s t 0 vs" and "skip t = c # u" and "c = CHR '','' \<or> c = CHR '':''" and "scans (skip u) r k ws"
  shows "scans s r k (vs \<union> ws)"
proof (rule scans_trans [OF assms(1) scans_skip])
  have "scans (c # u) u 0 {}" using assms(3) by (intro scans_char) (auto simp: plain_def)
  from scans_trans [OF this scans_skip [OF assms(4)]] show "scans (skip t) r k ws" using assms(2) by simp
qed

lemma scans_last:
  assumes "scans s t 0 vs" and "skip t = c # u" and "c = CHR '']'' \<or> c = CHR ''}''"
  shows "scans s u 1 vs"
  using scans_trans [OF assms(1) scans_skip, of u 1 "{}"] scans_close [OF assms(3), of u] assms(2) by simp

lemma scans_empty:
  assumes "starts_with (skip s) [b]" and "b = CHR '']'' \<or> b = CHR ''}''" and "c = CHR ''['' \<or> c = CHR ''{''" and "jdepth v \<le> 1"
  shows "scans (c # s) (drop 1 (skip s)) 0 {v}"
  using scans_open [OF scans_skip, of s "drop 1 (skip s)" "[]" c v] scans_close [OF assms(2), of "drop 1 (skip s)"] starts_single [OF assms(1)] assms(3,4) by simp

text \<open>The first alternative of the parser, given what holds of the elements and members inside.\<close>

lemma parseValue_scans:
  assumes p: "parseValue (c # s) = Some (v, r)"
    and elements: "\<And>vs. c = CHR ''['' \<Longrightarrow> parseElements (skip s) = Some (vs, r) \<Longrightarrow> \<not> starts_with (skip s) '']'' \<Longrightarrow> scans (skip s) r 1 (set vs)"
    and members: "\<And>es. c = CHR ''{'' \<Longrightarrow> parseMembers (skip s) = Some (es, r) \<Longrightarrow> \<not> starts_with (skip s) ''}'' \<Longrightarrow> scans (skip s) r 1 (snd ` set es)"
  shows "scans (c # s) r 0 {v}"
proof -
  note p = p [unfolded parseValue.simps [of "c # s"], simplified]
  consider (str) "c = CHR 0x22" | (arr) "c = CHR ''[''" | (obj) "c = CHR ''{''" | (word) "c \<noteq> CHR 0x22" "c \<noteq> CHR ''[''" "c \<noteq> CHR ''{''" by blast
  then show ?thesis
  proof cases
    case str
    then show ?thesis using p scans_string by auto
  next
    case arr
    show ?thesis
    proof (cases "starts_with (skip s) '']''")
      case True
      then show ?thesis using scans_empty [OF True, of c v] p arr by auto
    next
      case False
      then obtain vs where vs: "parseElements (skip s) = Some (vs, r)" "v = JArr vs" using p arr by auto
      show ?thesis using scans_open [OF scans_skip [OF elements [OF arr vs(1) False]], of c v] arr vs by simp
    qed
  next
    case obj
    show ?thesis
    proof (cases "starts_with (skip s) ''}''")
      case True
      then show ?thesis using scans_empty [OF True, of c v] p obj by auto
    next
      case False
      then obtain es where es: "parseMembers (skip s) = Some (es, r)" "v = JObj (foldl (\<lambda>m (k, v). AList.update k v m) [] es)" using p obj by auto
      have "scans s r 1 (set (map snd es))" using scans_skip [OF members [OF obj es(1) False]] by simp
      from scans_open [OF this, of c v] show ?thesis using obj jdepth_object [of es] unfolding es(2) by simp
    qed
  next
    case word
    then show ?thesis using p scans_word by auto
  qed
qed

lemma parse_scans:
  "parseValue s = Some (v, r) \<Longrightarrow> scans s r 0 {v}"
  "parseElements s = Some (vs, r) \<Longrightarrow> scans s r 1 (set vs)"
  "parseMembers s = Some (es, r) \<Longrightarrow> scans s r 1 (snd ` set es)"
proof (induction s and s and s arbitrary: v r and vs r and es r rule: parseValue_parseElements_parseMembers.induct)
  case (1 s)
  obtain c s' where s: "s = c # s'" using "1.prems" by (cases s) (simp_all add: parseValue.simps)
  show ?case unfolding s by (rule parseValue_scans [OF "1.prems" [unfolded s]]) (use "1.IH" [OF s] in simp_all)
next
  case (2 s)
  obtain v r1 where v: "parseValue s = Some (v, r1)" using "2.prems" by (auto simp: parseElements.simps split: option.splits)
  obtain c q where c: "skip r1 = c # q" using "2.prems" v by (auto simp: parseElements.simps [of s] split: list.splits)
  consider "c = CHR '']''" "vs = [v]" "r = q" | ws where "c = CHR '',''" "length q < length s" "parseElements (skip q) = Some (ws, r)" "vs = v # ws"
    using "2.prems" v c by (auto simp: parseElements.simps [of s] split: if_splits)
  then show ?case
    using scans_last [OF "2.IH"(1) [OF v] c] scans_next [OF "2.IH"(1) [OF v] c, of r 1] "2.IH"(2) [OF v refl c] by cases auto
next
  case (3 s)
  obtain s' where s: "s = CHR 0x22 # s'" using "3.prems" by (cases s) (simp_all add: parseMembers.simps [of "_ # _"] parseMembers.simps [of "[]"] split: if_splits)
  note p = "3.prems" [unfolded s parseMembers.simps [of "CHR 0x22 # s'"], simplified]
  obtain k q where k: "readString s' = Some (k, q)" using p by (auto split: option.splits)
  have colon: "starts_with (skip q) '':''" "length q < length s" using p k s by (auto split: if_splits)
  obtain v t where v: "parseValue (skip (drop 1 (skip q))) = Some (v, t)" using p k colon s by (auto split: option.splits)
  obtain c u where c: "skip t = c # u" using p k colon v s by (auto split: list.splits)
  have "scans (skip (drop 1 (skip q))) t 0 {v}" using "3.IH"(1) [OF s _ k refl _ v] colon by simp
  from scans_next [OF scans_string [OF k] starts_single [OF colon(1)] _ this] have "scans s t 0 ({JStr k} \<union> {v})" using s by simp
  then have a: "scans s t 0 {v}" by (rule scans_mono) simp
  consider "c = CHR ''}''" "es = [(k, v)]" "r = u" | ws where "c = CHR '',''" "length u < length s" "parseMembers (skip u) = Some (ws, r)" "es = (k, v) # ws"
    using p k colon v c s by (auto split: if_splits)
  then show ?case
    using scans_last [OF a c] scans_next [OF a c, of r 1] "3.IH"(2) [OF s _ k refl _ v refl c] colon by cases auto
qed

text \<open>
  C26: the limit on nesting holds for what is parsed. A line that passes the character scan and is valid JSON denotes a value of at most eight
  levels of arrays and objects, whatever quotes, escapes and brackets its strings and keys contain.
\<close>

theorem json_nesting_bounded:
  assumes "\<not> tooDeep text" and "JSON_parse text = Some v"
  shows "jdepth v \<le> 8"
proof -
  obtain r where r: "parseValue (skip text) = Some (v, r)" "skip r = []" using assms(2) by (auto simp: JSON_parse_def split: option.splits if_splits)
  have "scans text r 0 {v}" by (rule scans_skip [OF parse_scans(1) [OF r(1)]])
  then obtain p M where p: "text = p @ r" "scanAll p (out 0 0) = out 0 M" "0 \<le> M" "int (jdepth v) \<le> M" by (rule scansE [of _ _ _ _ 0 0]) auto
  have "\<exists>w. r = w @ skip r \<and> scanAll w (out 0 M) = out 0 M" by (rule skip_scan)
  then have all: "scanAll text (out 0 0) = out 0 M" using p r(2) by auto
  have "\<not> M > MAX_NESTING" using scanText_max [of "out 0 0" "text"] all assms(1) by (auto simp: tooDeep_def Let_def MAX_NESTING_def)
  then show ?thesis using p(4) by (simp add: MAX_NESTING_def)
qed

theorem json_nesting_bounded_witness: "jdepth (JArr [JStr ''['']) \<le> 8"
proof -
  have "\<not> tooDeep ([CHR ''['', CHR 0x22, CHR ''['', CHR 0x22, CHR '']''])" by code_simp
  moreover have "JSON_parse [CHR ''['', CHR 0x22, CHR ''['', CHR 0x22, CHR '']''] = Some (JArr [JStr ''[''])" by code_simp
  ultimately show ?thesis by (rule json_nesting_bounded)
qed

section \<open>Commands and their responses\<close>

definition cmd_ok :: "'r channel \<Rightarrow> 'r command \<Rightarrow> bool" where
  "cmd_ok ch c \<longleftrightarrow>
    (cm_phase c = Done \<longrightarrow> cm_settled c \<noteq> None) \<and> (cm_settled c = Some Failed \<longrightarrow> cm_phase c = Done) \<and>
    (\<forall>r. cm_settled c = Some (Answered r) \<longrightarrow> (cm_id c, r) \<in> set (ch_received ch)) \<and>
    (cm_settled c = None \<longrightarrow> cm_timer c) \<and> (cm_settled c = Some Expired \<longrightarrow> cm_deadline c \<le> ch_now ch)"

definition written :: "'r command \<Rightarrow> bool" where
  "written c \<longleftrightarrow> cm_phase c = Sent \<or> cm_phase c = Done \<and> cm_settled c \<noteq> Some Failed"

definition in_turn :: "'r command \<Rightarrow> 'r command \<Rightarrow> bool" where
  "in_turn c d \<longleftrightarrow> (cm_phase d \<noteq> Queued \<longrightarrow> cm_phase c = Done)"

definition chan_ok :: "'r channel \<Rightarrow> bool" where
  "chan_ok ch \<longleftrightarrow> distinct (map cm_id (ch_commands ch)) \<and> sorted_wrt in_turn (ch_commands ch) \<and> (\<forall>c \<in> set (ch_commands ch). cmd_ok ch c) \<and>
     set (ch_waiters ch) = set (map cm_id (filter (\<lambda>c. cm_settled c = None) (ch_commands ch))) \<and> ch_sent ch = map cm_id (filter written (ch_commands ch))"

fun issued :: "'r channel_op list \<Rightarrow> string list" where
  "issued [] = []"
| "issued (Issue i t # ops) = i # issued ops"
| "issued (_ # ops) = issued ops"

lemma set_waiters [simp]: "set (addWaiter i ws) = insert i (set ws)" "set (removeWaiter i ws) = set ws - {i}"
  by (auto simp: addWaiter_def removeWaiter_def)

lemma issued_snoc: "issued (ops @ [Issue i t]) = issued ops @ [i]" "\<forall>i t. p \<noteq> Issue i t \<Longrightarrow> issued (ops @ [p]) = issued ops"
proof -
  show "issued (ops @ [Issue i t]) = issued ops @ [i]" by (induction ops rule: issued.induct) simp_all
  assume "\<forall>i t. p \<noteq> Issue i t"
  then have "issued [p] = []" by (cases p) simp_all
  then show "issued (ops @ [p]) = issued ops" by (induction ops rule: issued.induct) simp_all
qed

text \<open>An operation on one command, seen in the list around it.\<close>

lemma at_command:
  assumes "n < length (ch_commands ch)"
  obtains xs c ys where "ch_commands ch = xs @ c # ys" "length xs = n" "ch_commands ch ! n = c" "\<And>f. ch_commands (upd n f ch) = xs @ f c # ys" "take n (ch_commands ch) = xs"
proof
  show "ch_commands ch = take n (ch_commands ch) @ ch_commands ch ! n # drop (Suc n) (ch_commands ch)" using assms by (rule id_take_nth_drop)
  show "ch_commands (upd n f ch) = take n (ch_commands ch) @ f (ch_commands ch ! n) # drop (Suc n) (ch_commands ch)" for f
    using assms by (simp add: upd_def upd_conv_take_nth_drop)
qed (use assms in simp_all)

lemma upd_frame [simp]:
  "ch_waiters (upd n f ch) = ch_waiters ch" "ch_now (upd n f ch) = ch_now ch" "ch_sent (upd n f ch) = ch_sent ch" "ch_received (upd n f ch) = ch_received ch"
  by (simp_all add: upd_def)

text \<open>A change to one command keeps the invariant when it fits its neighbours; its waiter is as before, or gone and the command is settled.\<close>

lemma chan_ok_at:
  assumes ok: "chan_ok ch" and l: "ch_commands ch = xs @ c # ys" and l': "ch_commands ch' = xs @ c' # ys" and i: "cm_id c' = cm_id c"
    and fr: "ch_received ch' = ch_received ch" "ch_now ch' = ch_now ch" and c': "cmd_ok ch c'"
    and turn: "\<forall>x \<in> set xs. in_turn x c'" "\<forall>y \<in> set ys. in_turn c' y"
    and w: "cm_settled c' = cm_settled c \<and> ch_waiters ch' = ch_waiters ch \<or> cm_settled c' \<noteq> None \<and> ch_waiters ch' = removeWaiter (cm_id c) (ch_waiters ch)"
    and sent: "ch_sent ch' = map cm_id (filter written (xs @ c' # ys))"
  shows "chan_ok ch'"
proof -
  have d: "cm_id c \<notin> set (map cm_id xs)" "cm_id c \<notin> set (map cm_id ys)" using ok l by (auto simp: chan_ok_def)
  have cmd: "cmd_ok ch' x = cmd_ok ch x" for x using fr by (simp add: cmd_ok_def)
  have "set (ch_waiters ch') = set (map cm_id (filter (\<lambda>c. cm_settled c = None) (xs @ c' # ys)))"
    using w
  proof
    assume "cm_settled c' = cm_settled c \<and> ch_waiters ch' = ch_waiters ch"
    then show ?thesis using ok l i by (auto simp: chan_ok_def)
  next
    assume "cm_settled c' \<noteq> None \<and> ch_waiters ch' = removeWaiter (cm_id c) (ch_waiters ch)"
    then show ?thesis using ok l d by (auto simp: chan_ok_def split: if_splits)
  qed
  then show ?thesis using ok l l' i c' turn sent by (simp add: chan_ok_def cmd sorted_wrt_append)
qed

lemma chan_at:
  assumes "chan_ok ch" and "n < length (ch_commands ch)"
  obtains xs c ys where "ch_commands ch = xs @ c # ys" "ch_commands ch ! n = c" "\<And>f. ch_commands (upd n f ch) = xs @ f c # ys" "take n (ch_commands ch) = xs"
    "cmd_ok ch c" "\<forall>x \<in> set xs. in_turn x c" "\<forall>y \<in> set ys. in_turn c y" "ch_sent ch = map cm_id (filter written (xs @ c # ys))"
proof -
  obtain xs c ys where l: "ch_commands ch = xs @ c # ys" "ch_commands ch ! n = c" "\<And>f. ch_commands (upd n f ch) = xs @ f c # ys" "take n (ch_commands ch) = xs"
    using at_command [OF assms(2)] by metis
  then show thesis using assms(1) by (intro that) (auto simp: chan_ok_def sorted_wrt_append)
qed

lemma hasLock_at:
  assumes "chan_ok ch" and "hasLock n ch"
  obtains xs c ys where "ch_commands ch = xs @ c # ys" "ch_commands ch ! n = c" "\<And>f. ch_commands (upd n f ch) = xs @ f c # ys" "cmd_ok ch c" "cm_phase c = Queued"
    "\<forall>x \<in> set xs. cm_phase x = Done" "\<forall>y \<in> set ys. cm_phase y = Queued" "ch_sent ch = map cm_id (filter written xs)"
proof -
  have n: "n < length (ch_commands ch)" using assms(2) by (simp add: hasLock_def)
  obtain xs c ys where l: "ch_commands ch = xs @ c # ys" "ch_commands ch ! n = c" "\<And>f. ch_commands (upd n f ch) = xs @ f c # ys" "take n (ch_commands ch) = xs"
    "cmd_ok ch c" "\<forall>y \<in> set ys. in_turn c y" "ch_sent ch = map cm_id (filter written (xs @ c # ys))" using chan_at [OF assms(1) n] by metis
  have q: "cm_phase c = Queued" "\<forall>x \<in> set xs. cm_phase x = Done" using assms(2) unfolding hasLock_def l(2) l(4) by (simp_all add: list_all_iff)
  have ys: "\<forall>y \<in> set ys. cm_phase y = Queued" using l(6) q by (auto simp: in_turn_def)
  then have "filter written (c # ys) = []" using q by (auto simp: written_def filter_empty_conv)
  then show thesis using that l q ys by simp
qed

lemma issue_ok: "chan_ok ch \<Longrightarrow> i \<notin> set (map cm_id (ch_commands ch)) \<Longrightarrow> chan_ok (channel_step ch (Issue i t))"
  by (auto simp: chan_ok_def sorted_wrt_append in_turn_def written_def cmd_ok_def)

lemma elapse_ok: "chan_ok ch \<Longrightarrow> chan_ok (channel_step ch (Elapse d))"
  by (auto simp: chan_ok_def cmd_ok_def)

lemma respond_ok: "chan_ok ch \<Longrightarrow> chan_ok (channel_step ch (Respond i r))"
proof -
  assume ok: "chan_ok ch"
  define f where "f = (\<lambda>c. if cm_id c = i then settle (Answered r) c else c)"
  have f: "cm_id (f c) = cm_id c" "cm_phase (f c) = cm_phase c" "cm_settled (f c) = None \<longleftrightarrow> cm_settled c = None \<and> cm_id c \<noteq> i" "cm_settled (f c) = Some Failed \<longleftrightarrow> cm_settled c = Some Failed" for c
    by (auto simp: f_def settle_def)
  have "written (f c) = written c" "in_turn (f c) (f d) = in_turn c d" for c d by (simp_all add: f written_def in_turn_def)
  then have m: "map cm_id (filter written (map f cs)) = map cm_id (filter written cs)" "sorted_wrt in_turn (map f cs) = sorted_wrt in_turn cs" "map cm_id (map f cs) = map cm_id cs"
    "set (map cm_id (filter (\<lambda>c. cm_settled c = None) (map f cs))) = set (map cm_id (filter (\<lambda>c. cm_settled c = None) cs)) - {i}" for cs
    by (induction cs) (simp_all add: f insert_Diff_if)
  have k: "cmd_ok ch' (f c)" "cmd_ok ch' c" if "cmd_ok ch c" "ch_received ch' = ch_received ch @ [(i, r)]" "ch_now ch' = ch_now ch" for c and ch' :: "'a channel"
    using that by (auto simp: f_def settle_def cmd_ok_def)
  show ?thesis
  proof (cases "i \<in> set (ch_waiters ch)")
    case True
    then have "ch_commands (channel_step ch (Respond i r)) = map f (ch_commands ch)" by (simp add: f_def)
    then show ?thesis using ok True unfolding chan_ok_def by (simp only: m) (auto intro: k)
  next
    case False
    then show ?thesis using ok by (auto simp: chan_ok_def intro: k)
  qed
qed

lemma expire_ok: "chan_ok ch \<Longrightarrow> chan_ok (channel_step ch (Expire n))"
proof (cases "n < length (ch_commands ch) \<and> cm_timer (ch_commands ch ! n) \<and> cm_deadline (ch_commands ch ! n) \<le> ch_now ch")
  case True
  assume ok: "chan_ok ch"
  obtain xs c ys where l: "ch_commands ch = xs @ c # ys" "ch_commands ch ! n = c" "\<And>f. ch_commands (upd n f ch) = xs @ f c # ys"
    "cmd_ok ch c" "\<forall>x \<in> set xs. in_turn x c" "\<forall>y \<in> set ys. in_turn c y" "ch_sent ch = map cm_id (filter written (xs @ c # ys))" using chan_at [OF ok] True by metis
  let ?c = "settle Expired (c\<lparr>cm_timer := False\<rparr>)"
  have c: "cm_id ?c = cm_id c" "cm_phase ?c = cm_phase c" "cm_settled ?c \<noteq> None" "written ?c = written c" by (auto simp: settle_def written_def)
  have t: "in_turn x ?c = in_turn x c" "in_turn ?c x = in_turn c x" for x using c(2) by (simp_all add: in_turn_def)
  have "cmd_ok ch ?c" using l(2,4) True by (auto simp: settle_def cmd_ok_def)
  then show ?thesis by (intro chan_ok_at [OF ok l(1), where c' = ?c]) (use True l c t in simp_all)
qed auto

lemma acquire_ok: "chan_ok ch \<Longrightarrow> chan_ok (channel_step ch (Acquire n))"
proof (cases "hasLock n ch")
  case True
  assume ok: "chan_ok ch"
  obtain xs c ys where l: "ch_commands ch = xs @ c # ys" "ch_commands ch ! n = c" "\<And>f. ch_commands (upd n f ch) = xs @ f c # ys" "cmd_ok ch c" "cm_phase c = Queued"
    "\<forall>x \<in> set xs. cm_phase x = Done" "\<forall>y \<in> set ys. cm_phase y = Queued" "ch_sent ch = map cm_id (filter written xs)" using hasLock_at [OF ok True] by metis
  have "filter written ys = []" using l(7) by (auto simp: written_def filter_empty_conv)
  then show ?thesis by (intro chan_ok_at [OF ok l(1), where c' = "c\<lparr>cm_phase := Sent\<rparr>"]) (use True l in \<open>auto simp: cmd_ok_def in_turn_def written_def\<close>)
qed simp

lemma writeFails_ok: "chan_ok ch \<Longrightarrow> chan_ok (channel_step ch (WriteFails n))"
proof (cases "hasLock n ch")
  case True
  assume ok: "chan_ok ch"
  obtain xs c ys where l: "ch_commands ch = xs @ c # ys" "ch_commands ch ! n = c" "\<And>f. ch_commands (upd n f ch) = xs @ f c # ys" "cmd_ok ch c" "cm_phase c = Queued"
    "\<forall>x \<in> set xs. cm_phase x = Done" "\<forall>y \<in> set ys. cm_phase y = Queued" "ch_sent ch = map cm_id (filter written xs)" using hasLock_at [OF ok True] by metis
  have "filter written ys = []" using l(7) by (auto simp: written_def filter_empty_conv)
  then show ?thesis by (intro chan_ok_at [OF ok l(1), where c' = "c\<lparr>cm_phase := Done, cm_settled := Some Failed, cm_timer := False\<rparr>"]) (use True l in \<open>auto simp: cmd_ok_def in_turn_def written_def\<close>)
qed simp

lemma finish_ok: "chan_ok ch \<Longrightarrow> chan_ok (channel_step ch (Finish n))"
proof (cases "n < length (ch_commands ch) \<and> cm_phase (ch_commands ch ! n) = Sent \<and> cm_settled (ch_commands ch ! n) \<noteq> None")
  case True
  assume ok: "chan_ok ch"
  obtain xs c ys where l: "ch_commands ch = xs @ c # ys" "ch_commands ch ! n = c" "\<And>f. ch_commands (upd n f ch) = xs @ f c # ys"
    "cmd_ok ch c" "\<forall>x \<in> set xs. in_turn x c" "\<forall>y \<in> set ys. in_turn c y" "ch_sent ch = map cm_id (filter written (xs @ c # ys))" using chan_at [OF ok] True by metis
  let ?c = "c\<lparr>cm_phase := Done, cm_timer := False\<rparr>"
  have "cm_phase c = Sent" "cm_settled c \<noteq> None" using True l(2) by simp_all
  then have c: "cm_phase c = Sent" "cm_settled ?c \<noteq> None" "written ?c = written c" "cmd_ok ch ?c" using l(4) by (auto simp: written_def cmd_ok_def)
  have t: "\<forall>x \<in> set xs. in_turn x ?c" "\<forall>y \<in> set ys. in_turn ?c y" using l(5) c(1) by (simp_all add: in_turn_def)
  show ?thesis by (rule chan_ok_at [OF ok l(1), where c' = ?c]) (use True l c t in simp_all)
qed auto

lemma upd_ids: "(\<And>c. cm_id (f c) = cm_id c) \<Longrightarrow> map cm_id (ch_commands (upd n f ch)) = map cm_id (ch_commands ch)"
  by (cases "n < length (ch_commands ch)") (simp_all add: upd_def map_update list_update_same_conv list_update_beyond)

lemma channel_step_ids: "map cm_id (ch_commands (channel_step ch p)) = map cm_id (ch_commands ch) @ issued [p]"
proof (cases p)
  case (Respond i r)
  then show ?thesis by (simp add: Let_def settle_def)
qed (simp_all add: upd_ids settle_def)

lemma channel_run_ok:
  "distinct (issued ops) \<Longrightarrow> chan_ok (channel_run ops) \<and> map cm_id (ch_commands (channel_run ops)) = issued ops"
proof (induction ops rule: rev_induct)
  case Nil
  show ?case by (simp add: channel_run_def chan_ok_def)
next
  case (snoc p ops)
  have run: "channel_run (ops @ [p]) = channel_step (channel_run ops) p" by (simp add: channel_run_def)
  have iss: "issued (ops @ [p]) = issued ops @ issued [p]" using issued_snoc(1) issued_snoc(2) [of p ops] by (cases p) simp_all
  have IH: "chan_ok (channel_run ops)" "map cm_id (ch_commands (channel_run ops)) = issued ops" using snoc iss by simp_all
  have "chan_ok (channel_step (channel_run ops) p)"
  proof (cases p)
    case (Issue i t)
    then show ?thesis using issue_ok [OF IH(1), of i t] snoc.prems iss IH(2) by simp
  qed (simp_all only: elapse_ok expire_ok acquire_ok writeFails_ok respond_ok finish_ok IH(1))
  then show ?case using IH(2) by (simp only: run iss channel_step_ids)
qed

text \<open>
  C23: commands to an agent take turns and are answered by their own responses. For every interleaving of commands with different ids, of the passing of time, timers,
  writes that succeed or fail and responses, also ones nobody waits for: the commands are kept in the order in which they were issued; one is written only when all before it are done;
  what was written to the agent is, in that order, every command that had the lock and whose write did not fail; a command that returned has a result, and the result is a response with its id,
  a timeout that is due, or a failed write; exactly the unsettled commands have a waiter, and each of them still has its timer.
\<close>

theorem commands_answered:
  fixes ops :: "'r channel_op list"
  assumes "distinct (issued ops)"
  defines "ch \<equiv> channel_run ops"
  shows "map cm_id (ch_commands ch) = issued ops \<and>
    (\<forall>m n. m < n \<and> n < length (ch_commands ch) \<and> cm_phase (ch_commands ch ! n) \<noteq> Queued \<longrightarrow> cm_phase (ch_commands ch ! m) = Done) \<and>
    ch_sent ch = map cm_id (filter (\<lambda>c. cm_phase c = Sent \<or> cm_phase c = Done \<and> cm_settled c \<noteq> Some Failed) (ch_commands ch)) \<and>
    (\<forall>c \<in> set (ch_commands ch). cm_phase c = Done \<longrightarrow>
       (case cm_settled c of None \<Rightarrow> False | Some (Answered r) \<Rightarrow> (cm_id c, r) \<in> set (ch_received ch) | Some Expired \<Rightarrow> cm_deadline c \<le> ch_now ch | Some Failed \<Rightarrow> True)) \<and>
    set (ch_waiters ch) = set (map cm_id (filter (\<lambda>c. cm_settled c = None) (ch_commands ch))) \<and>
    (\<forall>c \<in> set (ch_commands ch). cm_settled c = None \<longrightarrow> cm_timer c)"
proof -
  have ok: "chan_ok ch" "map cm_id (ch_commands ch) = issued ops" using channel_run_ok [OF assms(1)] by (simp_all add: ch_def)
  have turn: "\<forall>m n. m < n \<and> n < length (ch_commands ch) \<and> cm_phase (ch_commands ch ! n) \<noteq> Queued \<longrightarrow> cm_phase (ch_commands ch ! m) = Done"
    using ok(1) by (auto simp: chan_ok_def sorted_wrt_iff_nth_less in_turn_def)
  have cmd: "\<forall>c \<in> set (ch_commands ch). cmd_ok ch c" using ok(1) by (simp add: chan_ok_def)
  then have done_ok: "\<forall>c \<in> set (ch_commands ch). cm_phase c = Done \<longrightarrow>
       (case cm_settled c of None \<Rightarrow> False | Some (Answered r) \<Rightarrow> (cm_id c, r) \<in> set (ch_received ch) | Some Expired \<Rightarrow> cm_deadline c \<le> ch_now ch | Some Failed \<Rightarrow> True)"
    by (auto simp: cmd_ok_def split: option.splits settled.splits)
  have "filter written cs = filter (\<lambda>c. cm_phase c = Sent \<or> cm_phase c = Done \<and> cm_settled c \<noteq> Some Failed) cs" for cs :: "'r command list"
    by (rule filter_cong) (simp_all add: written_def)
  then show ?thesis using ok turn done_ok cmd by (simp add: chan_ok_def cmd_ok_def)
qed

theorem commands_answered_witness:
  "ch_sent (channel_run [Issue ''a'' ''Status'', Issue ''b'' ''BlockIp'', Acquire 1, Acquire 0, Respond ''a'' True, Finish 0, Acquire 1]) = [''a'', ''b'']"
  using commands_answered [of "[Issue ''a'' ''Status'', Issue ''b'' ''BlockIp'', Acquire 1, Acquire 0, Respond ''a'' True, Finish 0, Acquire 1]"]
  by (simp add: channel_run_def hasLock_def upd_def settle_def addWaiter_def removeWaiter_def)



section \<open>Restarts\<close>

fun exits :: "agent \<Rightarrow> nat list \<Rightarrow> exit_action list" where
  "exits a [] = []"
| "exits a (t # ts) = (case exited t a of (x, a') \<Rightarrow> x # exits a' ts)"

text \<open>Five restarts with doubling delays, and then the agent is given up, when the exits follow each other within five minutes.\<close>

lemma crash_loop_trips:
  assumes "\<not> ag_shuttingDown a" "\<not> ag_expectedExit a" "\<not> ag_unsupported a" "ag_count a = 0"
    and "t2 - t1 \<le> 300000" "t3 - t2 \<le> 300000" "t4 - t3 \<le> 300000" "t5 - t4 \<le> 300000" "t6 - t5 \<le> 300000"
  shows "exits a [t1, t2, t3, t4, t5, t6] = [Restart 1000, Restart 2000, Restart 4000, Restart 8000, Restart 16000, Trip]"
  using assms by (simp add: exited_def handleSidecarExit_def Let_def linorder_not_less)

text \<open>A restart is never delayed for longer than sixteen seconds.\<close>

lemma restart_delay_bounded: "fst (exited now a) = Restart d \<Longrightarrow> d \<le> 16000"
proof -
  assume r: "fst (exited now a) = Restart d"
  define k where "k = (if now - ag_lastRestart a > 300000 then 0 else ag_count a)"
  have "k < 5 \<and> d = 2 ^ k * 1000" using r by (auto simp: exited_def handleSidecarExit_def Let_def k_def split: if_splits)
  moreover have "k < 5 \<Longrightarrow> (2 :: nat) ^ k \<le> 2 ^ 4" by (intro power_increasing) simp_all
  ultimately show ?thesis by simp
qed

text \<open>A start before the configuration is there leaves its promise registered, so that the agent is not started after it either.\<close>

lemma early_start_blocks:
  assumes "\<not> ag_unsupported a" "\<not> ag_tripped a" "\<not> ag_running a" "ag_spawning a = None" "\<not> ag_config a"
  defines "b \<equiv> (snd (getPersistentSidecar a))\<lparr>ag_config := True\<rparr>"
  shows "getPersistentSidecar b = (NoProcess, b)"
  using assms by (simp add: getPersistentSidecar_def)

end
