(* ===== verification/Spec2Isabelle.thy ===== *)
theory Spec2Isabelle
  imports Bloom_Filter Bounded_Map Merkle_Tree Threshold Resilience Audit_Ledger Rate_Limit Api_Keys Consensus Persistent_Queue Gossip Policy_Engine
    System_Executor Mmdb_Reader Causal_Graph Autonomous_Response Response_Saga Event_Bus Ipc_Bridge Web_Auth Sidecar_Manager
begin

text \<open>
  \<^bold>\<open>A verification library for Counter-Terrorist.\<close>

  The program is a security orchestrator: a Deno service (src/orchestrator) that watches a host, decides on responses, keeps an audit ledger, talks to
  peers in a mesh and serves a console, and native Rust agents (src/agents) that observe and act. Events of the agents arrive through shared memory, pass the event
  bus, are scored by the response engine, and lead to sagas that call the firewall and other agents through validated commands. Everything
  notable is chained into the audit ledger in a key-value store. Paths below are relative to src/orchestrator/ unless they begin with agents/.

  \<^bold>\<open>Conventions.\<close> A JavaScript string is the list of its UTF-8 bytes, a \<open>Map\<close> an association list in insertion order, a result or exception a sum whose left side is the
  error. Machine words are kept at their width where the code computes with them (Bloom filter, secret sharing, shared memory, databases). Code between two \<open>await\<close>s is one
  step; what interleaves is a step relation or a fold over steps, and properties of runs are proved by invariants. Digests, HMAC, signatures,
  the TPM, zod, URL parsing, DNS, path functions, regular expressions given at run time and MessagePack are parameters; what is assumed of them is a premise of
  the theorem that needs it, and each such theorem has an instance at concrete functions (its witness). Loops are structural or have a termination proof; the loop that
  may really not end, \<open>drain\<close> of \<^emph>\<open>Ipc_Bridge\<close>, is a partial function whose value is \<^const>\<open>None\<close> when it does not. The only bounds are those of the code (optimistic retries,
  decoder depth, depth and breadth of serialisation, history lengths); there is no fuel of our own.

  \<^bold>\<open>Foundations.\<close>
  \<^item> \<^emph>\<open>Prelude\<close>: strings, maps, numbers as text, invariants of runs. \<^emph>\<open>Regex\<close>: the fragment of regular expressions written in the sources. \<^emph>\<open>Lagrange\<close>: interpolation over
    a field. \<^emph>\<open>Json\<close>, \<^emph>\<open>Json_Parse\<close>, \<^emph>\<open>Sanitize\<close>: values, \<open>canonicalStringify\<close> of core/crypto_utils.ts (two values of bounded depth and breadth have the same canonical text exactly if
    they agree up to the order of keys), \<open>JSON.parse\<close>, and the sanitisation of audit data on object graphs with cycles.

  \<^bold>\<open>Data structures of core/.\<close>
  \<^item> \<^emph>\<open>Bloom_Filter\<close> (cache.ts): no false negatives, through the locale \<open>approx_set\<close>. \<^emph>\<open>Bounded_Map\<close> (utils/collections.ts): the linked list with its map refines a
    recency list, on an explicit heap of nodes, through \<open>lru_store\<close>. \<^emph>\<open>Merkle_Tree\<close> (merkle.ts): incremental insertion equals rebuilding, proofs verify and are sound.
  \<^item> \<^emph>\<open>Galois_Field\<close>, \<^emph>\<open>Threshold\<close> (utils/threshold.ts): the tables implement a field; enough shares reconstruct a secret, fewer are consistent with every secret.
  \<^item> \<^emph>\<open>Resilience\<close> (utils/resilience.ts): retries, and a circuit breaker under overlapping calls. \<^emph>\<open>Persistent_Queue\<close> (utils/persistent_queue.ts): nothing is lost or processed after success.

  \<^bold>\<open>Storage and audit.\<close>
  \<^item> \<^emph>\<open>Kv_Repository\<close> (infrastructure/persistence): optimistic writes, pagination, the timeline with its counter.
  \<^item> \<^emph>\<open>Audit_Verifier\<close>, \<^emph>\<open>Audit_Ledger\<close> (domain/analysis/audit_verifier.ts, audit.ts): the head of an intact ledger commits to its contents; under every interleaving of
    logging, flushing, failures and synchronisation each event is queued, buffered or stored exactly once; synchronised events extend the chain.

  \<^bold>\<open>Identity and the web interface.\<close>
  \<^item> \<^emph>\<open>Session\<close>, \<^emph>\<open>Api_Keys\<close>, \<^emph>\<open>Rate_Limit\<close> (domain/identity): sessions refine a table of grants, keys never carry privileged roles, a window admits no more than its limit.
  \<^item> \<^emph>\<open>Web_Auth\<close> (interface/web/middleware/security.ts, routes/registry.ts, routes/ui--login/handlers.ts, web_adapter.tsx): the middleware in the order it is mounted, composed with
    the three services above; what a role at a handler says about the credentials that were presented, over every history of the server.

  \<^bold>\<open>Mesh.\<close>
  \<^item> \<^emph>\<open>Consensus\<close> (domain/orchestration/mesh/consensus_manager.ts): a quorum is reached only by distinct verified peers, however votes, watcher and timeout interleave. \<^emph>\<open>Gossip\<close>
    (mesh/gossip_manager.ts): duplicate suppression, hop limit and batches.

  \<^bold>\<open>Input validation and commands.\<close>
  \<^item> \<^emph>\<open>Net_Validation\<close>, \<^emph>\<open>Path_Validation\<close>, \<^emph>\<open>Sidecar_Schemas\<close> (infrastructure/system/validation.ts): private addresses by their numeric blocks, webhooks, the path jail, and the schemas of
    agent requests as terms over the locale \<open>zod\<close>, which is interpreted by a checker.
  \<^item> \<^emph>\<open>Exec_Policy\<close>, \<^emph>\<open>System_Executor\<close> (execution_policy.ts, system_executor.ts): what an accepted command line can contain, from the schemas to the call that
    reaches the operating system. \<^emph>\<open>Mmdb_Reader\<close> (geoip/mmdb_reader.ts): lookups agree with the prefix table the file encodes and end on arbitrary bytes.

  \<^bold>\<open>Analysis and response.\<close>
  \<^item> \<^emph>\<open>Event_Bus\<close> (domain/analysis/events.ts): middleware that call back late, twice or never; each event is dispatched at most once. \<^emph>\<open>Causal_Graph\<close> (causal_graph_service.ts): the
    indexed edges are those of the quadratic definition.
  \<^item> \<^emph>\<open>Policy_Engine\<close>, \<^emph>\<open>Autonomous_Response\<close>, \<^emph>\<open>Response_Saga\<close> (domain/orchestration): rules before thresholds; scores under interleaved evaluations refine an abstract scoreboard,
    through \<open>bounded_store\<close>; which calls a saga may make, in which order.

  \<^bold>\<open>Agents.\<close>
  \<^item> \<^emph>\<open>Ipc_Ring\<close> (agents/cts_ipc/src/lib.rs \<open>IpcRingBuffer\<close>, agents/cts_sec/src/lib.rs \<open>shmem_ring_pull\<close>, \<open>shmem_ring_commit\<close>): memory safety for arbitrary contents of the segment; a FIFO queue when
    the bytes a producer writes interleave with the steps of a consumer. The segment has 16 bytes to 2 GiB of data, for which the 32-bit sums in \<open>push\<close> do not wrap; agents use 1 MiB.
  \<^item> \<^emph>\<open>Ipc_Bridge\<close> (\<open>IpcManager\<close>, \<open>fast_morph\<close>, the command slot, infrastructure/runtime/ipc_ffi_bridge.ts, the loop of sidecar_manager.ts): events arrive decoded, in order and once,
    over the locale \<open>event_source\<close>; vectorised and scalar obfuscation agree; commands are handed over one at a time.
  \<^item> \<^emph>\<open>Sidecar_Manager\<close> (infrastructure/runtime/sidecar_manager.ts, ipc_coordinator.ts): lines do not depend on how output is cut into chunks; the scan for nesting bounds what
    \<open>JSON.parse\<close> returns; commands take turns and get their own responses, under every interleaving of locks, timers, writes and responses; restarts with their delays.

  \<^bold>\<open>Failures of the code\<close> are theorems as well: events of one millisecond can break the chain (\<^emph>\<open>Audit_Ledger\<close>), IPv6 sources are taken for processes (\<^emph>\<open>Response_Saga\<close>), session cookies
  are written to the ledger (\<^emph>\<open>Web_Auth\<close>), short telemetry is not verified and a hostile ring stops the orchestrator (\<^emph>\<open>Ipc_Bridge\<close>),
  commands that were reported as timed out are carried out later, and an agent started too early is never started (\<^emph>\<open>Sidecar_Manager\<close>).

  \<^bold>\<open>Not modelled.\<close> Code whose effect is outside the program: spawning processes and checking their binaries, drivers for firewall, TPM and kernel modules (their command lines pass the modelled
  executor), decoys, discovery, feeds fetched over the network, certificates made with openssl, log files and start-up. HTTP exchange between peers in domain/orchestration/mesh.ts, beyond the
  quorum and the gossip it uses. Statistics in floating point over metrics (baselines, behavioural scores). Pages, browser scripts and handlers
  behind the modelled gates. Build tools. The system calls and eBPF programs of the agents. In modelled parts: texts of log lines, the exact time of timers (a timer is a
  step that may happen once it is due), memory ordering weaker than the acquire and release pairs the ring uses, and exhaustion of memory.
\<close>

end
